(* ===== verification/Prelude.thy ===== *)
theory Prelude
  imports Main "HOL-Library.Word"
begin

text \<open>
  Shared vocabulary of the development: the machine types of the C++ sources, the two list
  operations that model \<^verbatim>\<open>memcpy\<close> into and out of a buffer, little-endian packing of words (the
  layout of packed structs on the little-endian targets of the build), and the generic lemmas on
  lists, loops and bits that several components use.
\<close>

unbundle bit_operations_syntax

type_synonym byte = "8 word"
type_synonym u16 = "16 word"
type_synonym u32 = "32 word"
type_synonym u64 = "64 word"

text \<open>A \<^verbatim>\<open>std::wstring\<close> is the list of its UTF-16 code units, a \<^verbatim>\<open>std::string\<close> the list of its bytes.\<close>

type_synonym wstring = "u16 list"
type_synonym bstring = "byte list"

named_theorems buffer_simps "reading and writing regions of byte buffers"
named_theorems codec_simps "little-endian packing of words and structs"

section \<open>Regions of buffers\<close>

text \<open>
  \<open>overwrite i ys xs\<close> is \<open>xs\<close> after \<^verbatim>\<open>memcpy(xs + i, ys, length ys)\<close>, where the region may run past
  the end (a file then grows); \<open>slice i n xs\<close> is the \<open>n\<close> elements from \<open>i\<close> on (fewer at the end).
\<close>

definition overwrite :: "nat \<Rightarrow> 'a list \<Rightarrow> 'a list \<Rightarrow> 'a list" where
  "overwrite i ys xs = take i xs @ ys @ drop (i + length ys) xs"

definition slice :: "nat \<Rightarrow> nat \<Rightarrow> 'a list \<Rightarrow> 'a list" where
  "slice i n xs = take n (drop i xs)"

lemma length_overwrite [buffer_simps]:
  "i + length ys \<le> length xs \<Longrightarrow> length (overwrite i ys xs) = length xs"
  by (simp add: overwrite_def)

lemma length_overwrite_max:
  "i \<le> length xs \<Longrightarrow> length (overwrite i ys xs) = max (length xs) (i + length ys)"
  by (simp add: overwrite_def)

lemma overwrite_0: "length ys = length xs \<Longrightarrow> overwrite 0 ys xs = ys"
  by (simp add: overwrite_def)

lemma overwrite_end: "i = length xs \<Longrightarrow> overwrite i ys xs = xs @ ys"
  by (simp add: overwrite_def)

lemma overwrite_Nil [simp]: "overwrite i [] xs = xs"
  by (simp add: overwrite_def)

lemma length_slice: "length (slice i n xs) = min n (length xs - i)"
  by (simp add: slice_def)

lemma slice_0 [simp]: "slice 0 n xs = take n xs"
  by (simp add: slice_def)

lemma slice_overwrite_same [buffer_simps]:
  "i \<le> length xs \<Longrightarrow> n = length ys \<Longrightarrow> slice i n (overwrite i ys xs) = ys"
  by (simp add: overwrite_def slice_def)

lemma slice_overwrite_before [buffer_simps]:
  "j + n \<le> i \<Longrightarrow> i \<le> length xs \<Longrightarrow> slice j n (overwrite i ys xs) = slice j n xs"
  by (simp add: overwrite_def slice_def drop_take)

lemma slice_overwrite_after [buffer_simps]:
  assumes "i + length ys \<le> j" "i \<le> length xs"
  shows "slice j n (overwrite i ys xs) = slice j n xs"
proof -
  have "drop j (take i xs @ ys @ drop (i + length ys) xs) = drop j xs"
    using assms by (auto simp: min_def not_le intro: arg_cong[where f = "\<lambda>k. drop k xs"])
  then show ?thesis by (simp add: overwrite_def slice_def)
qed

lemma slice_slice: "j + m \<le> n \<Longrightarrow> slice j m (slice i n xs) = slice (i + j) m xs"
  by (simp add: slice_def drop_take min_def add.commute)

lemma slice_append_left: "i + n \<le> length xs \<Longrightarrow> slice i n (xs @ ys) = slice i n xs"
  by (simp add: slice_def)

lemma slice_append_right: "length xs \<le> i \<Longrightarrow> slice i n (xs @ ys) = slice (i - length xs) n ys"
  by (simp add: slice_def)

lemma take_slice_drop: "i + n \<le> length xs \<Longrightarrow> take i xs @ slice i n xs @ drop (i + n) xs = xs"
  by (metis append_take_drop_id drop_drop add.commute slice_def)

lemma slice_split: "k \<le> n \<Longrightarrow> slice i n xs = slice i k xs @ slice (i + k) (n - k) xs"
  by (metis add.commute drop_drop le_add_diff_inverse slice_def take_add)

lemma take_overwrite:
  "i \<le> length xs \<Longrightarrow> take (i + length ys) (overwrite i ys xs) = take i xs @ ys"
  by (simp add: overwrite_def)

section \<open>Array-filling loops\<close>

text \<open>The loop \<^verbatim>\<open>for (i = 0; i < n; i++) a[i] = f(i);\<close>, also when it threads further state.\<close>

lemma fold_update_upt:
  "length a = n \<Longrightarrow> fold (\<lambda>i a. a[i := f i]) [0..<n] a = map f [0..<n]"
proof -
  have "fold (\<lambda>i a. a[i := f i]) [0..<k] a = map f [0..<k] @ drop k a"
    if "k \<le> length a" for k
    using that
  proof (induction k)
    case 0
    then show ?case by simp
  next
    case (Suc k)
    then have "fold (\<lambda>i a. a[i := f i]) [0..<Suc k] a = (map f [0..<k] @ drop k a)[k := f k]"
      by simp
    also have "\<dots> = map f [0..<k] @ (drop k a)[0 := f k]"
      by (simp add: list_update_append)
    also have "drop k a = a ! k # drop (Suc k) a"
      using Suc.prems by (simp add: Cons_nth_drop_Suc)
    finally show ?case by simp
  qed
  then show "length a = n \<Longrightarrow> ?thesis" by simp
qed

lemma fold_pair_independent:
  "fold (\<lambda>i (a, b). (f i a, g i b)) is (a, b) = (fold f is a, fold g is b)"
  by (induction "is" arbitrary: a b) auto

text \<open>The loop \<^verbatim>\<open>for (i ...) a[k(i)] = v(i);\<close> with distinct targets.\<close>

lemma length_fold_scatter [simp]:
  "length (fold (\<lambda>i a. a[k i := v i]) xs a) = length a"
  by (induction xs arbitrary: a) auto

lemma fold_scatter_other:
  "p \<notin> k ` set xs \<Longrightarrow> fold (\<lambda>i a. a[k i := v i]) xs a ! p = a ! p"
  by (induction xs arbitrary: a) auto

lemma fold_scatter_hit:
  assumes "distinct xs" "inj_on k (set xs)" "j \<in> set xs" "k j < length a"
  shows "fold (\<lambda>i a. a[k i := v i]) xs a ! k j = v j"
  using assms
proof (induction xs rule: rev_induct)
  case Nil
  then show ?case by simp
next
  case (snoc x xs)
  show ?case
  proof (cases "j = x")
    case True
    then show ?thesis using snoc.prems by simp
  next
    case False
    then have "k j \<noteq> k x"
      using snoc.prems(2,3) inj_onD [of k "set (xs @ [x])" j x] by auto
    then show ?thesis using snoc False by (auto intro: inj_on_subset)
  qed
qed

section \<open>Little-endian packing\<close>

definition le_bytes :: "nat \<Rightarrow> 'a::len word \<Rightarrow> byte list" where
  "le_bytes n w = map (\<lambda>i. ucast (drop_bit (8 * i) w)) [0..<n]"

fun le_word :: "byte list \<Rightarrow> 'a::len word" where
  "le_word [] = 0"
| "le_word (b # bs) = ucast b OR push_bit 8 (le_word bs)"

lemma length_le_bytes [simp, codec_simps]: "length (le_bytes n w) = n"
  by (simp add: le_bytes_def)

lemma bit_le_word:
  "bit (le_word bs :: 'a::len word) k \<longleftrightarrow>
     k < LENGTH('a) \<and> k div 8 < length bs \<and> bit (bs ! (k div 8)) (k mod 8)"
proof (induction bs arbitrary: k)
  case Nil
  then show ?case by simp
next
  case (Cons b bs)
  show ?case
  proof (cases "k < 8")
    case True
    then show ?thesis
      by (auto simp: bit_or_iff bit_ucast_iff bit_push_bit_iff)
  next
    case False
    define j where "j = k - 8"
    have k: "k = j + 8" using False by (simp add: j_def)
    have "\<not> bit b k" using False bit_imp_le_length [of b k] by auto
    then have "bit (le_word (b # bs) :: 'a word) k \<longleftrightarrow>
        k < LENGTH('a) \<and> bit (le_word bs :: 'a word) j"
      by (auto simp: bit_or_iff bit_ucast_iff bit_push_bit_iff k)
    also have "\<dots> \<longleftrightarrow> k < LENGTH('a) \<and> j div 8 < length bs \<and> bit (bs ! (j div 8)) (j mod 8)"
      by (auto simp: Cons.IH k)
    moreover have "(j + 8) div 8 = Suc (j div 8)" by simp
    ultimately show ?thesis by (simp add: k)
  qed
qed

lemma le_word_le_bytes [codec_simps]:
  assumes "LENGTH('a::len) \<le> 8 * n"
  shows "le_word (le_bytes n (w :: 'a word)) = w"
proof (rule bit_word_eqI)
  fix k assume k: "k < LENGTH('a)"
  then have "k div 8 < n" using assms by auto
  then show "bit (le_word (le_bytes n w) :: 'a word) k = bit w k"
    using k by (simp add: bit_le_word le_bytes_def bit_ucast_iff bit_drop_bit_eq)
qed

lemma le_bytes_le_word [codec_simps]:
  assumes "length bs = n" "8 * n \<le> LENGTH('a::len)"
  shows "le_bytes n (le_word bs :: 'a word) = bs"
proof (rule nth_equalityI)
  fix i assume "i < length (le_bytes n (le_word bs :: 'a word))"
  then have i: "i < n" by simp
  show "le_bytes n (le_word bs :: 'a word) ! i = bs ! i"
  proof (rule bit_word_eqI)
    fix k assume "k < LENGTH(8)"
    then have k: "k < 8" by simp
    have "8 * i + k < LENGTH('a)" using i k assms(2) by auto
    then show "bit (le_bytes n (le_word bs :: 'a word) ! i) k = bit (bs ! i) k"
      using i k assms(1) by (simp add: le_bytes_def bit_ucast_iff bit_drop_bit_eq bit_le_word)
  qed
qed (simp add: assms)

section \<open>Words and numbers\<close>

lemma ucast_of_small_nat:
  "n < 2 ^ LENGTH('a) \<Longrightarrow> ucast (of_nat n :: 'a::len word) = (of_nat n :: 'b::len word)"
  by (simp add: unsigned_of_nat take_bit_nat_eq_self)

lemma unat_ucast_u32: "unat (ucast (x :: u32) :: u64) = unat x"
proof -
  have "unat x < 2 ^ 64" using unsigned_less [of x, where ?'a = nat] by simp
  then show ?thesis by (simp add: unsigned_ucast_eq take_bit_nat_eq_self)
qed

end
