(* ===== verification/Aes_Field.thy ===== *)
theory Aes_Field
  imports Prelude
begin

text \<open>
  The byte field GF(2^8) of AES, as FIPS-197 defines it and independently of the code: doubling,
  multiplication by shift and add, inversion, the affine map, the substitution box and its inverse.
  The tables of \<^verbatim>\<open>VFSCryptLib/src/aes.cpp\<close> are proved equal to these functions in \<open>Aes_Impl\<close>. The
  central fact is that 3 generates the multiplicative group: its powers \<open>pw 0, ..., pw 254\<close> are the
  255 non-zero bytes, which is what makes the code's logarithm tables work.
\<close>

section \<open>Doubling and multiplication\<close>

definition xt :: "byte \<Rightarrow> byte" where
  "xt b = push_bit 1 b XOR (if bit b 7 then 0x1B else 0)"

fun gmul_bits :: "nat \<Rightarrow> byte \<Rightarrow> byte \<Rightarrow> byte" where
  "gmul_bits 0 a b = 0"
| "gmul_bits (Suc n) a b = (if bit a 0 then b else 0) XOR gmul_bits n (drop_bit 1 a) (xt b)"

definition gmul :: "byte \<Rightarrow> byte \<Rightarrow> byte" where
  "gmul a b = gmul_bits 8 a b"

lemma less_8_iff: "n < 8 \<longleftrightarrow> n \<in> {0, 1, 2, 3, 4, 5, 6, 7::nat}"
  by auto

lemma byte_eqI: "(\<And>n. n \<in> {0, 1, 2, 3, 4, 5, 6, 7} \<Longrightarrow> bit a n = bit b n) \<Longrightarrow> a = (b :: byte)"
  by (rule bit_word_eqI) (auto simp: less_8_iff)

lemma xt_0 [simp]: "xt 0 = 0"
  by (simp add: xt_def)

lemma xt_xor: "xt (a XOR b) = xt a XOR xt b"
  by (simp add: xt_def push_bit_xor bit_xor_iff xor.assoc xor.left_commute)

lemma gmul_bits_xor: "gmul_bits n a (b XOR c) = gmul_bits n a b XOR gmul_bits n a c"
  by (induction n arbitrary: a b c) (simp_all add: xt_xor xor.assoc xor.left_commute)

lemma gmul_bits_xt: "gmul_bits n a (xt b) = xt (gmul_bits n a b)"
  by (induction n arbitrary: a b) (simp_all add: xt_xor)

lemma gmul_xor: "gmul a (b XOR c) = gmul a b XOR gmul a c"
  by (simp add: gmul_def gmul_bits_xor)

lemma gmul_xt: "gmul a (xt b) = xt (gmul a b)"
  by (simp add: gmul_def gmul_bits_xt)

lemma gmul_0 [simp]: "gmul a 0 = 0"
  using gmul_xor [of a 0 0] by simp

lemma gmul_bits_numeral:
  "gmul_bits (numeral k) a b =
     (if bit a 0 then b else 0) XOR gmul_bits (pred_numeral k) (drop_bit 1 a) (xt b)"
  by (simp add: numeral_eq_Suc)

lemma bit_if_0: "bit (if c then x else (0 :: byte)) n \<longleftrightarrow> c \<and> bit x n"
  by simp

lemma gmul_1_expand:
  "gmul a 1 = (if bit a 0 then 1 else 0) XOR (if bit a 1 then 2 else 0)
     XOR (if bit a 2 then 4 else 0) XOR (if bit a 3 then 8 else 0) XOR (if bit a 4 then 16 else 0)
     XOR (if bit a 5 then 32 else 0) XOR (if bit a 6 then 64 else 0) XOR (if bit a 7 then 128 else 0)"
  by (simp add: gmul_def gmul_bits_numeral xt_def bit_drop_bit_eq del: bit_0 split del: if_split)
    (simp add: eval_nat_numeral split del: if_split)

lemma gmul_1: "gmul a 1 = a"
  unfolding gmul_1_expand
  by (rule byte_eqI) (elim insertE emptyE; simp only: bit_xor_iff bit_if_0; simp)

section \<open>The powers of 3\<close>

definition times3 :: "byte \<Rightarrow> byte" where
  "times3 b = b XOR xt b"

definition pw :: "nat \<Rightarrow> byte" where
  "pw i = (times3 ^^ i) 1"

definition pw_table :: "byte list" where
  "pw_table =
    [1, 3, 5, 15, 17, 51, 85, 255, 26, 46, 114, 150, 161, 248, 19, 53, 95, 225, 56, 72, 216,
     115, 149, 164, 247, 2, 6, 10, 30, 34, 102, 170, 229, 52, 92, 228, 55, 89, 235, 38, 106,
     190, 217, 112, 144, 171, 230, 49, 83, 245, 4, 12, 20, 60, 68, 204, 79, 209, 104, 184, 211,
     110, 178, 205, 76, 212, 103, 169, 224, 59, 77, 215, 98, 166, 241, 8, 24, 40, 120, 136,
     131, 158, 185, 208, 107, 189, 220, 127, 129, 152, 179, 206, 73, 219, 118, 154, 181, 196,
     87, 249, 16, 48, 80, 240, 11, 29, 39, 105, 187, 214, 97, 163, 254, 25, 43, 125, 135, 146,
     173, 236, 47, 113, 147, 174, 233, 32, 96, 160, 251, 22, 58, 78, 210, 109, 183, 194, 93,
     231, 50, 86, 250, 21, 63, 65, 195, 94, 226, 61, 71, 201, 64, 192, 91, 237, 44, 116, 156,
     191, 218, 117, 159, 186, 213, 100, 172, 239, 42, 126, 130, 157, 188, 223, 122, 142, 137,
     128, 155, 182, 193, 88, 232, 35, 101, 175, 234, 37, 111, 177, 200, 67, 197, 84, 252, 31,
     33, 99, 165, 244, 7, 9, 27, 45, 119, 153, 176, 203, 70, 202, 69, 207, 74, 222, 121, 139,
     134, 145, 168, 227, 62, 66, 198, 81, 243, 14, 18, 54, 90, 238, 41, 123, 141, 140, 143,
     138, 133, 148, 167, 242, 13, 23, 57, 75, 221, 124, 132, 151, 162, 253, 28, 36, 108, 180,
     199, 82, 246, 1]"

lemma pw_0 [simp]: "pw 0 = 1"
  by (simp add: pw_def)

lemma pw_Suc: "pw (Suc i) = times3 (pw i)"
  by (simp add: pw_def)

lemma pw_table_step: "map times3 (butlast pw_table) = tl pw_table"
  by (simp add: pw_table_def times3_def xt_def)

lemma length_pw_table: "length pw_table = 256"
  by (simp add: pw_table_def)

lemma pw_table_nth: "i < 256 \<Longrightarrow> pw_table ! i = pw i"
proof (induction i)
  case 0
  then show ?case by (simp add: pw_table_def)
next
  case (Suc i)
  have "pw_table ! Suc i = tl pw_table ! i"
    using Suc.prems by (simp add: nth_tl length_pw_table)
  also have "\<dots> = times3 (butlast pw_table ! i)"
    using Suc.prems by (simp add: length_pw_table flip: pw_table_step)
  also have "\<dots> = times3 (pw_table ! i)"
    using Suc.prems by (simp add: nth_butlast length_pw_table)
  finally show ?case using Suc by (simp add: pw_Suc)
qed

lemma pw_255: "pw 255 = 1"
  using pw_table_nth [of 255] by (simp add: pw_table_def)

lemma pw_neq_1:
  assumes "0 < i" "i < 255"
  shows "pw i \<noteq> 1"
proof -
  have "tl (butlast pw_table) ! (i - 1) = pw i"
    using assms by (simp add: nth_tl nth_butlast length_pw_table pw_table_nth)
  moreover have "tl (butlast pw_table) ! (i - 1) \<in> set (tl (butlast pw_table))"
    using assms by (intro nth_mem) (simp add: length_pw_table)
  moreover have "1 \<notin> set (tl (butlast pw_table))"
    by (simp add: pw_table_def)
  ultimately show ?thesis by metis
qed

lemma times3_pow_add: "(times3 ^^ i) (pw j) = pw (i + j)"
  by (simp add: pw_def funpow_add)

lemma pw_add_255: "pw (i + 255) = pw i"
  using times3_pow_add [of i 255] by (simp add: pw_255 flip: pw_def)

lemma pw_mod: "pw (i mod 255) = pw i"
proof (induction i rule: less_induct)
  case (less i)
  show ?case
  proof (cases "i < 255")
    case False
    then have "pw (i mod 255) = pw ((i - 255) mod 255)" by (simp add: le_mod_geq)
    also have "\<dots> = pw (i - 255)" using False by (intro less) simp
    also have "\<dots> = pw i" using pw_add_255 [of "i - 255"] False by simp
    finally show ?thesis .
  qed simp
qed

lemma pw_inj: "i < j \<Longrightarrow> j < i + 255 \<Longrightarrow> pw i \<noteq> pw j"
proof
  assume ij: "i < j" "j < i + 255" and eq: "pw i = pw j"
  define k where "k = 255 * (j div 255 + 1) - j"
  have "(times3 ^^ k) (pw i) = (times3 ^^ k) (pw j)" by (simp add: eq)
  then have "pw (k + i) = pw (k + j)" by (simp add: times3_pow_add)
  moreover have "k + j = 255 * (j div 255 + 1)"
    unfolding k_def by (rule le_add_diff_inverse2) (use div_mult_mod_eq [of j 255] in simp)
  ultimately have "pw (k + i) = 1"
    using pw_mod [of "k + j"] by simp
  then have "pw ((k + i) mod 255) = 1" by (simp add: pw_mod)
  moreover have "(k + i) mod 255 \<noteq> 0"
  proof
    assume "(k + i) mod 255 = 0"
    then have "(k + j) mod 255 = (j - i) mod 255"
      using ij mod_add_left_eq [of "k + i" 255 "j - i"] by simp
    then show False using ij \<open>k + j = _\<close> by simp
  qed
  ultimately show False using pw_neq_1 [of "(k + i) mod 255"] by simp
qed

lemma pw_neq_0: "pw i \<noteq> 0"
proof
  assume "pw i = 0"
  moreover have "(times3 ^^ k) 0 = 0" for k
    by (induction k) (simp_all add: times3_def)
  ultimately have "pw (k + i) = 0" for k
    using times3_pow_add [of k i] by simp
  from this [of "254 * i"] have "pw ((254 * i + i) mod 255) = 0" by (simp only: pw_mod)
  moreover have "254 * i + i = 255 * i" by simp
  ultimately show False by simp
qed

lemma pw_range: "pw ` {1..255} = UNIV - {0}"
proof (rule card_subset_eq)
  have "inj_on pw {1..255}"
    by (rule linorder_inj_onI) (auto dest: pw_inj)
  then have "card (pw ` {1..255}) = 255" by (simp add: card_image)
  moreover have "card (UNIV - {0 :: byte}) = card (UNIV :: byte set) - 1"
    by (rule card_Diff_singleton) simp
  moreover have "card (UNIV :: byte set) = 256"
    using card_word [where 'a = 8] by simp
  ultimately show "card (pw ` {1..255}) = card (UNIV - {0 :: byte})" by linarith
qed (auto simp: pw_neq_0)

lemma byte_pwE:
  assumes "b \<noteq> 0"
  obtains i where "1 \<le> i" "i \<le> 255" "b = pw i"
proof -
  have "b \<in> pw ` {1..255}" using assms by (simp only: pw_range) simp
  then show thesis using that by (auto simp only: image_iff atLeastAtMost_iff)
qed

lemma gmul_times3: "gmul a (times3 b) = times3 (gmul a b)"
  by (simp add: times3_def gmul_xor gmul_xt)

lemma gmul_pw: "gmul a (pw i) = (times3 ^^ i) a"
  by (induction i) (simp_all add: gmul_1 pw_Suc gmul_times3)

lemma gmul_pw_pw: "gmul (pw j) (pw i) = pw (i + j)"
  by (simp add: gmul_pw times3_pow_add)

section \<open>Inversion and the substitution box\<close>

definition ginv :: "byte \<Rightarrow> byte" where
  "ginv b = (case find (\<lambda>x. gmul b x = 1) (map word_of_nat [0..<256]) of Some x \<Rightarrow> x | None \<Rightarrow> 0)"

lemma byte_in_range: "(b :: byte) \<in> set (map word_of_nat [0..<256])"
proof -
  have "unat b < 2 ^ LENGTH(8)" by (rule unsigned_less)
  then have "unat b < 256" by simp
  then have "word_of_nat (unat b) \<in> (word_of_nat ` {0..<256} :: byte set)"
    by (intro imageI) simp
  then show ?thesis by simp
qed

lemma ginv_unique:
  assumes "gmul b y = 1" and "\<And>x. gmul b x = 1 \<Longrightarrow> x = y"
  shows "ginv b = y"
proof -
  have "find (\<lambda>x. gmul b x = 1) (map word_of_nat [0..<256]) \<noteq> None"
    using assms(1) byte_in_range [of y] unfolding find_None_iff by blast
  then obtain x where x: "find (\<lambda>x. gmul b x = 1) (map word_of_nat [0..<256]) = Some x"
    by blast
  then have "gmul b x = 1" unfolding find_Some_iff by blast
  then show ?thesis using x assms(2) by (simp add: ginv_def)
qed

lemma gmul_0_left [simp]: "gmul 0 b = 0"
  by (simp add: gmul_def gmul_bits_numeral)

lemma ginv_0 [simp]: "ginv 0 = 0"
proof -
  have "find (\<lambda>x. gmul 0 x = 1) xs = None" for xs
    unfolding find_None_iff by simp
  then show ?thesis unfolding ginv_def by simp
qed

lemma ginv_pw:
  assumes "1 \<le> i" "i \<le> 255"
  shows "ginv (pw i) = pw (255 - i)"
proof (rule ginv_unique)
  show "gmul (pw i) (pw (255 - i)) = 1"
    using assms by (simp add: gmul_pw_pw pw_255)
next
  fix x assume x: "gmul (pw i) x = 1"
  then have "x \<noteq> 0" by auto
  then obtain j where j: "1 \<le> j" "j \<le> 255" "x = pw j" by (rule byte_pwE)
  have "pw ((j + i) mod 255) = 1" using x by (simp only: j gmul_pw_pw pw_mod)
  then have "(j + i) mod 255 = 0" using pw_neq_1 [of "(j + i) mod 255"] by auto
  then obtain k where k: "j + i = 255 * k" by (auto elim: dvdE simp: mod_eq_0_iff_dvd)
  then have "k = 1 \<or> k = 2" using assms j by (cases "k \<le> 2") auto
  then have "255 - i = j \<or> j = 255 \<and> i = 255" using assms j k by auto
  then show "x = pw (255 - i)" using j by (auto simp: pw_255)
qed

lemma ginv_ginv: "ginv (ginv b) = b"
proof (cases "b = 0")
  case False
  then obtain i where i: "1 \<le> i" "i \<le> 255" "b = pw i" by (rule byte_pwE)
  show ?thesis
  proof (cases "i = 255")
    case True
    then show ?thesis using i ginv_pw [of 255] by (simp add: pw_255)
  next
    case False
    then show ?thesis using i by (simp add: ginv_pw)
  qed
qed simp

definition affine :: "byte \<Rightarrow> byte" where
  "affine b = b XOR word_rotl 1 b XOR word_rotl 2 b XOR word_rotl 3 b XOR word_rotl 4 b XOR 0x63"

definition affine_inv :: "byte \<Rightarrow> byte" where
  "affine_inv b = word_rotl 1 b XOR word_rotl 3 b XOR word_rotl 6 b XOR 0x05"

lemma iff_cancel: "(P \<longleftrightarrow> (P \<longleftrightarrow> Q)) \<longleftrightarrow> Q"
  by blast

lemma affine_inv_affine: "affine_inv (affine b) = b"
  by (rule byte_eqI) (elim insertE emptyE; simp add: affine_inv_def affine_def bit_xor_iff
      bit_word_rotl_iff eq_ac iff_cancel; simp add: eval_nat_numeral)

definition sub_byte :: "byte \<Rightarrow> byte" where
  "sub_byte b = affine (ginv b)"

definition inv_sub_byte :: "byte \<Rightarrow> byte" where
  "inv_sub_byte b = ginv (affine_inv b)"

lemma inv_sub_sub [simp]: "inv_sub_byte (sub_byte b) = b"
  by (simp add: inv_sub_byte_def sub_byte_def affine_inv_affine ginv_ginv)

lemma inj_sub_byte: "inj sub_byte"
  by (rule inj_on_inverseI [where g = inv_sub_byte]) simp

section \<open>The column transformations\<close>

type_synonym column = "byte \<times> byte \<times> byte \<times> byte"

fun mix_column :: "column \<Rightarrow> column" where
  "mix_column (a, b, c, d) =
     (gmul 2 a XOR gmul 3 b XOR c XOR d,
      a XOR gmul 2 b XOR gmul 3 c XOR d,
      a XOR b XOR gmul 2 c XOR gmul 3 d,
      gmul 3 a XOR b XOR c XOR gmul 2 d)"

fun inv_mix_column :: "column \<Rightarrow> column" where
  "inv_mix_column (a, b, c, d) =
     (gmul 14 a XOR gmul 11 b XOR gmul 13 c XOR gmul 9 d,
      gmul 9 a XOR gmul 14 b XOR gmul 11 c XOR gmul 13 d,
      gmul 13 a XOR gmul 9 b XOR gmul 14 c XOR gmul 11 d,
      gmul 11 a XOR gmul 13 b XOR gmul 9 c XOR gmul 14 d)"

lemma xor_cancel [simp]: "a XOR (a XOR b) = (b :: 'a::len word)"
  by (simp flip: xor.assoc)

lemma gmul_constants:
  "gmul 2 b = xt b"
  "gmul 3 b = b XOR xt b"
  "gmul 9 b = b XOR xt (xt (xt b))"
  "gmul 11 b = b XOR xt b XOR xt (xt (xt b))"
  "gmul 13 b = b XOR xt (xt b) XOR xt (xt (xt b))"
  "gmul 14 b = xt b XOR xt (xt b) XOR xt (xt (xt b))"
  by (simp_all add: gmul_def gmul_bits_numeral)

lemma inv_mix_mix: "inv_mix_column (mix_column col) = col"
  by (cases col) (simp add: gmul_constants xt_xor xor.assoc xor.commute xor.left_commute)

end
