(* ===== verification/Data_Buffer.thy ===== *)
theory Data_Buffer
  imports Prelude
begin

text \<open>
  \<^verbatim>\<open>VFSCryptLib/src/DataBuffer.cpp\<close>: the growable byte buffer the ciphers write to and the archive
  hands around. A \<open>DataBuffer_Impl\<close> is the reference-counted object (allocation, used size,
  allocated size); its allocation is kept whole, so that bytes beyond the used size, which a shrink
  leaves behind and a later growth within the allocation exposes, are part of the state. A
  \<open>DataBuffer\<close> is a handle to such an object: the second half of the theory models handles and
  objects with an explicit store, because copying a \<open>DataBuffer\<close> shares the object. Allocation is
  taken to succeed.
\<close>

section \<open>The implementation object\<close>

record DataBuffer_Impl =
  db_data :: "byte list"
  db_size :: u32
  db_allocated :: u32

definition DataBuffer_Impl_new :: DataBuffer_Impl where
  "DataBuffer_Impl_new = \<lparr>db_data = [], db_size = 0, db_allocated = 0\<rparr>"

definition set_size :: "u32 \<Rightarrow> DataBuffer_Impl \<Rightarrow> DataBuffer_Impl" where
  "set_size new_size b =
     (if db_allocated b < new_size
      then b\<lparr>db_data := take (unat (db_size b)) (db_data b)
                         @ replicate (unat (new_size - db_size b)) 0,
             db_size := new_size, db_allocated := new_size\<rparr>
      else b\<lparr>db_size := new_size\<rparr>)"

definition set_capacity :: "u32 \<Rightarrow> DataBuffer_Impl \<Rightarrow> DataBuffer_Impl" where
  "set_capacity new_capacity b =
     (if db_allocated b < new_capacity
      then b\<lparr>db_data := take (unat (db_size b)) (db_data b)
                         @ replicate (unat (new_capacity - db_size b)) 0,
             db_allocated := new_capacity\<rparr>
      else b)"

definition get_size :: "DataBuffer_Impl \<Rightarrow> u32" where
  "get_size b = db_size b"

definition get_capacity :: "DataBuffer_Impl \<Rightarrow> u32" where
  "get_capacity b = db_allocated b"

definition is_null :: "DataBuffer_Impl \<Rightarrow> bool" where
  "is_null b \<longleftrightarrow> db_size b = 0"

text \<open>Reading or writing outside the allocation is undefined behaviour: \<open>None\<close>.\<close>

definition buffer_get :: "DataBuffer_Impl \<Rightarrow> nat \<Rightarrow> byte option" where
  "buffer_get b i = (if i < length (db_data b) then Some (db_data b ! i) else None)"

definition buffer_put :: "nat \<Rightarrow> byte \<Rightarrow> DataBuffer_Impl \<Rightarrow> DataBuffer_Impl option" where
  "buffer_put i v b =
     (if i < length (db_data b) then Some (b\<lparr>db_data := (db_data b)[i := v]\<rparr>) else None)"

text \<open>A \<^verbatim>\<open>memcpy\<close> through the pointer of \<^verbatim>\<open>get_data()\<close>.\<close>

definition write_at :: "nat \<Rightarrow> byte list \<Rightarrow> DataBuffer_Impl \<Rightarrow> DataBuffer_Impl" where
  "write_at i bs b = b\<lparr>db_data := overwrite i bs (db_data b)\<rparr>"

text \<open>The used bytes, what \<^verbatim>\<open>get_data()\<close> with \<^verbatim>\<open>get_size()\<close> denotes to a caller.\<close>

definition contents :: "DataBuffer_Impl \<Rightarrow> byte list" where
  "contents b = take (unat (db_size b)) (db_data b)"

definition DataBuffer_of_size :: "u32 \<Rightarrow> DataBuffer_Impl" where
  "DataBuffer_of_size n = set_size n DataBuffer_Impl_new"

definition DataBuffer_of_data :: "byte list \<Rightarrow> u32 \<Rightarrow> DataBuffer_Impl" where
  "DataBuffer_of_data mem n = write_at 0 (take (unat n) mem) (set_size n DataBuffer_Impl_new)"

definition DataBuffer_of_part :: "DataBuffer_Impl \<Rightarrow> u32 \<Rightarrow> u32 \<Rightarrow> DataBuffer_Impl" where
  "DataBuffer_of_part src pos n =
     write_at 0 (slice (unat pos) (unat n) (db_data src)) (set_size n DataBuffer_Impl_new)"

section \<open>Invariant and laws\<close>

definition buffer_ok :: "DataBuffer_Impl \<Rightarrow> bool" where
  "buffer_ok b \<longleftrightarrow> length (db_data b) = unat (db_allocated b) \<and> db_size b \<le> db_allocated b"

lemma unat_diff_le: "(a :: u32) \<le> b \<Longrightarrow> unat (b - a) = unat b - unat a"
  by (rule unat_sub)

lemma buffer_ok_new [simp]: "buffer_ok DataBuffer_Impl_new"
  by (simp add: buffer_ok_def DataBuffer_Impl_new_def)

lemma buffer_ok_set_size: "buffer_ok b \<Longrightarrow> buffer_ok (set_size n b)"
  by (auto simp: buffer_ok_def set_size_def unat_sub word_le_nat_alt word_less_nat_alt)

lemma buffer_ok_set_capacity: "buffer_ok b \<Longrightarrow> buffer_ok (set_capacity n b)"
  by (auto simp: buffer_ok_def set_capacity_def unat_sub word_le_nat_alt word_less_nat_alt)

lemma buffer_ok_write_at:
  "buffer_ok b \<Longrightarrow> i + length bs \<le> length (db_data b) \<Longrightarrow> buffer_ok (write_at i bs b)"
  by (auto simp: buffer_ok_def write_at_def length_overwrite)

lemma length_contents: "buffer_ok b \<Longrightarrow> length (contents b) = unat (get_size b)"
  by (simp add: buffer_ok_def contents_def get_size_def word_le_nat_alt)

lemma contents_new [simp]: "contents DataBuffer_Impl_new = []"
  by (simp add: contents_def DataBuffer_Impl_new_def)

lemma contents_set_size_grow:
  assumes "buffer_ok b" "db_allocated b < n"
  shows "contents (set_size n b) = contents b @ replicate (unat n - unat (db_size b)) 0"
proof -
  have "db_size b \<le> n" using assms by (auto simp: buffer_ok_def)
  then show ?thesis using assms
    by (auto simp: buffer_ok_def contents_def set_size_def unat_sub word_le_nat_alt)
qed

lemma contents_set_size_within:
  "\<not> db_allocated b < n \<Longrightarrow> contents (set_size n b) = take (unat n) (db_data b)"
  by (simp add: contents_def set_size_def)

lemma contents_shrink:
  "buffer_ok b \<Longrightarrow> n \<le> db_size b \<Longrightarrow> contents (set_size n b) = take (unat n) (contents b)"
  by (auto simp: set_size_def buffer_ok_def contents_def word_le_nat_alt word_less_nat_alt min_def)

lemma contents_set_capacity: "buffer_ok b \<Longrightarrow> contents (set_capacity n b) = contents b"
  by (auto simp: buffer_ok_def contents_def set_capacity_def word_le_nat_alt)

lemma contents_prefix_set_size:
  assumes "buffer_ok b" "db_size b \<le> n"
  shows "take (unat (db_size b)) (contents (set_size n b)) = contents b"
proof (cases "db_allocated b < n")
  case True
  then show ?thesis
    using assms length_contents [OF assms(1)] by (simp add: contents_set_size_grow get_size_def)
next
  case False
  then show ?thesis
    using assms by (simp add: set_size_def contents_def word_le_nat_alt)
qed

lemma contents_of_data:
  assumes "unat n \<le> length mem"
  shows "contents (DataBuffer_of_data mem n) = take (unat n) mem"
proof (cases "n = 0")
  case True
  then show ?thesis
    by (simp add: DataBuffer_of_data_def set_size_def contents_def write_at_def DataBuffer_Impl_new_def)
next
  case False
  then have "0 < n" by (simp add: word_gt_0)
  then show ?thesis using assms
    by (simp add: DataBuffer_of_data_def set_size_def contents_def write_at_def
        DataBuffer_Impl_new_def overwrite_def)
qed

lemma buffer_ok_of_data:
  assumes "unat n \<le> length mem"
  shows "buffer_ok (DataBuffer_of_data mem n)"
proof -
  have "buffer_ok (set_size n DataBuffer_Impl_new)" by (simp add: buffer_ok_set_size)
  moreover have "0 + length (take (unat n) mem) \<le> length (db_data (set_size n DataBuffer_Impl_new))"
    using assms by (auto simp: set_size_def DataBuffer_Impl_new_def word_gt_0)
  ultimately show ?thesis unfolding DataBuffer_of_data_def by (rule buffer_ok_write_at)
qed

lemma get_size_of_data [simp]: "get_size (DataBuffer_of_data mem n) = n"
  by (simp add: DataBuffer_of_data_def write_at_def set_size_def get_size_def)

lemma length_contents_set_size: "buffer_ok b \<Longrightarrow> length (contents (set_size n b)) = unat n"
  using length_contents [OF buffer_ok_set_size, of b n] by (simp add: get_size_def set_size_def)

lemma contents_write_at:
  assumes "buffer_ok b" "i + length bs \<le> length (contents b)"
  shows "contents (write_at i bs b) = overwrite i bs (contents b)"
proof -
  have "unat (db_size b) \<le> length (db_data b)"
    using assms(1) by (simp add: buffer_ok_def word_le_nat_alt)
  moreover have "i + length bs \<le> unat (db_size b)"
    using assms(2) by (simp add: contents_def)
  ultimately show ?thesis
    by (cases "bs = []")
      (simp add: contents_def write_at_def,
        simp add: contents_def write_at_def overwrite_def drop_take flip: length_greater_0_conv)
qed

section \<open>The buffer as an interface\<close>

text \<open>
  What the ciphers rely on: reserving keeps the bytes, resizing keeps the old bytes as a prefix and
  gives the asked-for length, writing inside the used part overwrites.
\<close>

locale byte_buffer =
  fixes resize :: "u32 \<Rightarrow> 'b \<Rightarrow> 'b"
    and reserve :: "u32 \<Rightarrow> 'b \<Rightarrow> 'b"
    and put :: "nat \<Rightarrow> byte list \<Rightarrow> 'b \<Rightarrow> 'b"
    and bytes :: "'b \<Rightarrow> byte list"
    and inv :: "'b \<Rightarrow> bool"
  assumes inv_resize: "inv b \<Longrightarrow> inv (resize n b)"
    and inv_reserve: "inv b \<Longrightarrow> inv (reserve n b)"
    and inv_put: "inv b \<Longrightarrow> i + length xs \<le> length (bytes b) \<Longrightarrow> inv (put i xs b)"
    and length_resize: "inv b \<Longrightarrow> length (bytes (resize n b)) = unat n"
    and resize_prefix:
      "inv b \<Longrightarrow> length (bytes b) \<le> unat n \<Longrightarrow>
         take (length (bytes b)) (bytes (resize n b)) = bytes b"
    and bytes_reserve: "inv b \<Longrightarrow> bytes (reserve n b) = bytes b"
    and bytes_put:
      "inv b \<Longrightarrow> i + length xs \<le> length (bytes b) \<Longrightarrow> bytes (put i xs b) = overwrite i xs (bytes b)"
begin

lemma append_bytes:
  assumes b: "inv b" and n: "unat n = length (bytes b) + length xs"
  shows "bytes (put (length (bytes b)) xs (resize n b)) = bytes b @ xs"
    and "inv (put (length (bytes b)) xs (resize n b))"
proof -
  have len: "length (bytes (resize n b)) = length (bytes b) + length xs"
    using b n by (simp add: length_resize)
  have "bytes (put (length (bytes b)) xs (resize n b))
      = overwrite (length (bytes b)) xs (bytes (resize n b))"
    using b len by (intro bytes_put inv_resize) auto
  also have "\<dots> = bytes b @ xs"
    using resize_prefix [OF b, of n] n len by (simp add: overwrite_def)
  finally show "bytes (put (length (bytes b)) xs (resize n b)) = bytes b @ xs" .
  show "inv (put (length (bytes b)) xs (resize n b))"
    using b len by (intro inv_put inv_resize) auto
qed

end

interpretation buf: byte_buffer set_size set_capacity write_at contents buffer_ok
proof unfold_locales
  fix b and n :: u32 assume b: "buffer_ok b" "length (contents b) \<le> unat n"
  then have "db_size b \<le> n" by (simp add: length_contents get_size_def word_le_nat_alt)
  then show "take (length (contents b)) (contents (set_size n b)) = contents b"
    using b by (simp add: contents_prefix_set_size length_contents get_size_def)
next
  fix b i and xs :: "byte list" assume b: "buffer_ok b" "i + length xs \<le> length (contents b)"
  then have "i + length xs \<le> length (db_data b)" by (simp add: contents_def)
  then show "buffer_ok (write_at i xs b)" using b by (intro buffer_ok_write_at)
qed (auto simp: buffer_ok_set_size buffer_ok_set_capacity contents_set_capacity
      contents_write_at length_contents_set_size)

section \<open>Handles\<close>

text \<open>
  A \<^verbatim>\<open>DataBuffer\<close> holds a \<^verbatim>\<open>shared_ptr\<close> to its object. In the store, \<open>objs ! i\<close> is the address of the
  object of handle \<open>i\<close>; the constructors make an object and a handle, assignment and the copy
  constructor copy the pointer, every other operation works on the object behind the handle.
  \<open>None\<close> stands for a handle that does not exist.
\<close>

record db_store =
  db_objs :: "nat list"
  db_impls :: "DataBuffer_Impl list"

definition DataBuffer_construct :: "DataBuffer_Impl \<Rightarrow> db_store \<Rightarrow> nat \<times> db_store" where
  "DataBuffer_construct impl st =
     (length (db_objs st),
      st\<lparr>db_objs := db_objs st @ [length (db_impls st)], db_impls := db_impls st @ [impl]\<rparr>)"

definition DataBuffer_copy :: "nat \<Rightarrow> db_store \<Rightarrow> (nat \<times> db_store) option" where
  "DataBuffer_copy src st =
     (if src < length (db_objs st)
      then Some (length (db_objs st), st\<lparr>db_objs := db_objs st @ [db_objs st ! src]\<rparr>)
      else None)"

definition DataBuffer_assign :: "nat \<Rightarrow> nat \<Rightarrow> db_store \<Rightarrow> db_store option" where
  "DataBuffer_assign dst src st =
     (if dst < length (db_objs st) \<and> src < length (db_objs st)
      then Some (st\<lparr>db_objs := (db_objs st)[dst := db_objs st ! src]\<rparr>)
      else None)"

definition handle_impl :: "db_store \<Rightarrow> nat \<Rightarrow> DataBuffer_Impl option" where
  "handle_impl st h =
     (if h < length (db_objs st) \<and> db_objs st ! h < length (db_impls st)
      then Some (db_impls st ! (db_objs st ! h)) else None)"

definition handle_update ::
  "(DataBuffer_Impl \<Rightarrow> DataBuffer_Impl) \<Rightarrow> nat \<Rightarrow> db_store \<Rightarrow> db_store option" where
  "handle_update f h st =
     (case handle_impl st h of
        None \<Rightarrow> None
      | Some b \<Rightarrow> Some (st\<lparr>db_impls := (db_impls st)[db_objs st ! h := f b]\<rparr>))"

definition store_ok :: "db_store \<Rightarrow> bool" where
  "store_ok st \<longleftrightarrow> (\<forall>a \<in> set (db_objs st). a < length (db_impls st)) \<and> list_all buffer_ok (db_impls st)"

lemma handle_impl_ok: "store_ok st \<Longrightarrow> h < length (db_objs st) \<Longrightarrow> \<exists>b. handle_impl st h = Some b \<and> buffer_ok b"
  by (auto simp: store_ok_def handle_impl_def list_all_length)

lemma store_ok_update:
  "store_ok st \<Longrightarrow> (\<And>b. buffer_ok b \<Longrightarrow> buffer_ok (f b)) \<Longrightarrow> handle_update f h st = Some st' \<Longrightarrow> store_ok st'"
  by (auto simp: store_ok_def handle_update_def handle_impl_def list_all_length nth_list_update
      split: if_splits)

lemma store_ok_construct:
  "store_ok st \<Longrightarrow> buffer_ok impl \<Longrightarrow> store_ok (snd (DataBuffer_construct impl st))"
  by (auto simp: store_ok_def DataBuffer_construct_def)

lemma store_ok_assign:
  assumes "store_ok st" "DataBuffer_assign dst src st = Some st'"
  shows "store_ok st'"
proof -
  have "set ((db_objs st)[dst := db_objs st ! src]) \<subseteq> insert (db_objs st ! src) (set (db_objs st))"
    by (rule set_update_subset_insert)
  then show ?thesis using assms
    by (auto simp: store_ok_def DataBuffer_assign_def split: if_splits)
qed

text \<open>
  Copying a buffer shares it: after \<^verbatim>\<open>dst = src\<close> a resize through \<open>src\<close> is seen through \<open>dst\<close>,
  and a handle on another object keeps its object.
\<close>

theorem DataBuffer_assign_shares:
  assumes "store_ok st" "DataBuffer_assign dst src st = Some st1"
    and "handle_update (set_size n) src st1 = Some st2"
  shows "handle_impl st2 dst = handle_impl st2 src
    \<and> handle_impl st2 src = map_option (set_size n) (handle_impl st src)
    \<and> (\<forall>h. h < length (db_objs st) \<and> h \<noteq> dst \<and> db_objs st ! h \<noteq> db_objs st ! src \<longrightarrow>
          handle_impl st2 h = handle_impl st h)"
  using assms
  by (auto simp: DataBuffer_assign_def handle_update_def handle_impl_def nth_list_update
      split: if_splits)

definition two_buffers :: db_store where
  "two_buffers = \<lparr>db_objs = [0, 1], db_impls = [DataBuffer_Impl_new, DataBuffer_of_size 3]\<rparr>"

theorem DataBuffer_assign_shares_witness:
  "\<exists>st2. handle_update (set_size 5) 1 (two_buffers\<lparr>db_objs := [1, 1]\<rparr>) = Some st2
    \<and> handle_impl st2 0 = handle_impl st2 1"
proof -
  have ok: "store_ok two_buffers"
    by (simp add: store_ok_def two_buffers_def DataBuffer_of_size_def buffer_ok_set_size)
  have asg: "DataBuffer_assign 0 1 two_buffers = Some (two_buffers\<lparr>db_objs := [1, 1]\<rparr>)"
    by (simp add: DataBuffer_assign_def two_buffers_def)
  obtain st2 where st2: "handle_update (set_size 5) 1 (two_buffers\<lparr>db_objs := [1, 1]\<rparr>) = Some st2"
    by (simp add: handle_update_def handle_impl_def two_buffers_def)
  then show ?thesis
    using DataBuffer_assign_shares [OF ok asg st2] by blast
qed

end
