(* ===== verification/Aes_Impl.thy ===== *)
theory Aes_Impl
  imports Aes_Field Data_Buffer
begin

text \<open>
  \<^verbatim>\<open>VFSCryptLib/src/aes.cpp\<close> and \<^verbatim>\<open>include/aes.h\<close>: the tables that \<^verbatim>\<open>AES_Impl::create_tables\<close> fills in
  its loops, the key schedules, the conversion of the encryption schedule into the decryption
  schedule and the storing of a block. The C++ \<^verbatim>\<open>int\<close> of these loops holds values below 2^31 only and
  is modelled by the same 32-bit word; arrays are lists of their declared length. The local arrays
  \<^verbatim>\<open>power\<close> and \<^verbatim>\<open>logarithm\<close> start uninitialised; the one element of them that the loop never writes,
  \<^verbatim>\<open>logarithm[0]\<close>, is never read, so they start with zeros here.

  What the tables hold, in terms of the field of \<open>Aes_Field\<close>, is proved in \<open>Aes_Tables\<close>.
\<close>

section \<open>Words and bytes\<close>

definition get_word :: "byte list \<Rightarrow> u32" where
  "get_word data = push_bit 24 (ucast (data ! 0)) OR push_bit 16 (ucast (data ! 1))
                   OR push_bit 8 (ucast (data ! 2)) OR ucast (data ! 3)"

definition put_word :: "u32 \<Rightarrow> byte list" where
  "put_word v = [ucast (drop_bit 24 v), ucast (drop_bit 16 v), ucast (drop_bit 8 v), ucast v]"

definition x_time :: "u32 \<Rightarrow> u32" where
  "x_time v = push_bit 1 v XOR (if v AND 0x80 \<noteq> 0 then 0x1B else 0x00)"

definition mul_value :: "u32 \<Rightarrow> u32 \<Rightarrow> u32 list \<Rightarrow> u32 list \<Rightarrow> u32" where
  "mul_value x y pows logs =
     (if x \<noteq> 0 \<and> y \<noteq> 0
      then pows ! unat ((logs ! unat x + logs ! unat y) mod 255)
      else 0)"

section \<open>The tables\<close>

record aes_tables =
  sbox_substitution_values :: "u32 list"
  sbox_inverse_substitution_values :: "u32 list"
  rcon_values :: "u32 list"
  table_e0 :: "u32 list"
  table_e1 :: "u32 list"
  table_e2 :: "u32 list"
  table_e3 :: "u32 list"
  table_d0 :: "u32 list"
  table_d1 :: "u32 list"
  table_d2 :: "u32 list"
  table_d3 :: "u32 list"

text \<open>Bodies of the four loops of \<^verbatim>\<open>create_tables\<close>.\<close>

definition power_log_step ::
  "nat \<Rightarrow> u32 list \<times> u32 list \<times> u32 \<Rightarrow> u32 list \<times> u32 list \<times> u32" where
  "power_log_step cnt = (\<lambda>(pows, logs, x).
     (pows[cnt := x], logs[unat x := of_nat cnt], (x XOR x_time x) AND 0xff))"

definition rcon_step :: "nat \<Rightarrow> u32 list \<times> u32 \<Rightarrow> u32 list \<times> u32" where
  "rcon_step cnt = (\<lambda>(rcon, x). (rcon[cnt := push_bit 24 x], x_time x AND 0xFF))"

definition rotate_byte :: "u32 \<Rightarrow> u32" where
  "rotate_byte y = (push_bit 1 y OR drop_bit 7 y) AND 0xFF"

definition sbox_value :: "u32 list \<Rightarrow> u32 list \<Rightarrow> nat \<Rightarrow> u32" where
  "sbox_value pows logs cnt =
     (let x = pows ! unat (255 - logs ! cnt);
          y = rotate_byte x; x = x XOR y;
          y = rotate_byte y; x = x XOR y;
          y = rotate_byte y; x = x XOR y;
          y = rotate_byte y; x = x XOR (y XOR 0x63)
      in x AND 0xFF)"

definition fill_word :: "u32 \<Rightarrow> u32" where
  "fill_word x = push_bit 24 x OR push_bit 16 x OR push_bit 8 x OR x"

definition sbox_step ::
  "u32 list \<Rightarrow> u32 list \<Rightarrow> nat \<Rightarrow> u32 list \<times> u32 list \<Rightarrow> u32 list \<times> u32 list" where
  "sbox_step pows logs cnt = (\<lambda>(sbox, isbox).
     (let x = sbox_value pows logs cnt
      in (sbox[cnt := fill_word x], isbox[unat x := fill_word (of_nat cnt)])))"

definition table_step ::
  "u32 list \<Rightarrow> u32 list \<Rightarrow> nat \<Rightarrow> aes_tables \<Rightarrow> aes_tables" where
  "table_step pows logs cnt T =
     (let x = sbox_substitution_values T ! cnt AND 0xFF;
          y = x_time x AND 0xFF;
          z = (y XOR x) AND 0xFF;
          x' = sbox_inverse_substitution_values T ! cnt AND 0xFF;
          a = mul_value 0xe x' pows logs;
          b = mul_value 0x9 x' pows logs;
          c = mul_value 0xd x' pows logs;
          d = mul_value 0xb x' pows logs
      in T\<lparr>
        table_e0 := (table_e0 T)[cnt := z OR push_bit 8 x OR push_bit 16 x OR push_bit 24 y],
        table_e1 := (table_e1 T)[cnt := x OR push_bit 8 x OR push_bit 16 y OR push_bit 24 z],
        table_e2 := (table_e2 T)[cnt := x OR push_bit 8 y OR push_bit 16 z OR push_bit 24 x],
        table_e3 := (table_e3 T)[cnt := y OR push_bit 8 z OR push_bit 16 x OR push_bit 24 x],
        table_d0 := (table_d0 T)[cnt := d OR push_bit 8 c OR push_bit 16 b OR push_bit 24 a],
        table_d1 := (table_d1 T)[cnt := c OR push_bit 8 b OR push_bit 16 a OR push_bit 24 d],
        table_d2 := (table_d2 T)[cnt := b OR push_bit 8 a OR push_bit 16 d OR push_bit 24 c],
        table_d3 := (table_d3 T)[cnt := a OR push_bit 8 d OR push_bit 16 c OR push_bit 24 b]\<rparr>)"

definition zero_tables :: aes_tables where
  "zero_tables =
     (let z = replicate 256 0
      in \<lparr>sbox_substitution_values = z, sbox_inverse_substitution_values = z,
          rcon_values = replicate 10 0,
          table_e0 = z, table_e1 = z, table_e2 = z, table_e3 = z,
          table_d0 = z, table_d1 = z, table_d2 = z, table_d3 = z\<rparr>)"

definition create_tables :: "aes_tables \<Rightarrow> aes_tables" where
  "create_tables T =
     (let (pows, logs, _) =
            fold power_log_step [0..<256] (replicate 256 0, replicate 256 0, 1);
          (rcon, _) = fold rcon_step [0..<10] (rcon_values T, 1);
          (sbox, isbox) =
            fold (sbox_step pows logs) [1..<256]
              ((sbox_substitution_values T)[0 := 0x63636363],
               (sbox_inverse_substitution_values T)[0x63 := 0])
      in fold (table_step pows logs) [0..<256]
           (T\<lparr>rcon_values := rcon, sbox_substitution_values := sbox,
              sbox_inverse_substitution_values := isbox\<rparr>))"

text \<open>The static members, zero-initialised, and the constructor that fills them once.\<close>

record aes_statics =
  is_tables_created :: bool
  statics_tables :: aes_tables

definition initial_statics :: aes_statics where
  "initial_statics = \<lparr>is_tables_created = False, statics_tables = zero_tables\<rparr>"

definition AES_Impl_ctor :: "aes_statics \<Rightarrow> aes_statics" where
  "AES_Impl_ctor s =
     (if \<not> is_tables_created s
      then s\<lparr>statics_tables := create_tables (statics_tables s), is_tables_created := True\<rparr>
      else s)"

text \<open>
  Every cipher object is an \<^verbatim>\<open>AES_Impl\<close>, so its constructor has run before any of its methods does: the
  tables the methods read are those of the first construction.
\<close>

definition aes_tables :: aes_tables where
  "aes_tables = create_tables zero_tables"

lemma AES_Impl_ctor_tables:
  "statics_tables ((AES_Impl_ctor ^^ Suc n) initial_statics) = aes_tables
   \<and> is_tables_created ((AES_Impl_ctor ^^ Suc n) initial_statics)"
  by (induction n) (simp_all add: AES_Impl_ctor_def initial_statics_def aes_tables_def)

section \<open>Key schedules\<close>

abbreviation sbox :: "u32 \<Rightarrow> u32" where
  "sbox x \<equiv> sbox_substitution_values aes_tables ! unat x"

abbreviation inv_sbox :: "u32 \<Rightarrow> u32" where
  "inv_sbox x \<equiv> sbox_inverse_substitution_values aes_tables ! unat x"

text \<open>The word added at the start of a round of the schedule: rotated, substituted, with \<^verbatim>\<open>rcon\<close>.\<close>

definition schedule_core :: "u32 \<Rightarrow> nat \<Rightarrow> u32" where
  "schedule_core temp cnt =
     (sbox (drop_bit 16 temp AND 0xff) AND 0xff000000)
     XOR (sbox (drop_bit 8 temp AND 0xff) AND 0x00ff0000)
     XOR (sbox (temp AND 0xff) AND 0x0000ff00)
     XOR (sbox (drop_bit 24 temp) AND 0x000000ff)
     XOR rcon_values aes_tables ! cnt"

definition load_key :: "nat \<Rightarrow> byte list \<Rightarrow> u32 list \<Rightarrow> u32 list" where
  "load_key nk key ke = fold (\<lambda>cnt ke. ke[cnt := get_word (drop (4 * cnt) key)]) [0..<nk] ke"

definition key128_round :: "nat \<Rightarrow> u32 list \<Rightarrow> u32 list" where
  "key128_round cnt ke =
     (let p = 4 * cnt; temp = ke ! (p + 3);
          ke = ke[p + 4 := ke ! p XOR schedule_core temp cnt];
          ke = ke[p + 5 := ke ! (p + 1) XOR ke ! (p + 4)];
          ke = ke[p + 6 := ke ! (p + 2) XOR ke ! (p + 5)]
      in ke[p + 7 := ke ! (p + 3) XOR ke ! (p + 6)])"

definition extract_encrypt_key128 :: "byte list \<Rightarrow> u32 list \<Rightarrow> u32 list" where
  "extract_encrypt_key128 key key_expanded = fold key128_round [0..<10] (load_key 4 key key_expanded)"

definition key192_round :: "nat \<Rightarrow> u32 list \<Rightarrow> u32 list" where
  "key192_round cnt ke =
     (let p = 6 * cnt; temp = ke ! (p + 5);
          ke = ke[p + 6 := ke ! p XOR schedule_core temp cnt];
          ke = ke[p + 7 := ke ! (p + 1) XOR ke ! (p + 6)];
          ke = ke[p + 8 := ke ! (p + 2) XOR ke ! (p + 7)];
          ke = ke[p + 9 := ke ! (p + 3) XOR ke ! (p + 8)]
      in if cnt = 8 - 1 then ke
         else let ke = ke[p + 10 := ke ! (p + 4) XOR ke ! (p + 9)]
              in ke[p + 11 := ke ! (p + 5) XOR ke ! (p + 10)])"

definition extract_encrypt_key192 :: "byte list \<Rightarrow> u32 list \<Rightarrow> u32 list" where
  "extract_encrypt_key192 key key_expanded = fold key192_round [0..<8] (load_key 6 key key_expanded)"

definition schedule_middle :: "u32 \<Rightarrow> u32" where
  "schedule_middle temp =
     (sbox (drop_bit 24 temp AND 0xff) AND 0xff000000)
     XOR (sbox (drop_bit 16 temp AND 0xff) AND 0x00ff0000)
     XOR (sbox (drop_bit 8 temp AND 0xff) AND 0x0000ff00)
     XOR (sbox (temp AND 0xff) AND 0x000000ff)"

definition key256_round :: "nat \<Rightarrow> u32 list \<Rightarrow> u32 list" where
  "key256_round cnt ke =
     (let p = 8 * cnt; temp = ke ! (p + 7);
          ke = ke[p + 8 := ke ! p XOR schedule_core temp cnt];
          ke = ke[p + 9 := ke ! (p + 1) XOR ke ! (p + 8)];
          ke = ke[p + 10 := ke ! (p + 2) XOR ke ! (p + 9)];
          ke = ke[p + 11 := ke ! (p + 3) XOR ke ! (p + 10)]
      in if cnt = 7 - 1 then ke
         else let temp = ke ! (p + 11);
                  ke = ke[p + 12 := ke ! (p + 4) XOR schedule_middle temp];
                  ke = ke[p + 13 := ke ! (p + 5) XOR ke ! (p + 12)];
                  ke = ke[p + 14 := ke ! (p + 6) XOR ke ! (p + 13)]
              in ke[p + 15 := ke ! (p + 7) XOR ke ! (p + 14)])"

definition extract_encrypt_key256 :: "byte list \<Rightarrow> u32 list \<Rightarrow> u32 list" where
  "extract_encrypt_key256 key key_expanded = fold key256_round [0..<7] (load_key 8 key key_expanded)"

text \<open>
  \<^verbatim>\<open>extract_decrypt_key\<close>: reverse the order of the round keys, then apply the inverse column
  transformation to all but the first and the last.
\<close>

definition swap_words :: "nat \<Rightarrow> nat \<Rightarrow> u32 list \<Rightarrow> u32 list" where
  "swap_words i j ke = (let temp = ke ! i; ke = ke[i := ke ! j] in ke[j := temp])"

function invert_order :: "nat \<Rightarrow> nat \<Rightarrow> u32 list \<Rightarrow> u32 list" where
  "invert_order start_value end_value ke =
     (if start_value < end_value
      then invert_order (start_value + 4) (end_value - 4)
             (fold (\<lambda>k. swap_words (start_value + k) (end_value + k)) [0..<4] ke)
      else ke)"
  by pat_completeness auto
termination by (relation "measure (\<lambda>(s, e, _). e - s)") auto

declare invert_order.simps [simp del]

definition inverse_mix_word :: "u32 \<Rightarrow> u32" where
  "inverse_mix_word w =
     table_d0 aes_tables ! unat (sbox (drop_bit 24 w) AND 0xff)
     XOR table_d1 aes_tables ! unat (sbox (drop_bit 16 w AND 0xff) AND 0xff)
     XOR table_d2 aes_tables ! unat (sbox (drop_bit 8 w AND 0xff) AND 0xff)
     XOR table_d3 aes_tables ! unat (sbox (w AND 0xff) AND 0xff)"

definition mix_round_key :: "nat \<Rightarrow> u32 list \<Rightarrow> u32 list" where
  "mix_round_key cnt ke =
     fold (\<lambda>k ke. ke[4 * cnt + k := inverse_mix_word (ke ! (4 * cnt + k))]) [0..<4] ke"

definition extract_decrypt_key :: "u32 list \<Rightarrow> nat \<Rightarrow> u32 list" where
  "extract_decrypt_key key_expanded num_rounds =
     fold mix_round_key [1..<num_rounds] (invert_order 0 (4 * num_rounds) key_expanded)"

section \<open>Storing a block\<close>

text \<open>
  \<^verbatim>\<open>store_block\<close>: the capacity grows by 1024 when fewer than 16 bytes are free (a signed comparison),
  then the size grows by 16 and the block is put at the old end.
\<close>

definition store_block :: "u32 \<Rightarrow> u32 \<Rightarrow> u32 \<Rightarrow> u32 \<Rightarrow> DataBuffer_Impl \<Rightarrow> DataBuffer_Impl" where
  "store_block s0 s1 s2 s3 databuffer =
     (let current_size = get_size databuffer;
          current_capacity = get_capacity databuffer;
          available = current_capacity - current_size;
          databuffer = (if sint available < 16
                        then set_capacity (current_capacity + 1024) databuffer else databuffer);
          databuffer = set_size (current_size + 16) databuffer
      in write_at (unat current_size) (put_word s0 @ put_word s1 @ put_word s2 @ put_word s3)
           databuffer)"

end
