(* ===== verification/Aes_Tables.thy ===== *)
theory Aes_Tables
  imports Aes_Impl
begin

text \<open>
  What \<^verbatim>\<open>AES_Impl::create_tables\<close> computes: the exponential and logarithm tables hold the powers of 3
  of \<open>Aes_Field\<close>, the substitution tables hold \<open>sub_byte\<close> and its inverse in all four bytes of each
  word, the encryption tables hold the columns of the MixColumns matrix times \<open>sub_byte\<close>, the
  decryption tables those of its inverse times \<open>inv_sub_byte\<close>. All lemmas about blocks and key
  schedules work with these closed forms and never look at the loops again.
\<close>

section \<open>Bytes inside words\<close>

definition word4 :: "byte \<Rightarrow> byte \<Rightarrow> byte \<Rightarrow> byte \<Rightarrow> u32" where
  "word4 a b c d = push_bit 24 (ucast a) OR push_bit 16 (ucast b) OR push_bit 8 (ucast c) OR ucast d"

definition byte_3 :: "u32 \<Rightarrow> byte" where "byte_3 w = ucast (drop_bit 24 w)"
definition byte_2 :: "u32 \<Rightarrow> byte" where "byte_2 w = ucast (drop_bit 16 w)"
definition byte_1 :: "u32 \<Rightarrow> byte" where "byte_1 w = ucast (drop_bit 8 w)"
definition byte_0 :: "u32 \<Rightarrow> byte" where "byte_0 w = ucast w"

lemmas bytes_defs = byte_3_def byte_2_def byte_1_def byte_0_def

lemma bit_word4:
  "bit (word4 a b c d) n \<longleftrightarrow>
     (if n < 8 then bit d n else if n < 16 then bit c (n - 8)
      else if n < 24 then bit b (n - 16) else n < 32 \<and> bit a (n - 24))"
  by (auto simp: word4_def bit_or_iff bit_push_bit_iff bit_ucast_iff dest: bit_imp_le_length)

lemma bytes_word4 [simp]:
  "byte_3 (word4 a b c d) = a" "byte_2 (word4 a b c d) = b"
  "byte_1 (word4 a b c d) = c" "byte_0 (word4 a b c d) = d"
  by (rule bit_word_eqI; simp add: bytes_defs bit_ucast_iff bit_drop_bit_eq bit_word4)+

lemma word4_bytes [simp]: "word4 (byte_3 w) (byte_2 w) (byte_1 w) (byte_0 w) = w"
  by (rule bit_word_eqI) (auto simp: bit_word4 bytes_defs bit_ucast_iff bit_drop_bit_eq)

lemma word4_xor:
  "word4 a b c d XOR word4 a' b' c' d' = word4 (a XOR a') (b XOR b') (c XOR c') (d XOR d')"
  by (rule bit_word_eqI) (simp add: bit_word4 bit_xor_iff)

lemma byte_xor:
  "byte_3 (v XOR w) = byte_3 v XOR byte_3 w" "byte_2 (v XOR w) = byte_2 v XOR byte_2 w"
  "byte_1 (v XOR w) = byte_1 v XOR byte_1 w" "byte_0 (v XOR w) = byte_0 v XOR byte_0 w"
  by (rule bit_word_eqI; simp add: bytes_defs bit_ucast_iff bit_drop_bit_eq bit_xor_iff)+

lemma get_word_word4: "get_word data = word4 (data ! 0) (data ! 1) (data ! 2) (data ! 3)"
  by (simp add: get_word_def word4_def)

lemma put_word_bytes: "put_word w = [byte_3 w, byte_2 w, byte_1 w, byte_0 w]"
  by (simp add: put_word_def bytes_defs)

lemma get_put_word [simp]: "get_word (put_word w @ xs) = w"
  by (simp add: get_word_word4 put_word_bytes)

lemma put_get_word: "4 \<le> length data \<Longrightarrow> put_word (get_word data) = take 4 data"
  by (auto simp: get_word_word4 put_word_bytes Suc_le_length_iff numeral_eq_Suc)

text \<open>The masks and shifts by which the code selects bytes.\<close>

lemma and_ff: "(w :: u32) AND 0xff = ucast (byte_0 w)"
proof -
  have "w AND mask 8 = ucast (byte_0 w)"
    by (rule bit_word_eqI) (auto simp: byte_0_def bit_simps)
  then show ?thesis by (simp add: mask_eq_exp_minus_1)
qed

lemma select_bytes:
  "drop_bit 24 (w :: u32) = ucast (byte_3 w)"
  "drop_bit 24 (w :: u32) AND 0xff = ucast (byte_3 w)"
  "drop_bit 16 (w :: u32) AND 0xff = ucast (byte_2 w)"
  "drop_bit 8 (w :: u32) AND 0xff = ucast (byte_1 w)"
  "w AND 0xff = ucast (byte_0 w)"
  by (rule bit_word_eqI, auto simp: byte_3_def bit_simps dest: bit_imp_le_length)
    (simp_all add: and_ff bytes_defs)

lemma byte_0_ucast [simp]: "byte_0 (ucast (b :: byte)) = b"
  by (rule bit_word_eqI) (simp add: byte_0_def bit_simps)

lemma unat_byte_less [simp]: "unat (b :: byte) < 256"
proof -
  have "unat b < 2 ^ LENGTH(8)" by (rule unsigned_less)
  then show ?thesis by simp
qed

lemma unat_ucast_byte [simp]: "unat (ucast (b :: byte) :: u32) = unat b"
proof -
  have "unat b < 2 ^ 32" by (rule less_le_trans [OF unat_byte_less]) simp
  then show ?thesis by (simp add: unsigned_ucast_eq take_bit_nat_eq_self_iff)
qed

lemma byte_0_x_time: "byte_0 (x_time (ucast b)) = xt b"
proof -
  have "bit (0x80 :: int) n \<longleftrightarrow> n = 7" for n
    using bit_exp_iff [of 7 n, where 'a = int] by auto
  then have "ucast b AND (0x80 :: u32) = (if bit b 7 then 0x80 else 0)"
    by (intro bit_word_eqI) (auto simp: bit_and_iff bit_ucast_iff)
  then have m: "ucast b AND (0x80 :: u32) \<noteq> 0 \<longleftrightarrow> bit b 7"
    by simp
  have "byte_0 (push_bit 1 (ucast b)) = push_bit 1 b"
    by (rule bit_word_eqI) (simp only: byte_0_def bit_ucast_iff bit_push_bit_iff, auto)
  then show ?thesis
    by (simp only: x_time_def xt_def m byte_xor) (simp add: byte_0_def)
qed

lemma x_time_byte: "x_time (ucast b) AND 0xff = ucast (xt b)"
  by (simp add: and_ff byte_0_x_time)

lemma rotate_byte_ucast: "rotate_byte (ucast b) = ucast (word_rotl 1 (b :: byte))"
proof -
  have "byte_0 (push_bit 1 (ucast b) OR drop_bit 7 (ucast b)) = word_rotl 1 b"
    by (rule byte_eqI, simp only: byte_0_def bit_ucast_iff bit_or_iff bit_push_bit_iff
        bit_drop_bit_eq bit_word_rotl_iff o_apply) (auto dest: bit_imp_le_length)
  then show ?thesis by (simp add: rotate_byte_def and_ff)
qed

lemma fill_word_ucast: "fill_word (ucast b) = word4 b b b b"
  by (simp add: fill_word_def word4_def)

section \<open>The exponential and logarithm tables\<close>

definition power_table :: "u32 list" where
  "power_table = map (\<lambda>i. ucast (pw i)) [0..<256]"

definition log_table :: "u32 list" where
  "log_table = fold (\<lambda>i l. l[unat (pw i) := of_nat i]) [0..<256] (replicate 256 0)"

lemma power_log_fold:
  "fold power_log_step [0..<n] (p, l, 1) =
     (fold (\<lambda>i p. p[i := ucast (pw i)]) [0..<n] p,
      fold (\<lambda>i l. l[unat (pw i) := of_nat i]) [0..<n] l,
      ucast (pw n))"
  by (induction n)
    (simp_all add: power_log_step_def and_ff byte_xor byte_0_x_time pw_Suc times3_def)

lemma power_log_tables:
  "fold power_log_step [0..<256] (replicate 256 0, replicate 256 0, 1)
     = (power_table, log_table, ucast (pw 256))"
  unfolding power_log_fold log_table_def power_table_def
  by (simp only: fold_update_upt length_replicate)

lemma length_tables [simp]: "length power_table = 256" "length log_table = 256"
  by (simp_all add: power_table_def log_table_def)

lemma power_table_nth: "i < 256 \<Longrightarrow> power_table ! i = ucast (pw i)"
  by (simp add: power_table_def)

lemma log_table_pw:
  assumes "1 \<le> i" "i \<le> 255"
  shows "log_table ! unat (pw i) = of_nat i"
proof -
  have "[0..<256] = 0 # [1..<256::nat]" by (simp add: upt_conv_Cons)
  moreover have "inj_on (\<lambda>i. unat (pw i)) (set [1..<256])"
    by (rule linorder_inj_onI) (auto simp: pw_inj simp flip: word_unat_eq_iff)
  ultimately show ?thesis
    unfolding log_table_def using assms
    by (simp only: fold_simps o_apply) (subst fold_scatter_hit, auto)
qed

lemma log_table_index:
  assumes "1 \<le> c" "c < 256"
  obtains i where "1 \<le> i" "i \<le> 255" "of_nat c = pw i" "log_table ! c = of_nat i"
proof -
  have u: "unat (of_nat c :: byte) = c" using assms by (simp add: unat_of_nat)
  then have "(of_nat c :: byte) \<noteq> 0" using assms by auto
  then obtain i where i: "1 \<le> i" "i \<le> 255" "of_nat c = pw i" by (rule byte_pwE)
  then show thesis using that log_table_pw [OF i(1,2)] u by simp
qed

lemma mul_value_gmul: "mul_value (ucast m) (ucast b) power_table log_table = ucast (gmul m b)"
proof (cases "m = 0 \<or> b = 0")
  case True
  then show ?thesis by (auto simp: mul_value_def)
next
  case False
  then obtain i j where i: "1 \<le> i" "i \<le> 255" "m = pw i" and j: "1 \<le> j" "j \<le> 255" "b = pw j"
    by (metis byte_pwE)
  have nz: "(ucast m :: u32) \<noteq> 0" "(ucast b :: u32) \<noteq> 0"
    using False by (auto simp: unat_eq_0 simp flip: unat_eq_zero)
  have "unat ((of_nat i + of_nat j :: u32) mod 255) = (i + j) mod 255"
    using i j by (simp add: unat_mod unat_of_nat flip: of_nat_add)
  then have "mul_value (ucast m) (ucast b) power_table log_table = power_table ! ((i + j) mod 255)"
    using nz i j by (simp add: mul_value_def log_table_pw)
  also have "\<dots> = ucast (pw (j + i))"
    using mod_less_divisor [of 255 "i + j"] by (simp add: power_table_nth pw_mod add.commute)
  finally show ?thesis by (simp add: i j gmul_pw_pw)
qed

section \<open>The substitution tables\<close>

lemma ucast_byte_xor: "(ucast a :: u32) XOR ucast b = ucast (a XOR (b :: byte))"
  by (rule bit_word_eqI) (auto simp: bit_simps)

lemma rotl_rotl:
  "word_rotl 1 (word_rotl 1 b) = word_rotl 2 (b :: byte)"
  "word_rotl 1 (word_rotl 2 b) = word_rotl 3 (b :: byte)"
  "word_rotl 1 (word_rotl 3 b) = word_rotl 4 (b :: byte)"
  by (rule byte_eqI; elim insertE emptyE; simp add: bit_word_rotl_iff)+

lemma sbox_value_sub:
  assumes "1 \<le> c" "c < 256"
  shows "sbox_value power_table log_table c = ucast (sub_byte (of_nat c))"
proof -
  obtain i where i: "1 \<le> i" "i \<le> 255" "of_nat c = pw i" "log_table ! c = of_nat i"
    using assms by (rule log_table_index)
  have "unat (255 - of_nat i :: u32) = 255 - i"
    using i by (simp add: unat_sub word_le_nat_alt unat_of_nat)
  then have x: "power_table ! unat (255 - log_table ! c) = ucast (ginv (of_nat c))"
    using i by (simp add: power_table_nth ginv_pw)
  have "(0x63 :: u32) = ucast (0x63 :: byte)" by simp
  then show ?thesis
    unfolding sbox_value_def x sub_byte_def affine_def Let_def
    by (simp only: rotate_byte_ucast ucast_byte_xor and_ff byte_0_ucast rotl_rotl xor.assoc)
qed

lemma of_nat_unat_byte [simp]: "of_nat (unat b) = (b :: byte)"
  by simp

lemma unat_sub_byte_inj: "inj_on (\<lambda>c. unat (sub_byte (of_nat c))) {0..<256}"
proof (rule inj_onI)
  fix c d :: nat
  assume cd: "c \<in> {0..<256}" "d \<in> {0..<256}"
    and "unat (sub_byte (of_nat c)) = unat (sub_byte (of_nat d))"
  then have "(of_nat c :: byte) = of_nat d"
    using inj_sub_byte by (simp add: inj_eq flip: word_unat_eq_iff)
  then have "unat (of_nat c :: byte) = unat (of_nat d :: byte)" by simp
  then show "c = d" using cd by (simp add: unat_of_nat)
qed

definition sub_fill :: "nat \<Rightarrow> u32" where
  "sub_fill c = (let s = sub_byte (of_nat c) in word4 s s s s)"

lemma sub_byte_0: "sub_byte 0 = 0x63"
  by (simp add: sub_byte_def affine_def)

lemma sbox_fold:
  assumes "set xs \<subseteq> {1..<256}"
  shows "fold (sbox_step power_table log_table) xs (s, t) =
     (fold (\<lambda>c s. s[c := sub_fill c]) xs s,
      fold (\<lambda>c t. t[unat (sub_byte (of_nat c)) := fill_word (of_nat c)]) xs t)"
  using assms
  by (induction xs arbitrary: s t)
    (simp_all add: sbox_step_def sbox_value_sub fill_word_ucast sub_fill_def Let_def)

lemma sbox_tables:
  "fold (sbox_step power_table log_table) [1..<256]
     ((replicate 256 0)[0 := 0x63636363], (replicate 256 0)[0x63 := 0]) =
   (fold (\<lambda>c s. s[c := sub_fill c]) [0..<256] (replicate 256 0),
    fold (\<lambda>c t. t[unat (sub_byte (of_nat c)) := fill_word (of_nat c)]) [0..<256] (replicate 256 0))"
proof -
  have "[0..<256] = 0 # [1..<256::nat]" by (simp add: upt_conv_Cons)
  moreover have "sub_fill 0 = 0x63636363"
    by (simp add: sub_fill_def sub_byte_0 word4_def)
  moreover have "unat (sub_byte (of_nat 0)) = 0x63" by (simp add: sub_byte_0)
  moreover have "fill_word (of_nat 0) = 0" by (simp add: fill_word_def)
  ultimately show ?thesis by (subst sbox_fold) (simp_all only: fold_simps o_apply, auto)
qed

section \<open>What the tables hold\<close>

definition sbox_table :: "u32 list" where
  "sbox_table = map sub_fill [0..<256]"

definition inv_sbox_table :: "u32 list" where
  "inv_sbox_table =
     fold (\<lambda>c t. t[unat (sub_byte (of_nat c)) := fill_word (of_nat c)]) [0..<256] (replicate 256 0)"

lemma sbox_table_nth: "sbox_table ! unat b = word4 (sub_byte b) (sub_byte b) (sub_byte b) (sub_byte b)"
  by (simp add: sbox_table_def sub_fill_def Let_def)

lemma sub_byte_surj: "\<exists>c. b = sub_byte c"
proof -
  have "surj sub_byte" by (rule finite_UNIV_inj_surj) (simp_all add: inj_sub_byte)
  then show ?thesis by (auto elim: surjE)
qed

lemma sub_inv_sub [simp]: "sub_byte (inv_sub_byte b) = b"
  using sub_byte_surj [of b] by auto

lemma inv_sbox_table_nth:
  "inv_sbox_table ! unat b = (let s = inv_sub_byte b in word4 s s s s)"
proof -
  have "inv_sbox_table ! unat (sub_byte (of_nat (unat (inv_sub_byte b))))
      = fill_word (of_nat (unat (inv_sub_byte b)))"
    unfolding inv_sbox_table_def
    by (rule fold_scatter_hit) (use unat_sub_byte_inj in simp_all)
  moreover have "fill_word (of_nat (unat (inv_sub_byte b))) = fill_word (ucast (inv_sub_byte b))"
    by simp
  ultimately show ?thesis by (simp add: fill_word_ucast Let_def)
qed

definition table_row ::
  "(byte \<Rightarrow> u32) \<Rightarrow> u32 list" where
  "table_row f = map (\<lambda>c. f (of_nat c)) [0..<256]"

lemma table_row_nth [simp]: "table_row f ! unat b = f b"
  by (simp add: table_row_def)

definition enc_column :: "byte \<Rightarrow> byte \<Rightarrow> byte \<Rightarrow> byte \<Rightarrow> byte \<Rightarrow> u32" where
  "enc_column m3 m2 m1 m0 b =
     (let s = sub_byte b in word4 (gmul m3 s) (gmul m2 s) (gmul m1 s) (gmul m0 s))"

definition dec_column :: "byte \<Rightarrow> byte \<Rightarrow> byte \<Rightarrow> byte \<Rightarrow> byte \<Rightarrow> u32" where
  "dec_column m3 m2 m1 m0 b =
     (let s = inv_sub_byte b in word4 (gmul m3 s) (gmul m2 s) (gmul m1 s) (gmul m0 s))"

definition filled_tables :: aes_tables where
  "filled_tables = \<lparr>
     sbox_substitution_values = sbox_table,
     sbox_inverse_substitution_values = inv_sbox_table,
     rcon_values = [0x01000000, 0x02000000, 0x04000000, 0x08000000, 0x10000000,
                    0x20000000, 0x40000000, 0x80000000, 0x1B000000, 0x36000000],
     table_e0 = table_row (enc_column 2 1 1 3),
     table_e1 = table_row (enc_column 3 2 1 1),
     table_e2 = table_row (enc_column 1 3 2 1),
     table_e3 = table_row (enc_column 1 1 3 2),
     table_d0 = table_row (dec_column 14 9 13 11),
     table_d1 = table_row (dec_column 11 14 9 13),
     table_d2 = table_row (dec_column 13 11 14 9),
     table_d3 = table_row (dec_column 9 13 11 14)\<rparr>"

lemma rcon_table:
  "fst (fold rcon_step [0..<10] (replicate 10 0, 1)) = rcon_values filled_tables"
proof -
  have "[0..<10] = [0, 1, 2, 3, 4, 5, 6, 7, 8, 9 :: nat]"
    by (simp add: upt_conv_Cons)
  moreover have "replicate 10 (0 :: u32) = [0, 0, 0, 0, 0, 0, 0, 0, 0, 0]"
    by (simp add: numeral_eq_Suc)
  ultimately show ?thesis
    by (simp add: rcon_step_def x_time_def filled_tables_def)
qed

lemma gmul_one_left: "gmul 1 b = b"
  by (simp add: gmul_def gmul_bits_numeral)

lemma word4_or:
  "ucast d OR push_bit 8 (ucast c) OR push_bit 16 (ucast b) OR push_bit 24 (ucast a) = word4 a b c d"
  by (simp add: word4_def or.commute or.left_commute)

lemma table_step_closed:
  assumes "c < 256" "sbox_substitution_values T = sbox_table"
    "sbox_inverse_substitution_values T = inv_sbox_table"
  shows "table_step power_table log_table c T = T\<lparr>
        table_e0 := (table_e0 T)[c := enc_column 2 1 1 3 (of_nat c)],
        table_e1 := (table_e1 T)[c := enc_column 3 2 1 1 (of_nat c)],
        table_e2 := (table_e2 T)[c := enc_column 1 3 2 1 (of_nat c)],
        table_e3 := (table_e3 T)[c := enc_column 1 1 3 2 (of_nat c)],
        table_d0 := (table_d0 T)[c := dec_column 14 9 13 11 (of_nat c)],
        table_d1 := (table_d1 T)[c := dec_column 11 14 9 13 (of_nat c)],
        table_d2 := (table_d2 T)[c := dec_column 13 11 14 9 (of_nat c)],
        table_d3 := (table_d3 T)[c := dec_column 9 13 11 14 (of_nat c)]\<rparr>"
proof -
  have u: "unat (of_nat c :: byte) = c" using assms by (simp add: unat_of_nat)
  have s: "sbox_table ! c AND 0xFF = ucast (sub_byte (of_nat c))"
    using sbox_table_nth [of "of_nat c"] by (simp add: u and_ff)
  have i: "inv_sbox_table ! c AND 0xFF = ucast (inv_sub_byte (of_nat c))"
    using inv_sbox_table_nth [of "of_nat c"] by (simp add: u and_ff Let_def)
  have k: "(0xe :: u32) = ucast (14 :: byte)" "(0x9 :: u32) = ucast (9 :: byte)"
    "(0xd :: u32) = ucast (13 :: byte)" "(0xb :: u32) = ucast (11 :: byte)" by simp_all
  have "table_step power_table log_table c T = T\<lparr>
        table_e0 := (table_e0 T)[c := word4 (xt x) x x (xt x XOR x)],
        table_e1 := (table_e1 T)[c := word4 (xt x XOR x) (xt x) x x],
        table_e2 := (table_e2 T)[c := word4 x (xt x XOR x) (xt x) x],
        table_e3 := (table_e3 T)[c := word4 x x (xt x XOR x) (xt x)],
        table_d0 := (table_d0 T)[c := word4 (gmul 14 y) (gmul 9 y) (gmul 13 y) (gmul 11 y)],
        table_d1 := (table_d1 T)[c := word4 (gmul 11 y) (gmul 14 y) (gmul 9 y) (gmul 13 y)],
        table_d2 := (table_d2 T)[c := word4 (gmul 13 y) (gmul 11 y) (gmul 14 y) (gmul 9 y)],
        table_d3 := (table_d3 T)[c := word4 (gmul 9 y) (gmul 13 y) (gmul 11 y) (gmul 14 y)]\<rparr>"
    if x: "x = sub_byte (of_nat c)" and y: "y = inv_sub_byte (of_nat c)" for x y
    unfolding table_step_def assms(2,3) s i
    by (simp only: Let_def k mul_value_gmul byte_0_x_time ucast_byte_xor and_ff byte_0_ucast word4_or
        flip: x y)
  from this [OF refl refl] show ?thesis
    unfolding enc_column_def dec_column_def Let_def gmul_one_left gmul_constants(1,2)
    by (simp only: xor.commute)
qed

lemma table_fold_closed:
  assumes "set xs \<subseteq> {0..<256}" "sbox_substitution_values T = sbox_table"
    "sbox_inverse_substitution_values T = inv_sbox_table"
  shows "fold (table_step power_table log_table) xs T = T\<lparr>
        table_e0 := fold (\<lambda>c t. t[c := enc_column 2 1 1 3 (of_nat c)]) xs (table_e0 T),
        table_e1 := fold (\<lambda>c t. t[c := enc_column 3 2 1 1 (of_nat c)]) xs (table_e1 T),
        table_e2 := fold (\<lambda>c t. t[c := enc_column 1 3 2 1 (of_nat c)]) xs (table_e2 T),
        table_e3 := fold (\<lambda>c t. t[c := enc_column 1 1 3 2 (of_nat c)]) xs (table_e3 T),
        table_d0 := fold (\<lambda>c t. t[c := dec_column 14 9 13 11 (of_nat c)]) xs (table_d0 T),
        table_d1 := fold (\<lambda>c t. t[c := dec_column 11 14 9 13 (of_nat c)]) xs (table_d1 T),
        table_d2 := fold (\<lambda>c t. t[c := dec_column 13 11 14 9 (of_nat c)]) xs (table_d2 T),
        table_d3 := fold (\<lambda>c t. t[c := dec_column 9 13 11 14 (of_nat c)]) xs (table_d3 T)\<rparr>"
  using assms
  by (induction xs arbitrary: T) (simp_all add: table_step_closed)

lemma aes_tables_filled: "aes_tables = filled_tables"
proof -
  obtain x where r: "fold rcon_step [0..<10] (replicate 10 0, 1) = (rcon_values filled_tables, x)"
    using rcon_table by (metis prod.collapse)
  have t: "fold (\<lambda>c t. t[c := f (of_nat c)]) [0..<256] (replicate 256 0) = table_row f"
    for f :: "byte \<Rightarrow> u32"
    unfolding table_row_def by (rule fold_update_upt) simp
  have sb: "fold (\<lambda>c s. s[c := sub_fill c]) [0..<256] (replicate 256 0) = sbox_table"
    unfolding sbox_table_def by (rule fold_update_upt) simp
  note sboxes = sbox_tables [unfolded sb inv_sbox_table_def [symmetric]]
  show ?thesis
    unfolding aes_tables_def create_tables_def zero_tables_def Let_def power_log_tables prod.case
      aes_tables.select_convs aes_tables.update_convs r sboxes
    by (simp add: table_fold_closed t filled_tables_def)
qed

end
