(* ===== verification/Aes_Cipher.thy ===== *)
theory Aes_Cipher
  imports Aes_Tables
begin

text \<open>
  The block transformations of \<^verbatim>\<open>AES256_Encrypt_Impl::process_chunk\<close> and
  \<^verbatim>\<open>AES256_Decrypt_Impl::process_chunk\<close>: a round is four table lookups per word, the last round
  masks bytes of the substitution table. The source unrolls the thirteen table rounds; they are a
  \<open>fold\<close> over the round number here. The closed forms (\<open>encrypt_round_eq\<close> and the like) show each round
  as substitution and row shift, column mixing and round key; from them, and from what
  \<open>extract_decrypt_key\<close> does to the schedule, decryption inverts encryption.
\<close>

section \<open>Rounds\<close>

type_synonym block = "u32 \<times> u32 \<times> u32 \<times> u32"

definition encrypt_word :: "u32 \<Rightarrow> u32 \<Rightarrow> u32 \<Rightarrow> u32 \<Rightarrow> u32 \<Rightarrow> u32" where
  "encrypt_word a b c d k =
     table_e0 aes_tables ! unat (drop_bit 24 a) XOR table_e1 aes_tables ! unat (drop_bit 16 b AND 0xff)
     XOR table_e2 aes_tables ! unat (drop_bit 8 c AND 0xff) XOR table_e3 aes_tables ! unat (d AND 0xff)
     XOR k"

fun encrypt_round :: "u32 list \<Rightarrow> nat \<Rightarrow> block \<Rightarrow> block" where
  "encrypt_round ke r (s0, s1, s2, s3) =
     (encrypt_word s0 s1 s2 s3 (ke ! (4 * r)), encrypt_word s1 s2 s3 s0 (ke ! (4 * r + 1)),
      encrypt_word s2 s3 s0 s1 (ke ! (4 * r + 2)), encrypt_word s3 s0 s1 s2 (ke ! (4 * r + 3)))"

definition encrypt_last_word :: "u32 \<Rightarrow> u32 \<Rightarrow> u32 \<Rightarrow> u32 \<Rightarrow> u32 \<Rightarrow> u32" where
  "encrypt_last_word a b c d k =
     (sbox (drop_bit 24 a) AND 0xff000000) XOR (sbox (drop_bit 16 b AND 0xff) AND 0x00ff0000)
     XOR (sbox (drop_bit 8 c AND 0xff) AND 0x0000ff00) XOR (sbox (d AND 0xff) AND 0x000000ff) XOR k"

fun encrypt_last_round :: "u32 list \<Rightarrow> block \<Rightarrow> block" where
  "encrypt_last_round ke (t0, t1, t2, t3) =
     (encrypt_last_word t0 t1 t2 t3 (ke ! 56), encrypt_last_word t1 t2 t3 t0 (ke ! 57),
      encrypt_last_word t2 t3 t0 t1 (ke ! 58), encrypt_last_word t3 t0 t1 t2 (ke ! 59))"

fun add_round_key :: "u32 list \<Rightarrow> nat \<Rightarrow> block \<Rightarrow> block" where
  "add_round_key ke r (s0, s1, s2, s3) =
     (s0 XOR ke ! (4 * r), s1 XOR ke ! (4 * r + 1), s2 XOR ke ! (4 * r + 2), s3 XOR ke ! (4 * r + 3))"

definition encrypt_block :: "u32 list \<Rightarrow> block \<Rightarrow> block" where
  "encrypt_block ke s = encrypt_last_round ke (fold (encrypt_round ke) [1..<14] (add_round_key ke 0 s))"

definition decrypt_word :: "u32 \<Rightarrow> u32 \<Rightarrow> u32 \<Rightarrow> u32 \<Rightarrow> u32 \<Rightarrow> u32" where
  "decrypt_word a b c d k =
     table_d0 aes_tables ! unat (drop_bit 24 a) XOR table_d1 aes_tables ! unat (drop_bit 16 b AND 0xff)
     XOR table_d2 aes_tables ! unat (drop_bit 8 c AND 0xff) XOR table_d3 aes_tables ! unat (d AND 0xff)
     XOR k"

fun decrypt_round :: "u32 list \<Rightarrow> nat \<Rightarrow> block \<Rightarrow> block" where
  "decrypt_round ke r (s0, s1, s2, s3) =
     (decrypt_word s0 s3 s2 s1 (ke ! (4 * r)), decrypt_word s1 s0 s3 s2 (ke ! (4 * r + 1)),
      decrypt_word s2 s1 s0 s3 (ke ! (4 * r + 2)), decrypt_word s3 s2 s1 s0 (ke ! (4 * r + 3)))"

definition decrypt_last_word :: "u32 \<Rightarrow> u32 \<Rightarrow> u32 \<Rightarrow> u32 \<Rightarrow> u32 \<Rightarrow> u32" where
  "decrypt_last_word a b c d k =
     (inv_sbox (drop_bit 24 a) AND 0xff000000) XOR (inv_sbox (drop_bit 16 b AND 0xff) AND 0x00ff0000)
     XOR (inv_sbox (drop_bit 8 c AND 0xff) AND 0x0000ff00) XOR (inv_sbox (d AND 0xff) AND 0x000000ff)
     XOR k"

fun decrypt_last_round :: "u32 list \<Rightarrow> block \<Rightarrow> block" where
  "decrypt_last_round ke (t0, t1, t2, t3) =
     (decrypt_last_word t0 t3 t2 t1 (ke ! 56), decrypt_last_word t1 t0 t3 t2 (ke ! 57),
      decrypt_last_word t2 t1 t0 t3 (ke ! 58), decrypt_last_word t3 t2 t1 t0 (ke ! 59))"

definition decrypt_block :: "u32 list \<Rightarrow> block \<Rightarrow> block" where
  "decrypt_block ke s = decrypt_last_round ke (fold (decrypt_round ke) [1..<14] (add_round_key ke 0 s))"

section \<open>Closed forms of the rounds\<close>

fun column_of :: "u32 \<Rightarrow> column" where
  "column_of w = (byte_3 w, byte_2 w, byte_1 w, byte_0 w)"

fun word_of :: "column \<Rightarrow> u32" where
  "word_of (a, b, c, d) = word4 a b c d"

lemma word_of_column [simp]: "word_of (column_of w) = w"
  by simp

lemma column_of_word [simp]: "column_of (word_of c) = c"
  by (cases c) simp

declare column_of.simps [simp del]

definition mix :: "u32 \<Rightarrow> u32" where
  "mix w = word_of (mix_column (column_of w))"

definition unmix :: "u32 \<Rightarrow> u32" where
  "unmix w = word_of (inv_mix_column (column_of w))"

lemma unmix_mix: "unmix (mix w) = w"
  by (simp add: mix_def unmix_def inv_mix_mix)

lemma unmix_xor: "unmix (v XOR w) = unmix v XOR unmix w"
  by (simp add: unmix_def column_of.simps byte_xor word4_xor gmul_xor xor.assoc xor.commute
      xor.left_commute)

definition sub_word4 :: "u32 \<Rightarrow> u32 \<Rightarrow> u32 \<Rightarrow> u32 \<Rightarrow> u32" where
  "sub_word4 a b c d =
     word4 (sub_byte (byte_3 a)) (sub_byte (byte_2 b)) (sub_byte (byte_1 c)) (sub_byte (byte_0 d))"

definition inv_sub_word4 :: "u32 \<Rightarrow> u32 \<Rightarrow> u32 \<Rightarrow> u32 \<Rightarrow> u32" where
  "inv_sub_word4 a b c d =
     word4 (inv_sub_byte (byte_3 a)) (inv_sub_byte (byte_2 b)) (inv_sub_byte (byte_1 c))
       (inv_sub_byte (byte_0 d))"

lemma sbox_byte:
  "sbox_substitution_values aes_tables ! unat b = word4 (sub_byte b) (sub_byte b) (sub_byte b) (sub_byte b)"
  by (simp add: aes_tables_filled filled_tables_def sbox_table_nth)

lemma inv_sbox_byte:
  "sbox_inverse_substitution_values aes_tables ! unat b
     = word4 (inv_sub_byte b) (inv_sub_byte b) (inv_sub_byte b) (inv_sub_byte b)"
  by (simp add: aes_tables_filled filled_tables_def inv_sbox_table_nth Let_def)

lemma byte_0_drop:
  "byte_0 (drop_bit 24 w) = byte_3 w" "byte_0 (drop_bit 16 w) = byte_2 w"
  "byte_0 (drop_bit 8 w) = byte_1 w"
  by (simp_all add: bytes_defs)

lemmas select_simps = select_bytes(1) and_ff byte_0_drop unat_ucast_byte

lemma mask_word4:
  "word4 a b c d AND 0xff000000 = word4 a 0 0 0" "word4 a b c d AND 0x00ff0000 = word4 0 b 0 0"
  "word4 a b c d AND 0x0000ff00 = word4 0 0 c 0" "word4 a b c d AND 0x000000ff = word4 0 0 0 d"
proof -
  have 3: "(0xff000000 :: u32) = word4 0xff 0 0 0" and 2: "(0x00ff0000 :: u32) = word4 0 0xff 0 0"
    and 1: "(0x0000ff00 :: u32) = word4 0 0 0xff 0" and 0: "(0x000000ff :: u32) = word4 0 0 0 0xff"
    by (simp_all add: word4_def)
  have m: "word4 a b c d AND word4 a' b' c' d' = word4 (a AND a') (b AND b') (c AND c') (d AND d')"
    for a b c d a' b' c' d' :: byte
    by (rule bit_word_eqI) (simp add: bit_word4 bit_and_iff)
  have ff: "x AND 0xff = x" for x :: byte
  proof -
    have "x AND mask 8 = x" by (rule bit_word_eqI) (auto simp: bit_simps)
    then show ?thesis by (simp add: mask_eq_exp_minus_1)
  qed
  show "word4 a b c d AND 0xff000000 = word4 a 0 0 0" "word4 a b c d AND 0x00ff0000 = word4 0 b 0 0"
    "word4 a b c d AND 0x0000ff00 = word4 0 0 c 0" "word4 a b c d AND 0x000000ff = word4 0 0 0 d"
    by (simp_all only: 0 1 2 3 m ff and_zero_eq)
qed

lemma table_e_rows:
  "table_e0 aes_tables ! unat b = word_of (mix_column (sub_byte b, 0, 0, 0))"
  "table_e1 aes_tables ! unat b = word_of (mix_column (0, sub_byte b, 0, 0))"
  "table_e2 aes_tables ! unat b = word_of (mix_column (0, 0, sub_byte b, 0))"
  "table_e3 aes_tables ! unat b = word_of (mix_column (0, 0, 0, sub_byte b))"
  by (simp_all add: aes_tables_filled filled_tables_def enc_column_def Let_def gmul_one_left)

lemma table_d_rows:
  "table_d0 aes_tables ! unat b = word_of (inv_mix_column (inv_sub_byte b, 0, 0, 0))"
  "table_d1 aes_tables ! unat b = word_of (inv_mix_column (0, inv_sub_byte b, 0, 0))"
  "table_d2 aes_tables ! unat b = word_of (inv_mix_column (0, 0, inv_sub_byte b, 0))"
  "table_d3 aes_tables ! unat b = word_of (inv_mix_column (0, 0, 0, inv_sub_byte b))"
  by (simp_all add: aes_tables_filled filled_tables_def dec_column_def Let_def)

lemma word4_zero_upper: "ucast d = word4 0 0 0 d"
  by (simp add: word4_def)

lemma encrypt_word_eq: "encrypt_word a b c d k = mix (sub_word4 a b c d) XOR k"
  by (simp add: encrypt_word_def select_simps table_e_rows mix_def sub_word4_def column_of.simps
      word4_xor flip: xor.assoc)

lemma decrypt_word_eq: "decrypt_word a b c d k = unmix (inv_sub_word4 a b c d) XOR k"
  by (simp add: decrypt_word_def select_simps table_d_rows unmix_def inv_sub_word4_def
      column_of.simps word4_xor flip: xor.assoc)

lemma encrypt_last_word_eq: "encrypt_last_word a b c d k = sub_word4 a b c d XOR k"
  by (simp only: encrypt_last_word_def select_simps sbox_byte mask_word4(1-3) bytes_word4)
    (simp add: word4_zero_upper sub_word4_def word4_xor flip: xor.assoc)

lemma decrypt_last_word_eq: "decrypt_last_word a b c d k = inv_sub_word4 a b c d XOR k"
  by (simp only: decrypt_last_word_def select_simps inv_sbox_byte mask_word4(1-3) bytes_word4)
    (simp add: word4_zero_upper inv_sub_word4_def word4_xor flip: xor.assoc)

lemma inverse_mix_word_eq: "inverse_mix_word w = unmix w"
  by (simp only: inverse_mix_word_def select_simps sbox_byte bytes_word4 table_d_rows inv_sub_sub
      unmix_def column_of.simps)
    (simp add: word4_xor flip: xor.assoc)

section \<open>Blocks\<close>

fun map_block :: "(u32 \<Rightarrow> u32) \<Rightarrow> block \<Rightarrow> block" where
  "map_block f (a, b, c, d) = (f a, f b, f c, f d)"

fun xor_block :: "block \<Rightarrow> block \<Rightarrow> block" where
  "xor_block (a, b, c, d) (a', b', c', d') = (a XOR a', b XOR b', c XOR c', d XOR d')"

fun sub_shift :: "block \<Rightarrow> block" where
  "sub_shift (a, b, c, d) = (sub_word4 a b c d, sub_word4 b c d a, sub_word4 c d a b, sub_word4 d a b c)"

fun inv_sub_shift :: "block \<Rightarrow> block" where
  "inv_sub_shift (a, b, c, d) =
     (inv_sub_word4 a d c b, inv_sub_word4 b a d c, inv_sub_word4 c b a d, inv_sub_word4 d c b a)"

definition round_key :: "u32 list \<Rightarrow> nat \<Rightarrow> block" where
  "round_key ke r = (ke ! (4 * r), ke ! (4 * r + 1), ke ! (4 * r + 2), ke ! (4 * r + 3))"

lemma inv_sub_sub_shift [simp]: "inv_sub_shift (sub_shift b) = b"
  by (cases b) (simp add: sub_word4_def inv_sub_word4_def)

lemma xor_block_cancel [simp]: "xor_block (xor_block b k) k = b"
  by (cases b; cases k) (simp add: xor.assoc)

lemma map_unmix_mix [simp]: "map_block unmix (map_block mix b) = b"
  by (cases b) (simp add: unmix_mix)

lemma map_unmix_xor: "map_block unmix (xor_block b k) = xor_block (map_block unmix b) (map_block unmix k)"
  by (cases b; cases k) (simp add: unmix_xor)

lemma add_round_key_eq: "add_round_key ke r b = xor_block b (round_key ke r)"
  by (cases b) (simp add: round_key_def)

lemma encrypt_round_eq:
  "encrypt_round ke r b = xor_block (map_block mix (sub_shift b)) (round_key ke r)"
  by (cases b) (simp add: encrypt_word_eq round_key_def)

lemma encrypt_last_round_eq: "encrypt_last_round ke b = xor_block (sub_shift b) (round_key ke 14)"
  by (cases b) (simp add: encrypt_last_word_eq round_key_def)

lemma decrypt_round_eq:
  "decrypt_round ke r b = xor_block (map_block unmix (inv_sub_shift b)) (round_key ke r)"
  by (cases b) (simp add: decrypt_word_eq round_key_def)

lemma decrypt_last_round_eq:
  "decrypt_last_round ke b = xor_block (inv_sub_shift b) (round_key ke 14)"
  by (cases b) (simp add: decrypt_last_word_eq round_key_def)

section \<open>The decryption schedule\<close>

lemma length_swap_words [simp]: "length (swap_words i j ke) = length ke"
  by (simp add: swap_words_def Let_def)

lemma length_fold_swap [simp]:
  "length (fold (\<lambda>k. swap_words (s + k) (e + k)) ks ke) = length ke"
  by (induction ks arbitrary: ke) simp_all

lemma swap_words_nth:
  assumes "i < length ke" "j < length ke"
  shows "swap_words i j ke ! m = (if m = j then ke ! i else if m = i then ke ! j else ke ! m)"
  using assms by (auto simp: swap_words_def Let_def nth_list_update)

lemma swap_four_nth:
  assumes "s + 4 \<le> e" "e + 4 \<le> length ke"
  shows "fold (\<lambda>k. swap_words (s + k) (e + k)) [0..<4] ke ! m =
     (if s \<le> m \<and> m < s + 4 then ke ! (m - s + e)
      else if e \<le> m \<and> m < e + 4 then ke ! (m - e + s) else ke ! m)"
proof -
  have "fold (\<lambda>k. swap_words (s + k) (e + k)) [0..<n] ke ! m =
     (if s \<le> m \<and> m < s + n then ke ! (m - s + e)
      else if e \<le> m \<and> m < e + n then ke ! (m - e + s) else ke ! m)" if "n \<le> 4" for n
    using that
  proof (induction n arbitrary: m)
    case 0
    then show ?case by auto
  next
    case (Suc n)
    then show ?case using assms by (auto simp: swap_words_nth) (simp_all add: add.commute)
  qed
  then show ?thesis by simp
qed

lemma invert_order_nth:
  assumes "4 * b + 4 \<le> length ke"
  shows "length (invert_order (4 * a) (4 * b) ke) = length ke \<and>
    (\<forall>r. \<forall>j < 4. invert_order (4 * a) (4 * b) ke ! (4 * r + j) =
     (if a \<le> r \<and> r \<le> b then ke ! (4 * (a + b - r) + j) else ke ! (4 * r + j)))"
  using assms
proof (induction "b - a" arbitrary: a b ke rule: less_induct)
  case less
  show ?case
  proof (cases "a < b")
    case False
    then have "a + b - r = r" if "a \<le> r \<and> r \<le> b" for r using that by auto
    then show ?thesis using False by (auto simp: invert_order.simps [of "4 * a" "4 * b"])
  next
    case True
    define ke' where "ke' = fold (\<lambda>k. swap_words (4 * a + k) (4 * b + k)) [0..<4] ke"
    have step: "invert_order (4 * a) (4 * b) ke = invert_order (4 * Suc a) (4 * (b - 1)) ke'"
      using True by (subst invert_order.simps) (simp add: ke'_def diff_mult_distrib2 add.commute)
    have len: "length ke' = length ke" by (simp add: ke'_def)
    have ke': "ke' ! (4 * r + j) = (if r = a then ke ! (4 * b + j) else if r = b then ke ! (4 * a + j)
        else ke ! (4 * r + j))" if "j < 4" for r j
    proof -
      have *: "4 * a + 4 \<le> 4 * b" "4 * b + 4 \<le> length ke" using True less.prems by auto
      have "4 * a \<le> 4 * r + j \<and> 4 * r + j < 4 * a + 4 \<longleftrightarrow> r = a"
        "4 * b \<le> 4 * r + j \<and> 4 * r + j < 4 * b + 4 \<longleftrightarrow> r = b" using that by auto
      then show ?thesis using that unfolding ke'_def swap_four_nth [OF *] by (auto simp: add.commute)
    qed
    have IH: "length (invert_order (4 * Suc a) (4 * (b - 1)) ke') = length ke' \<and>
        (\<forall>r. \<forall>j < 4. invert_order (4 * Suc a) (4 * (b - 1)) ke' ! (4 * r + j) =
          (if Suc a \<le> r \<and> r \<le> b - 1 then ke' ! (4 * (Suc a + (b - 1) - r) + j)
           else ke' ! (4 * r + j)))"
      by (rule less.hyps) (use True less.prems len in auto)
    have "Suc a + (b - 1) = a + b" using True by simp
    then show ?thesis
      unfolding step using True IH len by (auto simp: ke' not_le le_less_Suc_eq)
  qed
qed

lemma length_mix_round_key [simp]: "length (mix_round_key cnt ke) = length ke"
  by (simp add: mix_round_key_def eval_nat_numeral)

lemma mix_round_key_nth:
  assumes "4 * cnt + 4 \<le> length ke" "j < 4"
  shows "mix_round_key cnt ke ! (4 * r + j) =
     (if r = cnt then unmix (ke ! (4 * r + j)) else ke ! (4 * r + j))"
proof -
  have fold: "length (fold (\<lambda>k ke. ke[i + k := f (ke ! (i + k))]) [0..<n] ke) = length ke \<and>
      fold (\<lambda>k ke. ke[i + k := f (ke ! (i + k))]) [0..<n] ke ! m =
      (if i \<le> m \<and> m < i + n then f (ke ! m) else ke ! m)" if "i + n \<le> length ke"
    for f :: "u32 \<Rightarrow> u32" and i n m ke
    using that by (induction n arbitrary: m) (auto simp: nth_list_update)
  have "4 * cnt \<le> 4 * r + j \<and> 4 * r + j < 4 * cnt + 4 \<longleftrightarrow> r = cnt"
    using assms(2) by auto
  then show ?thesis
    using fold [of "4 * cnt" 4 ke unmix] assms(1) by (simp add: mix_round_key_def inverse_mix_word_eq)
qed

lemma mix_round_keys_nth:
  assumes "4 * n \<le> length ke" "j < 4"
  shows "length (fold mix_round_key [1..<n] ke) = length ke \<and>
    fold mix_round_key [1..<n] ke ! (4 * r + j) =
     (if 1 \<le> r \<and> r < n then unmix (ke ! (4 * r + j)) else ke ! (4 * r + j))"
  using assms
proof (induction n)
  case 0
  then show ?case by simp
next
  case (Suc n)
  have step: "fold mix_round_key [1..<Suc n] ke = mix_round_key n (fold mix_round_key [1..<n] ke)"
    if "1 \<le> n" using that by simp
  show ?case
  proof (cases "1 \<le> n")
    case True
    have "mix_round_key n (fold mix_round_key [1..<n] ke) ! (4 * r + j) =
      (if r = n then unmix (fold mix_round_key [1..<n] ke ! (4 * r + j))
       else fold mix_round_key [1..<n] ke ! (4 * r + j))"
      by (rule mix_round_key_nth) (use Suc in simp_all)
    then show ?thesis unfolding step [OF True] using Suc True by auto
  qed auto
qed

lemma extract_decrypt_key_nth:
  assumes "length ke = 4 * n + 4" "r \<le> n" "j < 4"
  shows "extract_decrypt_key ke n ! (4 * r + j) =
     (if 1 \<le> r \<and> r < n then unmix (ke ! (4 * (n - r) + j)) else ke ! (4 * (n - r) + j))"
proof -
  have "length (invert_order 0 (4 * n) ke) = length ke"
    "invert_order 0 (4 * n) ke ! (4 * r + j) = ke ! (4 * (n - r) + j)"
    using invert_order_nth [of n ke 0] assms by simp_all
  then show ?thesis
    using mix_round_keys_nth [of n "invert_order 0 (4 * n) ke" j r] assms
    by (simp add: extract_decrypt_key_def)
qed

lemma length_extract_decrypt_key:
  "length ke = 4 * n + 4 \<Longrightarrow> length (extract_decrypt_key ke n) = length ke"
  using invert_order_nth [of n ke 0] mix_round_keys_nth [of n "invert_order 0 (4 * n) ke" 0 0]
  by (simp add: extract_decrypt_key_def)

lemma decrypt_round_key:
  assumes "length ke = 4 * n + 4" "r \<le> n"
  shows "round_key (extract_decrypt_key ke n) r =
     (if 1 \<le> r \<and> r < n then map_block unmix (round_key ke (n - r)) else round_key ke (n - r))"
  using extract_decrypt_key_nth [OF assms, of 0] extract_decrypt_key_nth [OF assms, of 1]
    extract_decrypt_key_nth [OF assms, of 2] extract_decrypt_key_nth [OF assms, of 3]
  by (simp add: round_key_def)

section \<open>Decryption inverts encryption\<close>

lemma decrypt_rounds_undo:
  assumes "length ke = 60" "n \<le> 13"
  shows "fold (decrypt_round (extract_decrypt_key ke 14)) [1..<Suc n]
           (sub_shift (fold (encrypt_round ke) [1..<14] b))
         = sub_shift (fold (encrypt_round ke) [1..<14 - n] b)"
  using assms(2)
proof (induction n)
  case 0
  then show ?case by simp
next
  case (Suc n)
  have "14 - n = Suc (13 - n)" "1 \<le> 13 - n" "14 - Suc n = 13 - n" using Suc.prems by auto
  then have "[1..<14 - n] = [1..<14 - Suc n] @ [13 - n]"
    using upt_Suc_append [of 1 "13 - n"] by (simp only:)
  then have e: "fold (encrypt_round ke) [1..<14 - n] b
      = encrypt_round ke (13 - n) (fold (encrypt_round ke) [1..<14 - Suc n] b)" by simp
  let ?D = "decrypt_round (extract_decrypt_key ke 14)"
  let ?x = "sub_shift (fold (encrypt_round ke) [1..<14] b)"
  have rk: "round_key (extract_decrypt_key ke 14) (Suc n) = map_block unmix (round_key ke (13 - n))"
    using decrypt_round_key [of ke 14 "Suc n"] assms(1) Suc.prems by simp
  have "fold ?D [1..<Suc (Suc n)] ?x = ?D (Suc n) (fold ?D [1..<Suc n] ?x)" by simp
  also have "\<dots> = ?D (Suc n) (sub_shift (encrypt_round ke (13 - n)
      (fold (encrypt_round ke) [1..<14 - Suc n] b)))"
    using Suc.IH Suc.prems by (simp only: e)
  also have "\<dots> = sub_shift (fold (encrypt_round ke) [1..<14 - Suc n] b)"
    by (simp only: decrypt_round_eq inv_sub_sub_shift rk encrypt_round_eq flip: map_unmix_xor)
      (simp only: xor_block_cancel map_unmix_mix)
  finally show ?case .
qed

theorem decrypt_encrypt_block:
  assumes "length ke = 60"
  shows "decrypt_block (extract_decrypt_key ke 14) (encrypt_block ke b) = b"
proof -
  let ?ke = "extract_decrypt_key ke 14"
  have "round_key ?ke 0 = round_key ke 14" "round_key ?ke 14 = round_key ke 0"
    using decrypt_round_key [of ke 14 0] decrypt_round_key [of ke 14 14] assms by simp_all
  then show ?thesis
    using decrypt_rounds_undo [OF assms, of 13]
    by (simp add: decrypt_block_def encrypt_block_def add_round_key_eq encrypt_last_round_eq
        decrypt_last_round_eq)
qed

end
