(* ===== verification/Fips197.thy ===== *)
theory Fips197
  imports Aes_Cipher
begin

text \<open>
  The cipher and the key expansion of FIPS-197, on states and words that are lists of bytes, and the
  proof that the code computes them: the three key schedules of \<^verbatim>\<open>aes.cpp\<close> and the block
  transformation of \<^verbatim>\<open>AES256_Encrypt_Impl::process_chunk\<close>. Nothing of the code is used in the
  definitions of the standard.
\<close>

section \<open>The standard\<close>

definition xor_bytes :: "byte list \<Rightarrow> byte list \<Rightarrow> byte list" where
  "xor_bytes = map2 (XOR)"

definition fips_sub_bytes :: "byte list \<Rightarrow> byte list" where
  "fips_sub_bytes s = map sub_byte s"

definition fips_shift_rows :: "byte list \<Rightarrow> byte list" where
  "fips_shift_rows s = map (\<lambda>i. s ! ((i + 4 * (i mod 4)) mod 16)) [0..<16]"

fun fips_mix_columns :: "byte list \<Rightarrow> byte list" where
  "fips_mix_columns (a # b # c # d # s) =
     (case mix_column (a, b, c, d) of (a', b', c', d') \<Rightarrow> a' # b' # c' # d' # fips_mix_columns s)"
| "fips_mix_columns s = s"

definition fips_add_round_key :: "(nat \<Rightarrow> byte list) \<Rightarrow> nat \<Rightarrow> byte list \<Rightarrow> byte list" where
  "fips_add_round_key w r s = xor_bytes s (concat (map w [4 * r..<4 * r + 4]))"

definition fips_cipher :: "nat \<Rightarrow> (nat \<Rightarrow> byte list) \<Rightarrow> byte list \<Rightarrow> byte list" where
  "fips_cipher nr w input =
     fips_add_round_key w nr (fips_shift_rows (fips_sub_bytes
       (fold (\<lambda>r s. fips_add_round_key w r (fips_mix_columns (fips_shift_rows (fips_sub_bytes s))))
         [1..<nr] (fips_add_round_key w 0 input))))"

definition fips_rcon :: "nat \<Rightarrow> byte list" where
  "fips_rcon i = [(xt ^^ (i - 1)) 1, 0, 0, 0]"

function fips_key :: "nat \<Rightarrow> byte list \<Rightarrow> nat \<Rightarrow> byte list" where
  "fips_key nk key i =
     (if i < nk \<or> nk = 0 then slice (4 * i) 4 key
      else let temp = fips_key nk key (i - 1)
           in xor_bytes (fips_key nk key (i - nk))
                (if i mod nk = 0
                 then xor_bytes (fips_sub_bytes (rotate1 temp)) (fips_rcon (i div nk))
                 else if nk > 6 \<and> i mod nk = 4 then fips_sub_bytes temp else temp))"
  by pat_completeness auto
termination by (relation "measure (\<lambda>(_, _, i). i)") auto

declare fips_key.simps [simp del]

section \<open>Words and blocks as bytes\<close>

fun block_bytes :: "block \<Rightarrow> byte list" where
  "block_bytes (a, b, c, d) = put_word a @ put_word b @ put_word c @ put_word d"

definition block_of_bytes :: "byte list \<Rightarrow> block" where
  "block_of_bytes p = (get_word p, get_word (drop 4 p), get_word (drop 8 p), get_word (drop 12 p))"

lemma length_put_word [simp]: "length (put_word w) = 4"
  by (simp add: put_word_def)

lemma length_block_bytes [simp]: "length (block_bytes b) = 16"
  by (cases b) simp

lemma block_bytes_of_bytes [simp]: "length p = 16 \<Longrightarrow> block_bytes (block_of_bytes p) = p"
proof -
  assume p: "length p = 16"
  have "take 4 p @ take 4 (drop 4 p) @ take 4 (drop 8 p) @ take 4 (drop 12 p) = p"
  proof -
    have "take 4 (drop 12 p) = drop 12 p" using p by simp
    moreover have "take 4 (drop 8 p) @ drop 12 p = drop 8 p" "take 4 (drop 4 p) @ drop 8 p = drop 4 p"
      by (simp_all add: append_take_drop_id [of 4 "drop 8 p", simplified]
          append_take_drop_id [of 4 "drop 4 p", simplified])
    ultimately show ?thesis by simp
  qed
  then show ?thesis using p by (simp add: block_of_bytes_def put_get_word)
qed

lemma block_of_bytes_append [simp]: "block_of_bytes (block_bytes b @ xs) = b"
  by (cases b) (simp add: block_of_bytes_def)

lemma block_of_block_bytes [simp]: "block_of_bytes (block_bytes b) = b"
  using block_of_bytes_append [of b "[]"] by simp

lemma put_word_word4: "put_word (word4 a b c d) = [a, b, c, d]"
  by (simp add: put_word_bytes)

lemma put_word_xor: "put_word (v XOR w) = xor_bytes (put_word v) (put_word w)"
  by (simp add: put_word_bytes byte_xor xor_bytes_def)

section \<open>Rounds\<close>

lemma sub_shift_bytes: "fips_shift_rows (fips_sub_bytes (block_bytes s)) = block_bytes (sub_shift s)"
  by (cases s)
    (simp add: fips_shift_rows_def fips_sub_bytes_def put_word_bytes sub_word4_def upt_conv_Cons)

lemma mix_bytes: "fips_mix_columns (block_bytes s) = block_bytes (map_block mix s)"
  by (cases s) (simp add: put_word_bytes mix_def column_of.simps)

lemma round_key_bytes:
  assumes "\<And>i. i < 4 * n + 4 \<Longrightarrow> w i = put_word (ke ! i)" "r \<le> n"
  shows "fips_add_round_key w r (block_bytes s) = block_bytes (xor_block s (round_key ke r))"
proof -
  have "[4 * r..<4 * r + 4] = [4 * r, 4 * r + 1, 4 * r + 2, 4 * r + 3]"
    by (simp add: upt_conv_Cons)
  then have "concat (map w [4 * r..<4 * r + 4]) = block_bytes (round_key ke r)"
    using assms by (simp add: round_key_def)
  then show ?thesis
    by (cases s) (simp add: fips_add_round_key_def round_key_def put_word_xor xor_bytes_def)
qed

lemma encrypt_block_fips:
  assumes w: "\<And>i. i < 60 \<Longrightarrow> w i = put_word (ke ! i)"
  shows "block_bytes (encrypt_block ke s) = fips_cipher 14 w (block_bytes s)"
proof -
  have rk: "fips_add_round_key w r (block_bytes s) = block_bytes (xor_block s (round_key ke r))"
    if "r \<le> 14" for r s
    by (rule round_key_bytes [where n = 14]) (use w that in simp_all)
  have "fold (\<lambda>r s. fips_add_round_key w r (fips_mix_columns (fips_shift_rows (fips_sub_bytes s))))
      rs (block_bytes b) = block_bytes (fold (encrypt_round ke) rs b)" if "set rs \<subseteq> {..14}" for rs b
    using that
    by (induction rs arbitrary: b) (simp_all add: encrypt_round_eq sub_shift_bytes mix_bytes rk)
  note rounds = this [of "[1..<14]"]
  show ?thesis
    unfolding encrypt_block_def fips_cipher_def encrypt_last_round_eq add_round_key_eq
    by (subst rk [of 0], simp, subst rounds, simp add: subset_iff, subst sub_shift_bytes,
        subst rk, simp_all)
qed

section \<open>Key schedules\<close>

definition schedule_word :: "nat \<Rightarrow> nat \<Rightarrow> u32 \<Rightarrow> u32" where
  "schedule_word nk i temp =
     (if i mod nk = 0 then schedule_core temp (i div nk - 1)
      else if nk > 6 \<and> i mod nk = 4 then schedule_middle temp else temp)"

definition schedule_step :: "nat \<Rightarrow> nat \<Rightarrow> u32 list \<Rightarrow> u32 list" where
  "schedule_step nk i ke = ke[i := ke ! (i - nk) XOR schedule_word nk i (ke ! (i - 1))]"

lemma put_schedule_core:
  assumes "cnt < 10"
  shows "put_word (schedule_core t cnt)
    = xor_bytes (fips_sub_bytes (rotate1 (put_word t))) (fips_rcon (Suc cnt))"
proof -
  have "rcon_values aes_tables ! cnt = word4 ((xt ^^ cnt) 1) 0 0 0"
  proof -
    have pow: "(xt ^^ numeral k) x = xt ((xt ^^ pred_numeral k) x)" for k x
      by (simp add: numeral_eq_Suc)
    have "cnt \<in> {0, 1, 2, 3, 4, 5, 6, 7, 8, 9}" using assms by auto
    then show ?thesis
      by (elim insertE emptyE)
        (simp_all add: aes_tables_filled filled_tables_def word4_def pow xt_def)
  qed
  then have "schedule_core t cnt = word4 (sub_byte (byte_2 t) XOR (xt ^^ cnt) 1)
      (sub_byte (byte_1 t)) (sub_byte (byte_0 t)) (sub_byte (byte_3 t))"
    by (simp only: schedule_core_def select_simps sbox_byte mask_word4(1-3) bytes_word4)
      (simp add: word4_zero_upper word4_xor flip: xor.assoc)
  then show ?thesis
    by (simp add: put_word_bytes fips_sub_bytes_def fips_rcon_def xor_bytes_def)
qed

lemma put_schedule_middle: "put_word (schedule_middle t) = fips_sub_bytes (put_word t)"
proof -
  have "schedule_middle t = sub_word4 t t t t"
    by (simp only: schedule_middle_def select_simps select_bytes(2) sbox_byte mask_word4(1-3)
        bytes_word4) (simp add: word4_zero_upper word4_xor sub_word4_def flip: xor.assoc)
  then show ?thesis by (simp add: put_word_bytes sub_word4_def fips_sub_bytes_def)
qed

lemma length_schedule_steps [simp]: "length (fold (schedule_step nk) xs ke) = length ke"
  by (induction xs arbitrary: ke) (simp_all add: schedule_step_def)

lemma schedule_fips:
  assumes "0 < nk" "m \<le> length ke" "m \<le> 11 * nk"
    and key: "\<And>i. i < nk \<Longrightarrow> put_word (ke ! i) = slice (4 * i) 4 key"
    and "i < m"
  shows "put_word (fold (schedule_step nk) [nk..<m] ke ! i) = fips_key nk key i"
  using assms(2,3,5)
proof (induction m arbitrary: i)
  case 0
  then show ?case by simp
next
  case (Suc m)
  show ?case
  proof (cases "nk \<le> m")
    case False
    then show ?thesis using Suc.prems key by (simp add: fips_key.simps)
  next
    case True
    let ?k = "fold (schedule_step nk) [nk..<m] ke"
    have step: "fold (schedule_step nk) [nk..<Suc m] ke = schedule_step nk m ?k"
      using True by simp
    show ?thesis
    proof (cases "i = m")
      case False
      then have "schedule_step nk m ?k ! i = ?k ! i" by (simp add: schedule_step_def)
      then show ?thesis unfolding step using Suc.IH [of i] Suc.prems False by simp
    next
      case [simp]: True
      have "put_word (?k ! (m - 1)) = fips_key nk key (m - 1)"
        and "put_word (?k ! (m - nk)) = fips_key nk key (m - nk)"
        using Suc \<open>nk \<le> m\<close> assms(1) by simp_all
      note IH = this this(1) [unfolded One_nat_def]
      have "1 \<le> m div nk" using \<open>nk \<le> m\<close> assms(1) by (simp add: Suc_le_eq div_greater_zero_iff)
      moreover have "m div nk < 11" using Suc.prems assms(1) by (simp add: div_less_iff_less_mult)
      ultimately have core: "put_word (schedule_core t (m div nk - Suc 0))
          = xor_bytes (fips_sub_bytes (rotate1 (put_word t))) (fips_rcon (m div nk))" for t
        using put_schedule_core [of "m div nk - 1" t] by simp
      show ?thesis
        unfolding step using Suc.prems \<open>nk \<le> m\<close> assms(1)
        by (subst fips_key.simps)
          (simp add: schedule_step_def schedule_word_def put_word_xor put_schedule_middle core IH Let_def)
    qed
  qed
qed

lemma length_load_key [simp]: "length (load_key nk key ke) = length ke"
  by (simp add: load_key_def)

lemma load_key_nth:
  assumes "nk \<le> length ke" "length key = 4 * nk"
  shows "length (load_key nk key ke) = length ke"
    "i < nk \<Longrightarrow> put_word (load_key nk key ke ! i) = slice (4 * i) 4 key"
proof -
  show "length (load_key nk key ke) = length ke" by (rule length_load_key)
  assume i: "i < nk"
  then have "load_key nk key ke ! i = get_word (drop (4 * i) key)"
    unfolding load_key_def using assms
    by (subst fold_scatter_hit [where k = "\<lambda>i. i", simplified]) simp_all
  then show "put_word (load_key nk key ke ! i) = slice (4 * i) 4 key"
    using i assms by (simp add: put_get_word slice_def)
qed

lemma upt_rounds:
  "[i + 4..<i + 8] = [i + 4, i + 5, i + 6, i + 7]"
  "[i + 6..<i + 10] = [i + 6, i + 7, i + 8, i + 9]"
  "[i + 6..<i + 12] = [i + 6, i + 7, i + 8, i + 9, i + 10, i + 11]"
  "[i + 8..<i + 12] = [i + 8, i + 9, i + 10, i + 11]"
  "[i + 8..<i + 16] = [i + 8, i + 9, i + 10, i + 11, i + 12, i + 13, i + 14, i + (15 :: nat)]"
  by (simp_all add: upt_conv_Cons)

lemma key128_round_steps:
  "key128_round c ke = fold (schedule_step 4) [4 * c + 4..<4 * c + 8] ke"
  unfolding upt_rounds
  by (simp add: key128_round_def schedule_step_def schedule_word_def Let_def)
    (simp add: add.commute)

lemma key192_round_steps:
  "key192_round c ke
     = fold (schedule_step 6) [6 * c + 6..<(if c = 7 then 6 * c + 10 else 6 * c + 12)] ke"
proof (cases "c = 7")
  case True
  show ?thesis
    unfolding True using upt_rounds(2) [of "6 * 7"]
    by (simp add: key192_round_def schedule_step_def schedule_word_def Let_def)
next
  case False
  then show ?thesis
    by (simp only: upt_rounds if_False)
      (simp add: key192_round_def schedule_step_def schedule_word_def Let_def; simp add: add.commute)
qed

lemma key256_round_steps:
  "key256_round c ke
     = fold (schedule_step 8) [8 * c + 8..<(if c = 6 then 8 * c + 12 else 8 * c + 16)] ke"
proof (cases "c = 6")
  case True
  show ?thesis
    unfolding True using upt_rounds(4) [of "8 * 6"]
    by (simp add: key256_round_def schedule_step_def schedule_word_def Let_def)
next
  case False
  then show ?thesis
    by (simp only: upt_rounds if_False)
      (simp add: key256_round_def schedule_step_def schedule_word_def Let_def; simp add: add.commute)
qed

lemma fold_rounds:
  "fold (\<lambda>c. fold f [k * c + k..<k * c + 2 * k]) [0..<n] x = fold f [k..<k * n + k] x"
proof (induction n)
  case 0
  then show ?case by simp
next
  case (Suc n)
  have "[k..<k * Suc n + k] = [k..<k * n + k] @ [k * n + k..<k * n + 2 * k]"
    using upt_add_eq_append [of k "k * n + k" k] by (simp add: algebra_simps mult_2_right)
  then show ?case using Suc by simp
qed

lemma fold_rounds_last:
  assumes "m \<le> 2 * k"
  shows "fold (\<lambda>c. fold f [k * c + k..<(if c = n then k * c + m else k * c + 2 * k)]) [0..<Suc n] x
    = fold f [k..<max k m + k * n] x"
proof -
  have "fold (\<lambda>c. fold f [k * c + k..<(if c = n then k * c + m else k * c + 2 * k)]) [0..<n] x
      = fold (\<lambda>c. fold f [k * c + k..<k * c + 2 * k]) [0..<n] x"
    by (rule fold_cong) auto
  moreover have "[k..<max k m + k * n] = [k..<k * n + k] @ [k * n + k..<k * n + m]"
  proof (cases "k \<le> m")
    case True
    then show ?thesis using upt_add_eq_append [of k "k * n + k" "m - k"] by (simp add: algebra_simps)
  qed (simp add: algebra_simps)
  ultimately show ?thesis by (simp add: fold_rounds)
qed

declare upt_rec_numeral [simp del]

lemma extract_encrypt_key128_steps:
  "extract_encrypt_key128 key ke = fold (schedule_step 4) [4..<44] (load_key 4 key ke)"
proof -
  have "key128_round = (\<lambda>c. fold (schedule_step 4) [4 * c + 4..<4 * c + 2 * 4])"
    by (intro ext) (simp add: key128_round_steps)
  then show ?thesis
    using fold_rounds [of "schedule_step 4" 4 10] by (simp add: extract_encrypt_key128_def)
qed

lemma extract_encrypt_key192_steps:
  "extract_encrypt_key192 key ke = fold (schedule_step 6) [6..<52] (load_key 6 key ke)"
proof -
  have "key192_round
      = (\<lambda>c. fold (schedule_step 6) [6 * c + 6..<(if c = 7 then 6 * c + 10 else 6 * c + 2 * 6)])"
    by (intro ext) (simp add: key192_round_steps)
  then show ?thesis
    using fold_rounds_last [of 10 6 "schedule_step 6" 7] by (simp add: extract_encrypt_key192_def)
qed

lemma extract_encrypt_key256_steps:
  "extract_encrypt_key256 key ke = fold (schedule_step 8) [8..<60] (load_key 8 key ke)"
proof -
  have "key256_round
      = (\<lambda>c. fold (schedule_step 8) [8 * c + 8..<(if c = 6 then 8 * c + 12 else 8 * c + 2 * 8)])"
    by (intro ext) (simp add: key256_round_steps)
  then show ?thesis
    using fold_rounds_last [of 12 8 "schedule_step 8" 6] by (simp add: extract_encrypt_key256_def)
qed

declare upt_rec_numeral [simp]

lemma length_extract_encrypt_key256 [simp]: "length (extract_encrypt_key256 key ke) = length ke"
  by (simp only: extract_encrypt_key256_steps length_schedule_steps length_load_key)

lemma schedule_load_fips:
  assumes "length key = 4 * nk" "0 < nk" "nk \<le> length ke" "m \<le> length ke" "m \<le> 11 * nk" "i < m"
  shows "put_word (fold (schedule_step nk) [nk..<m] (load_key nk key ke) ! i) = fips_key nk key i"
  using assms by (intro schedule_fips) (simp_all add: load_key_nth)

lemma extract_encrypt_key256_fips:
  "length key = 32 \<Longrightarrow> length ke = 60 \<Longrightarrow> i < 60 \<Longrightarrow>
     put_word (extract_encrypt_key256 key ke ! i) = fips_key 8 key i"
  unfolding extract_encrypt_key256_steps by (rule schedule_load_fips) simp_all

text \<open>
  C31. The three key schedules compute the key expansion of FIPS-197: whatever the array held before,
  word \<open>i\<close> of the expanded key is word \<open>i\<close> of the standard, for all 44, 52 and 60 words.
\<close>

theorem key_schedules_fips:
  assumes "length k128 = 16" "length k192 = 24" "length k256 = 32"
    and "length a = 44" "length b = 52" "length c = 60"
  shows "(\<forall>i < 44. put_word (extract_encrypt_key128 k128 a ! i) = fips_key 4 k128 i) \<and>
    (\<forall>i < 52. put_word (extract_encrypt_key192 k192 b ! i) = fips_key 6 k192 i) \<and>
    (\<forall>i < 60. put_word (extract_encrypt_key256 k256 c ! i) = fips_key 8 k256 i)"
  unfolding extract_encrypt_key128_steps extract_encrypt_key192_steps extract_encrypt_key256_steps
  using assms by (intro conjI allI impI schedule_load_fips; (assumption | simp))

theorem key_schedules_fips_witness:
  "put_word (extract_encrypt_key128 (replicate 16 1) (replicate 44 0) ! 43) = fips_key 4 (replicate 16 1) 43
   \<and> put_word (extract_encrypt_key192 (replicate 24 2) (replicate 52 0) ! 51) = fips_key 6 (replicate 24 2) 51
   \<and> put_word (extract_encrypt_key256 (replicate 32 3) (replicate 60 0) ! 59) = fips_key 8 (replicate 32 3) 59"
  using key_schedules_fips [of "replicate 16 1" "replicate 24 2" "replicate 32 3"
      "replicate 44 0" "replicate 52 0" "replicate 60 0"] by simp

text \<open>
  C12. Encrypting a block with the tables and the expanded key of the code is the AES-256 cipher of
  FIPS-197, for every key and every block.
\<close>

theorem encrypt_block_is_aes256:
  assumes "length key = 32" "length ke = 60"
  shows "block_bytes (encrypt_block (extract_encrypt_key256 key ke) b)
    = fips_cipher 14 (fips_key 8 key) (block_bytes b)"
  by (rule encrypt_block_fips) (simp add: extract_encrypt_key256_fips assms)

theorem encrypt_block_is_aes256_witness:
  "block_bytes (encrypt_block (extract_encrypt_key256 (replicate 32 7) (replicate 60 0)) (1, 2, 3, 4))
    = fips_cipher 14 (fips_key 8 (replicate 32 7)) (block_bytes (1, 2, 3, 4))"
  by (rule encrypt_block_is_aes256) simp_all

text \<open>
  C32. With the decryption schedule that \<open>extract_decrypt_key\<close> derives from the expanded key, decrypting
  inverts encrypting, for every key and every block.
\<close>

theorem decrypt_block_inverts:
  assumes "length ke = 60"
  shows "decrypt_block (extract_decrypt_key (extract_encrypt_key256 key ke) 14)
           (encrypt_block (extract_encrypt_key256 key ke) b) = b"
  by (rule decrypt_encrypt_block) (simp add: assms)

theorem decrypt_block_inverts_witness:
  "decrypt_block (extract_decrypt_key (extract_encrypt_key256 (replicate 32 7) (replicate 60 0)) 14)
     (encrypt_block (extract_encrypt_key256 (replicate 32 7) (replicate 60 0)) (1, 2, 3, 4))
   = (1, 2, 3, 4)"
  by (rule decrypt_block_inverts) simp

end
