(* ===== verification/Block_Cipher.thy ===== *)
theory Block_Cipher
  imports Fips197
begin

text \<open>
  Cipher block chaining over an abstract block cipher, and the byte stream that both cipher objects
  implement: bytes arrive in portions of any length, whole blocks are transformed as soon as they are
  complete, and the rest waits. The interface \<open>block_cipher\<close> states what the mode needs of the
  cipher; it is interpreted on the block functions of \<open>Aes_Cipher\<close>.
\<close>

section \<open>Chaining\<close>

fun cbc_encrypt :: "(block \<Rightarrow> block) \<Rightarrow> block \<Rightarrow> block list \<Rightarrow> block list" where
  "cbc_encrypt e iv [] = []"
| "cbc_encrypt e iv (b # bs) = (let c = e (xor_block iv b) in c # cbc_encrypt e c bs)"

fun cbc_decrypt :: "(block \<Rightarrow> block) \<Rightarrow> block \<Rightarrow> block list \<Rightarrow> block list" where
  "cbc_decrypt d iv [] = []"
| "cbc_decrypt d iv (c # cs) = xor_block (d c) iv # cbc_decrypt d c cs"

lemma length_cbc_encrypt [simp]: "length (cbc_encrypt e iv bs) = length bs"
  by (induction bs arbitrary: iv) (simp_all add: Let_def)

lemma length_cbc_decrypt [simp]: "length (cbc_decrypt d iv cs) = length cs"
  by (induction cs arbitrary: iv) simp_all

lemma xor_block_cancel_left [simp]: "xor_block (xor_block k b) k = b"
  by (cases b; cases k) (simp add: xor.assoc xor.commute xor.left_commute)

locale block_cipher =
  fixes enc :: "'k \<Rightarrow> block \<Rightarrow> block"
    and dec :: "'k \<Rightarrow> block \<Rightarrow> block"
    and valid_key :: "'k \<Rightarrow> bool"
  assumes dec_enc: "valid_key k \<Longrightarrow> dec k (enc k b) = b"
begin

lemma cbc_inverse: "valid_key k \<Longrightarrow> cbc_decrypt (dec k) iv (cbc_encrypt (enc k) iv bs) = bs"
  by (induction bs arbitrary: iv) (simp_all add: Let_def dec_enc)

lemma cbc_encrypt_inj:
  assumes "valid_key k" "cbc_encrypt (enc k) iv bs = cbc_encrypt (enc k) iv bs'"
  shows "bs = bs'"
  using cbc_inverse [OF assms(1)] assms(2) by metis

end

definition valid_schedule :: "u32 list \<Rightarrow> bool" where
  "valid_schedule ke \<longleftrightarrow> length ke = 60"

interpretation aes: block_cipher encrypt_block "\<lambda>ke. decrypt_block (extract_decrypt_key ke 14)"
    valid_schedule
  by unfold_locales (simp add: valid_schedule_def decrypt_encrypt_block)

section \<open>Streams of bytes\<close>

text \<open>
  \<open>absorb f h (iv, out) p\<close> consumes whole blocks of \<open>p\<close> while more than \<open>h\<close> bytes follow them; \<open>f\<close>
  maps the chaining block and the input block to the output block and the next chaining block.
\<close>

function absorb ::
  "(block \<Rightarrow> block \<Rightarrow> block \<times> block) \<Rightarrow> nat \<Rightarrow> block \<times> byte list \<Rightarrow> byte list
     \<Rightarrow> block \<times> byte list \<times> byte list" where
  "absorb f h (iv, out) p =
     (if 16 + h \<le> length p
      then let (c, iv') = f iv (block_of_bytes (take 16 p))
           in absorb f h (iv', out @ block_bytes c) (drop 16 p)
      else (iv, out, p))"
  by pat_completeness auto
termination by (relation "measure (\<lambda>(_, _, _, p). length p)") auto

declare absorb.simps [simp del]

lemma absorb_short [simp]: "length p < 16 + h \<Longrightarrow> absorb f h (iv, out) p = (iv, out, p)"
  by (simp add: absorb.simps)

lemma absorb_block:
  "length b = 16 \<Longrightarrow> h \<le> length p \<Longrightarrow>
     absorb f h (iv, out) (b @ p) =
       absorb f h (snd (f iv (block_of_bytes b)), out @ block_bytes (fst (f iv (block_of_bytes b)))) p"
  by (subst absorb.simps) (simp add: split_beta)

lemma absorb_append:
  "absorb f h s p = (iv, out, q) \<Longrightarrow> absorb f h s (p @ d) = absorb f h (iv, out) (q @ d)"
proof (induction f h s p rule: absorb.induct)
  case (1 f h iv0 out0 p)
  show ?case
  proof (cases "16 + h \<le> length p")
    case True
    obtain c iv1 where c: "f iv0 (block_of_bytes (take 16 p)) = (c, iv1)"
      by (cases "f iv0 (block_of_bytes (take 16 p))") auto
    have "absorb f h (iv1, out0 @ block_bytes c) (drop 16 p) = (iv, out, q)"
      using "1.prems" True c by (simp add: absorb.simps [of f h iv0])
    then have "absorb f h (iv1, out0 @ block_bytes c) (drop 16 p @ d) = absorb f h (iv, out) (q @ d)"
      using "1.IH" [OF True c [symmetric] refl] by simp
    then show ?thesis
      using True c by (subst absorb.simps) simp
  next
    case False
    then show ?thesis using "1.prems" by simp
  qed
qed

lemma absorb_held:
  "absorb f h s p = (iv, out, q) \<Longrightarrow> absorb f 0 s p = absorb f 0 (iv, out) q"
proof (induction f h s p rule: absorb.induct)
  case (1 f h iv0 out0 p)
  show ?case
  proof (cases "16 + h \<le> length p")
    case True
    obtain c iv1 where c: "f iv0 (block_of_bytes (take 16 p)) = (c, iv1)"
      by (cases "f iv0 (block_of_bytes (take 16 p))") auto
    have "absorb f h (iv1, out0 @ block_bytes c) (drop 16 p) = (iv, out, q)"
      using "1.prems" True c by (simp add: absorb.simps [of f h iv0])
    then have "absorb f 0 (iv1, out0 @ block_bytes c) (drop 16 p) = absorb f 0 (iv, out) q"
      using "1.IH" [OF True c [symmetric] refl] by simp
    then show ?thesis
      using True c by (subst absorb.simps) simp
  next
    case False
    then show ?thesis using "1.prems" by simp
  qed
qed

lemma absorb_rest:
  "absorb f h s p = (iv, out, q) \<Longrightarrow> length q < 16 + h \<and> (length q + length out = length p + length (snd s))
    \<and> (\<exists>k. length p = 16 * k + length q) \<and> (h < length p \<longrightarrow> h \<le> length q)"
proof (induction f h s p rule: absorb.induct)
  case (1 f h iv0 out0 p)
  show ?case
  proof (cases "16 + h \<le> length p")
    case True
    obtain c iv1 where c: "f iv0 (block_of_bytes (take 16 p)) = (c, iv1)"
      by (cases "f iv0 (block_of_bytes (take 16 p))") auto
    have a: "absorb f h (iv1, out0 @ block_bytes c) (drop 16 p) = (iv, out, q)"
      using "1.prems" True c by (simp add: absorb.simps [of f h iv0])
    have IH: "length q < 16 + h \<and> length q + length out = length (drop 16 p) + length (snd (iv1, out0 @ block_bytes c))
      \<and> (\<exists>k. length (drop 16 p) = 16 * k + length q) \<and> (h < length (drop 16 p) \<longrightarrow> h \<le> length q)"
      using "1.IH" [OF True c [symmetric] refl] a by simp
    obtain k where "length (drop 16 p) = 16 * k + length q" using IH by blast
    then have "length p = 16 * Suc k + length q" using True by simp
    moreover have "h \<le> length q"
    proof (cases "h < length (drop 16 p)")
      case False
      then have "drop 16 p = q" "length (drop 16 p) = h"
        using a True by auto
      then show ?thesis by auto
    qed (use IH in simp)
    ultimately have "\<exists>k. length p = 16 * k + length q" "h \<le> length q" by blast+
    then show ?thesis using IH True by simp
  next
    case False
    then show ?thesis using "1.prems" by auto
  qed
qed

definition cbc_enc_step :: "(block \<Rightarrow> block) \<Rightarrow> block \<Rightarrow> block \<Rightarrow> block \<times> block" where
  "cbc_enc_step e iv b = (let c = e (xor_block iv b) in (c, c))"

definition cbc_dec_step :: "(block \<Rightarrow> block) \<Rightarrow> block \<Rightarrow> block \<Rightarrow> block \<times> block" where
  "cbc_dec_step d iv c = (xor_block (d c) iv, c)"

abbreviation bytes_of_blocks :: "block list \<Rightarrow> byte list" where
  "bytes_of_blocks bs \<equiv> concat (map block_bytes bs)"

function blocks_of :: "byte list \<Rightarrow> block list" where
  "blocks_of p = (if 16 \<le> length p then block_of_bytes (take 16 p) # blocks_of (drop 16 p) else [])"
  by pat_completeness auto
termination by (relation "measure length") auto

declare blocks_of.simps [simp del]

lemma blocks_of_Nil [simp]: "blocks_of [] = []"
  by (simp add: blocks_of.simps)

lemma blocks_of_block [simp]: "blocks_of (block_bytes b @ p) = b # blocks_of p"
  by (simp add: blocks_of.simps [of "block_bytes b @ p"])

lemma blocks_of_bytes [simp]: "blocks_of (bytes_of_blocks bs) = bs"
  by (induction bs) simp_all

lemma length_bytes_of_blocks [simp]: "length (bytes_of_blocks bs) = 16 * length bs"
  by (induction bs) simp_all

lemma bytes_of_blocks_of: "length p = 16 * n \<Longrightarrow> bytes_of_blocks (blocks_of p) = p"
proof (induction n arbitrary: p)
  case 0
  then show ?case by simp
next
  case (Suc n)
  have "length (drop 16 p) = 16 * n" "length (take 16 p) = 16" using Suc.prems by simp_all
  then show ?case
    using Suc by (subst blocks_of.simps) simp
qed

lemma absorb_cbc_enc:
  "absorb (cbc_enc_step e) 0 (iv, out) (bytes_of_blocks bs) =
     (last (iv # cbc_encrypt e iv bs), out @ bytes_of_blocks (cbc_encrypt e iv bs), [])"
  by (induction bs arbitrary: iv out) (simp_all add: absorb_block cbc_enc_step_def Let_def)

lemma absorb_cbc_dec:
  "absorb (cbc_dec_step d) 0 (iv, out) (bytes_of_blocks cs) =
     (last (iv # cs), out @ bytes_of_blocks (cbc_decrypt d iv cs), [])"
  by (induction cs arbitrary: iv out) (simp_all add: absorb_block cbc_dec_step_def)

section \<open>Padding\<close>

text \<open>PKCS#7: \<open>n\<close> bytes of value \<open>n\<close>, up to the next multiple of 16, at least one.\<close>

definition pkcs7_pad :: "byte list \<Rightarrow> byte list" where
  "pkcs7_pad data = data @ (let n = 16 - length data mod 16 in replicate n (of_nat n))"

text \<open>RFC 2246: \<open>n\<close> bytes of value \<open>n - 1\<close>, up to a multiple of 16 and \<open>extra\<close> more blocks.\<close>

definition rfc2246_pad :: "nat \<Rightarrow> byte list \<Rightarrow> byte list" where
  "rfc2246_pad extra data =
     data @ (let n = 16 - length data mod 16 + 16 * extra in replicate n (of_nat (n - 1)))"

lemma length_pkcs7_pad: "length (pkcs7_pad data) = 16 * (length data div 16 + 1)"
proof -
  have "length data mod 16 < 16" "length data = 16 * (length data div 16) + length data mod 16"
    by simp_all
  then show ?thesis unfolding pkcs7_pad_def Let_def length_append length_replicate by presburger
qed

lemma length_rfc2246_pad: "length (rfc2246_pad n data) = 16 * (length data div 16 + 1 + n)"
proof -
  have "length data mod 16 < 16" "length data = 16 * (length data div 16) + length data mod 16"
    by simp_all
  then show ?thesis unfolding rfc2246_pad_def Let_def length_append length_replicate by presburger
qed

section \<open>Filling a chunk\<close>

text \<open>
  Both objects copy their input into a chunk of 16 bytes, at most \<open>min (16 - f) (sz - pos)\<close> bytes per
  iteration: an iteration advances, or it found the chunk full and empties it.
\<close>

lemma loop_measure:
  assumes "pos < sz" "f \<le> 16" "g = 16 \<Longrightarrow> sz \<le> pos + min (16 - f) (sz - pos)"
  shows "2 * (sz - (pos + min (16 - f) (sz - pos))) + (if g = (16 :: nat) then 1 else 0)
    < 2 * (sz - pos) + (if f = 16 then 1 else (0 :: nat))"
proof (cases "f = 16")
  case True
  then have "g \<noteq> 16" using assms by auto
  then show ?thesis using True by simp
next
  case False
  then have "0 < min (16 - f) (sz - pos)" "min (16 - f) (sz - pos) \<le> sz - pos"
    using assms by simp_all
  then show ?thesis by (cases "g = 16") (auto simp: False)
qed

end
