(* ===== verification/Aes256_Encrypt.thy ===== *)
theory Aes256_Encrypt
  imports Block_Cipher
begin

text \<open>
  The object \<^verbatim>\<open>AES256_Encrypt_Impl\<close> (\<^verbatim>\<open>VFSCryptLib/src/aes256_encrypt.cpp\<close>): chaining blocks, a partial
  chunk, flags, and the output buffer. Its methods return \<open>Inl\<close> of the thrown exception or \<open>Inr\<close> of
  the result, with the state the object is left in. The constructor leaves the expanded key and the
  chaining blocks uninitialised; what memory held is an argument. A C \<^verbatim>\<open>int\<close> that counts bytes of the
  chunk or of the input is a \<open>nat\<close>, the size argument of \<^verbatim>\<open>add\<close> an \<open>int\<close> that may be negative.

  The lemmas relate the object to \<open>absorb\<close> of \<open>Block_Cipher\<close> (\<open>enc_view\<close> is the abstraction) and give the
  output of a whole run: the AES-256 CBC encryption of the padded input.
\<close>

section \<open>Exceptions\<close>

datatype crypt_error =
  Iv_not_set
| Key_not_set
| Padding_blocks_out_of_range
| Block_size_required

section \<open>The object\<close>

record AES256_Encrypt_Impl =
  enc_key_expanded :: "u32 list"
  enc_chunk :: "byte list"
  enc_iv :: block
  enc_chunk_filled :: nat
  enc_iv_set :: bool
  enc_key_set :: bool
  enc_calculated :: bool
  enc_padding_enabled :: bool
  enc_padding_pkcs7 :: bool
  enc_padding_blocks :: nat
  enc_databuffer :: DataBuffer_Impl

definition enc_reset :: "AES256_Encrypt_Impl \<Rightarrow> AES256_Encrypt_Impl" where
  "enc_reset st = st\<lparr>enc_calculated := False, enc_chunk := replicate 16 0, enc_chunk_filled := 0,
                     enc_databuffer := set_size 0 (enc_databuffer st)\<rparr>"

definition AES256_Encrypt_Impl_new :: "u32 list \<Rightarrow> block \<Rightarrow> byte list \<Rightarrow> AES256_Encrypt_Impl" where
  "AES256_Encrypt_Impl_new junk_key junk_iv junk_chunk =
     enc_reset \<lparr>enc_key_expanded = junk_key, enc_chunk = junk_chunk, enc_iv = junk_iv,
                enc_chunk_filled = 0, enc_iv_set = False, enc_key_set = False,
                enc_calculated = False, enc_padding_enabled = True, enc_padding_pkcs7 = True,
                enc_padding_blocks = 0, enc_databuffer = DataBuffer_Impl_new\<rparr>"

definition enc_get_data :: "AES256_Encrypt_Impl \<Rightarrow> DataBuffer_Impl" where
  "enc_get_data st = enc_databuffer st"

definition enc_set_iv :: "byte list \<Rightarrow> AES256_Encrypt_Impl \<Rightarrow> AES256_Encrypt_Impl" where
  "enc_set_iv iv st =
     st\<lparr>enc_iv := (get_word iv, get_word (drop 4 iv), get_word (drop 8 iv), get_word (drop 12 iv)),
        enc_iv_set := True\<rparr>"

definition enc_set_padding ::
  "bool \<Rightarrow> bool \<Rightarrow> nat \<Rightarrow> AES256_Encrypt_Impl \<Rightarrow> (crypt_error + unit) \<times> AES256_Encrypt_Impl" where
  "enc_set_padding v use_pkcs7 num_blocks st =
     (let st = st\<lparr>enc_padding_enabled := v, enc_padding_pkcs7 := use_pkcs7,
                  enc_padding_blocks := num_blocks\<rparr>
      in if enc_padding_blocks st > 15 then (Inl Padding_blocks_out_of_range, st) else (Inr (), st))"

definition enc_set_key :: "byte list \<Rightarrow> AES256_Encrypt_Impl \<Rightarrow> AES256_Encrypt_Impl" where
  "enc_set_key key st =
     st\<lparr>enc_key_set := True, enc_key_expanded := extract_encrypt_key256 key (enc_key_expanded st)\<rparr>"

definition enc_process_chunk :: "AES256_Encrypt_Impl \<Rightarrow> AES256_Encrypt_Impl" where
  "enc_process_chunk st =
     (let s = encrypt_block (enc_key_expanded st)
                (xor_block (enc_iv st) (block_of_bytes (enc_chunk st)))
      in case s of (s0, s1, s2, s3) \<Rightarrow>
           st\<lparr>enc_databuffer := store_block s0 s1 s2 s3 (enc_databuffer st), enc_iv := s\<rparr>)"

text \<open>
  The loop of \<^verbatim>\<open>add\<close>. With more than 16 bytes in the chunk the copy would run past it; no method
  leaves the object so (\<open>enc_ok\<close>), and the loop is given no further iteration there.
\<close>

function enc_add_loop ::
  "byte list \<Rightarrow> nat \<Rightarrow> nat \<Rightarrow> AES256_Encrypt_Impl \<Rightarrow> AES256_Encrypt_Impl" where
  "enc_add_loop data sz pos st =
     (if pos < sz \<and> enc_chunk_filled st \<le> 16
      then let data_left = sz - pos;
               buffer_space = 16 - enc_chunk_filled st;
               data_used = min buffer_space data_left;
               st = st\<lparr>enc_chunk := overwrite (enc_chunk_filled st) (slice pos data_used data)
                                      (enc_chunk st),
                       enc_chunk_filled := enc_chunk_filled st + data_used\<rparr>;
               pos = pos + data_used;
               st = (if enc_chunk_filled st = 16
                     then (enc_process_chunk st)\<lparr>enc_chunk_filled := 0\<rparr> else st)
           in enc_add_loop data sz pos st
      else st)"
  by pat_completeness auto
termination
  by (relation "measure (\<lambda>(_, sz, pos, st).
        2 * (sz - pos) + (if enc_chunk_filled st = 16 then 1 else 0))",
      simp, hypsubst, simp only: in_measure prod.case, rule loop_measure)
    (auto split: if_splits)

declare enc_add_loop.simps [simp del]

definition enc_add ::
  "byte list \<Rightarrow> int \<Rightarrow> AES256_Encrypt_Impl \<Rightarrow> (crypt_error + unit) \<times> AES256_Encrypt_Impl" where
  "enc_add data sz st =
     (let st = (if enc_calculated st then enc_reset st else st)
      in if \<not> enc_iv_set st then (Inl Iv_not_set, st)
         else if \<not> enc_key_set st then (Inl Key_not_set, st)
         else (Inr (), enc_add_loop data (nat sz) 0 st))"

definition enc_calculate ::
  "AES256_Encrypt_Impl \<Rightarrow> (crypt_error + unit) \<times> AES256_Encrypt_Impl" where
  "enc_calculate st =
     (let st = (if enc_calculated st then enc_reset st else st);
          finish = (\<lambda>st. (Inr (), st\<lparr>enc_calculated := True, enc_iv_set := False,
                       enc_key_set := False, enc_key_expanded := replicate 60 0\<rparr>))
      in if enc_padding_enabled st
         then if enc_padding_pkcs7 st
              then let pad_size = 16 - enc_chunk_filled st;
                       st = st\<lparr>enc_chunk := overwrite (enc_chunk_filled st)
                                (replicate pad_size (of_nat pad_size)) (enc_chunk st)\<rparr>;
                       st = (enc_process_chunk st)\<lparr>enc_chunk_filled := 0\<rparr>
                   in finish st
              else let pad_size = 16 - enc_chunk_filled st + 16 * enc_padding_blocks st
                   in case enc_add (replicate pad_size (of_nat (pad_size - 1))) (int pad_size) st of
                        (Inl e, st) \<Rightarrow> (Inl e, st)
                      | (Inr _, st) \<Rightarrow> finish st
         else if enc_chunk_filled st > 0 then (Inl Block_size_required, st)
         else finish st)"

section \<open>Storing blocks\<close>

lemma store_block_contents:
  assumes "buffer_ok db" "length (contents db) + 16 < 2 ^ 32"
  shows "contents (store_block s0 s1 s2 s3 db) = contents db @ block_bytes (s0, s1, s2, s3)"
    and "buffer_ok (store_block s0 s1 s2 s3 db)"
proof -
  define db1 where "db1 = (if sint (get_capacity db - get_size db) < 16
     then set_capacity (get_capacity db + 1024) db else db)"
  have ok1: "buffer_ok db1" and c1: "contents db1 = contents db"
    using assms(1) by (auto simp: db1_def buf.inv_reserve buf.bytes_reserve)
  have len: "length (contents db) = unat (get_size db)" using assms(1) by (rule length_contents)
  then have n: "unat (get_size db + 16) = length (contents db1) + length (block_bytes (s0, s1, s2, s3))"
    using assms(2) by (simp add: c1 unat_word_ariths)
  have st: "store_block s0 s1 s2 s3 db
      = write_at (length (contents db1)) (block_bytes (s0, s1, s2, s3)) (set_size (get_size db + 16) db1)"
    using len by (simp add: store_block_def Let_def db1_def [symmetric] c1)
  show "contents (store_block s0 s1 s2 s3 db) = contents db @ block_bytes (s0, s1, s2, s3)"
    using buf.append_bytes(1) [OF ok1 n] by (simp add: st c1)
  show "buffer_ok (store_block s0 s1 s2 s3 db)"
    using buf.append_bytes(2) [OF ok1 n] by (simp add: st)
qed

section \<open>The object as a stream\<close>

definition enc_ok :: "AES256_Encrypt_Impl \<Rightarrow> bool" where
  "enc_ok st \<longleftrightarrow> length (enc_key_expanded st) = 60 \<and> length (enc_chunk st) = 16
     \<and> enc_chunk_filled st < 16 \<and> enc_padding_blocks st \<le> 15 \<and> buffer_ok (enc_databuffer st)"

definition enc_out :: "AES256_Encrypt_Impl \<Rightarrow> byte list" where
  "enc_out st = contents (enc_databuffer st)"

definition enc_pending :: "AES256_Encrypt_Impl \<Rightarrow> byte list" where
  "enc_pending st = take (enc_chunk_filled st) (enc_chunk st)"

definition enc_view :: "AES256_Encrypt_Impl \<Rightarrow> block \<times> byte list \<times> byte list" where
  "enc_view st = (enc_iv st, enc_out st, enc_pending st)"

definition enc_fun :: "AES256_Encrypt_Impl \<Rightarrow> block \<Rightarrow> block \<Rightarrow> block \<times> block" where
  "enc_fun st = cbc_enc_step (encrypt_block (enc_key_expanded st))"

definition enc_config ::
  "AES256_Encrypt_Impl \<Rightarrow> u32 list \<times> bool \<times> bool \<times> bool \<times> bool \<times> bool \<times> nat" where
  "enc_config st = (enc_key_expanded st, enc_iv_set st, enc_key_set st, enc_calculated st,
     enc_padding_enabled st, enc_padding_pkcs7 st, enc_padding_blocks st)"

lemma enc_process_chunk_view:
  assumes "length (enc_chunk st) = 16" "buffer_ok (enc_databuffer st)" "length (enc_out st) + 16 < 2 ^ 32"
  shows "enc_iv (enc_process_chunk st) = snd (enc_fun st (enc_iv st) (block_of_bytes (enc_chunk st)))"
    and "enc_out (enc_process_chunk st)
      = enc_out st @ block_bytes (fst (enc_fun st (enc_iv st) (block_of_bytes (enc_chunk st))))"
    and "buffer_ok (enc_databuffer (enc_process_chunk st))"
    and "enc_chunk (enc_process_chunk st) = enc_chunk st"
    and "enc_config (enc_process_chunk st) = enc_config st"
  using assms store_block_contents [of "enc_databuffer st"]
  by (simp_all add: enc_process_chunk_def enc_out_def enc_fun_def cbc_enc_step_def enc_config_def
      Let_def split: prod.splits)

lemma enc_configD:
  assumes "enc_config st = enc_config st'"
  shows "enc_fun st = enc_fun st'" "enc_key_expanded st = enc_key_expanded st'"
    "enc_iv_set st = enc_iv_set st'" "enc_key_set st = enc_key_set st'"
    "enc_calculated st = enc_calculated st'" "enc_padding_enabled st = enc_padding_enabled st'"
    "enc_padding_pkcs7 st = enc_padding_pkcs7 st'" "enc_padding_blocks st = enc_padding_blocks st'"
  using assms by (simp_all add: enc_config_def enc_fun_def)

text \<open>One iteration of the loop: \<open>k\<close> more bytes, and a transformed block when they complete one.\<close>

definition enc_take :: "byte list \<Rightarrow> AES256_Encrypt_Impl \<Rightarrow> AES256_Encrypt_Impl" where
  "enc_take bs st =
     (let st = st\<lparr>enc_chunk := overwrite (enc_chunk_filled st) bs (enc_chunk st),
                  enc_chunk_filled := enc_chunk_filled st + length bs\<rparr>
      in if enc_chunk_filled st = 16 then (enc_process_chunk st)\<lparr>enc_chunk_filled := 0\<rparr> else st)"

lemma enc_take_view:
  assumes ok: "enc_ok st" and k: "enc_chunk_filled st + length bs \<le> 16"
    and room: "length (enc_out st) + 16 < 2 ^ 32"
  shows "enc_ok (enc_take bs st) \<and> enc_config (enc_take bs st) = enc_config st
    \<and> enc_view (enc_take bs st) = absorb (enc_fun st) 0 (enc_iv st, enc_out st) (enc_pending st @ bs)
    \<and> length (enc_out (enc_take bs st)) + length (enc_pending (enc_take bs st))
        = length (enc_out st) + length (enc_pending st) + length bs"
proof -
  define st1 where "st1 = st\<lparr>enc_chunk := overwrite (enc_chunk_filled st) bs (enc_chunk st),
                  enc_chunk_filled := enc_chunk_filled st + length bs\<rparr>"
  have pend: "enc_pending st1 = enc_pending st @ bs"
    using ok k take_overwrite [of "enc_chunk_filled st" "enc_chunk st" bs]
    by (simp add: enc_pending_def st1_def enc_ok_def)
  have chunk: "length (enc_chunk st1) = 16"
    using ok k by (simp add: st1_def enc_ok_def length_overwrite)
  have cfg: "enc_config st1 = enc_config st" by (simp add: enc_config_def st1_def)
  have io: "enc_iv st1 = enc_iv st" "enc_out st1 = enc_out st" "buffer_ok (enc_databuffer st1)"
    using ok by (simp_all add: st1_def enc_out_def enc_ok_def)
  have take: "enc_take bs st = (if enc_chunk_filled st1 = 16
      then (enc_process_chunk st1)\<lparr>enc_chunk_filled := 0\<rparr> else st1)"
    by (simp add: enc_take_def st1_def Let_def)
  show ?thesis
  proof (cases "enc_chunk_filled st1 = 16")
    case True
    then have b: "enc_chunk st1 = enc_pending st @ bs"
      using pend chunk by (simp add: enc_pending_def)
    note pc = enc_process_chunk_view [OF chunk io(3), unfolded io, OF room]
    have "length (enc_pending st @ bs) = 16" using b chunk by simp
    then show ?thesis
      using ok pc absorb_block [of "enc_pending st @ bs" 0 "[]" "enc_fun st" "enc_iv st" "enc_out st"] chunk enc_configD [OF cfg]
        enc_configD [OF pc(5)] cfg
      by (simp add: take True enc_ok_def enc_view_def b enc_config_def enc_out_def enc_pending_def)
  next
    case False
    then have "length (enc_pending st @ bs) < 16"
      using k ok by (simp add: pend [symmetric] enc_pending_def st1_def enc_ok_def)
    moreover have "enc_ok st1"
      using False ok k chunk io by (auto simp: enc_ok_def st1_def)
    ultimately show ?thesis
      using False cfg io pend by (simp add: take enc_view_def)
  qed
qed

lemma enc_add_loop_view:
  assumes "enc_ok st" "pos \<le> sz" "sz \<le> length data"
    and "length (enc_out st) + length (enc_pending st) + (sz - pos) + 16 < 2 ^ 32"
  shows "enc_ok (enc_add_loop data sz pos st) \<and> enc_config (enc_add_loop data sz pos st) = enc_config st
    \<and> enc_view (enc_add_loop data sz pos st)
      = absorb (enc_fun st) 0 (enc_iv st, enc_out st) (enc_pending st @ slice pos (sz - pos) data)"
  using assms
proof (induction "sz - pos" arbitrary: pos st rule: less_induct)
  case less
  show ?case
  proof (cases "pos < sz")
    case False
    then have "enc_add_loop data sz pos st = st" by (subst enc_add_loop.simps) simp
    moreover have "length (enc_pending st) < 16" using less.prems by (simp add: enc_ok_def enc_pending_def)
    ultimately show ?thesis
      using less.prems False by (simp add: enc_view_def slice_def)
  next
    case True
    define k where "k = min (16 - enc_chunk_filled st) (sz - pos)"
    have filled: "enc_chunk_filled st < 16" using less.prems by (simp add: enc_ok_def)
    have len: "length (slice pos k data) = k"
      using less.prems True by (simp add: length_slice k_def)
    let ?st = "enc_take (slice pos k data) st"
    have loop: "enc_add_loop data sz pos st = enc_add_loop data sz (pos + k) ?st"
      unfolding enc_add_loop.simps [of data sz pos st] enc_take_def len Let_def
      by (simp only: k_def [symmetric] True less_imp_le [OF filled] simp_thms if_True)
    have fits: "enc_chunk_filled st + length (slice pos k data) \<le> 16"
      unfolding len using filled by (simp add: k_def)
    have room: "length (enc_out st) + 16 < 2 ^ 32" using less.prems(4) by linarith
    have t: "enc_ok ?st" "enc_config ?st = enc_config st"
      "enc_view ?st = absorb (enc_fun st) 0 (enc_iv st, enc_out st) (enc_pending st @ slice pos k data)"
      "length (enc_out ?st) + length (enc_pending ?st) = length (enc_out st) + length (enc_pending st) + k"
      using enc_take_view [OF less.prems(1) fits room] by (simp_all only: len)
    have k: "k \<le> sz - pos" "pos + k \<le> sz" "0 < k" using True filled by (simp_all add: k_def)
    have IH: "enc_ok (enc_add_loop data sz (pos + k) ?st)
      \<and> enc_config (enc_add_loop data sz (pos + k) ?st) = enc_config ?st
      \<and> enc_view (enc_add_loop data sz (pos + k) ?st)
        = absorb (enc_fun ?st) 0 (enc_iv ?st, enc_out ?st)
            (enc_pending ?st @ slice (pos + k) (sz - (pos + k)) data)"
      by (rule less.hyps) (use t(1,4) k less.prems in linarith)+
    have "slice pos (sz - pos) data = slice pos k data @ slice (pos + k) (sz - (pos + k)) data"
      using slice_split [OF k(1), of pos data] by simp
    moreover have "absorb (enc_fun st) 0 (enc_iv st, enc_out st)
        ((enc_pending st @ slice pos k data) @ slice (pos + k) (sz - (pos + k)) data)
      = absorb (enc_fun st) 0 (enc_iv ?st, enc_out ?st)
          (enc_pending ?st @ slice (pos + k) (sz - (pos + k)) data)"
      by (rule absorb_append) (use t(3) in \<open>simp only: enc_view_def\<close>)
    ultimately show ?thesis
      using IH unfolding loop t(2) enc_configD(1) [OF t(2)] by (simp only: append_assoc simp_thms)
  qed
qed

lemma enc_ok_reset: "enc_ok st \<Longrightarrow> enc_ok (enc_reset st)"
  by (simp add: enc_ok_def enc_reset_def buf.inv_resize)

lemma enc_out_reset [simp]: "enc_out (enc_reset st) = []" "enc_pending (enc_reset st) = []"
  by (simp_all add: enc_out_def enc_pending_def enc_reset_def contents_def set_size_def)

lemma enc_ok_new:
  "length junk_key = 60 \<Longrightarrow> enc_ok (AES256_Encrypt_Impl_new junk_key junk_iv junk_chunk)"
  by (simp add: enc_ok_def enc_reset_def AES256_Encrypt_Impl_new_def buf.inv_resize)

lemma enc_ok_setters:
  "enc_ok st \<Longrightarrow> enc_ok (enc_set_iv iv st)"
  "enc_ok st \<Longrightarrow> enc_ok (enc_set_key key st)"
  by (simp_all add: enc_ok_def enc_set_iv_def enc_set_key_def)

section \<open>Adding and finishing\<close>

definition enc_ready :: "AES256_Encrypt_Impl \<Rightarrow> bool" where
  "enc_ready st \<longleftrightarrow> enc_ok st \<and> \<not> enc_calculated st \<and> enc_iv_set st \<and> enc_key_set st"

text \<open>What the finished object holds: the flags and the key are cleared, nothing is pending.\<close>

definition enc_finished :: "AES256_Encrypt_Impl \<Rightarrow> bool" where
  "enc_finished st \<longleftrightarrow> enc_calculated st \<and> \<not> enc_iv_set st \<and> \<not> enc_key_set st
     \<and> enc_key_expanded st = replicate 60 0 \<and> enc_chunk_filled st = 0"

lemma enc_add_view:
  assumes "enc_ready st"
    and "length (enc_out st) + length (enc_pending st) + length data + 16 < 2 ^ 32"
  obtains st' where "enc_add data (int (length data)) st = (Inr (), st')" "enc_ready st'"
    "enc_config st' = enc_config st"
    "enc_view st' = absorb (enc_fun st) 0 (enc_iv st, enc_out st) (enc_pending st @ data)"
proof
  let ?st' = "enc_add_loop data (length data) 0 st"
  have *: "enc_ok ?st' \<and> enc_config ?st' = enc_config st
    \<and> enc_view ?st' = absorb (enc_fun st) 0 (enc_iv st, enc_out st) (enc_pending st @ data)"
    using enc_add_loop_view [of st 0 "length data" data] assms by (simp add: enc_ready_def)
  show "enc_add data (int (length data)) st = (Inr (), ?st')"
    using assms(1) by (simp add: enc_add_def enc_ready_def)
  show "enc_ready ?st'" "enc_config ?st' = enc_config st"
    "enc_view ?st' = absorb (enc_fun st) 0 (enc_iv st, enc_out st) (enc_pending st @ data)"
    using * assms(1) enc_configD [of ?st' st] by (simp_all add: enc_ready_def)
qed

definition enc_padding :: "AES256_Encrypt_Impl \<Rightarrow> byte list" where
  "enc_padding st =
     (let p = 16 - enc_chunk_filled st
      in if \<not> enc_padding_enabled st then []
         else if enc_padding_pkcs7 st then replicate p (of_nat p)
         else let n = p + 16 * enc_padding_blocks st in replicate n (of_nat (n - 1)))"

lemma enc_process_chunk_filled:
  "(enc_process_chunk (st\<lparr>enc_chunk_filled := n\<rparr>))\<lparr>enc_chunk_filled := 0\<rparr>
    = (enc_process_chunk st)\<lparr>enc_chunk_filled := 0\<rparr>"
  by (simp add: enc_process_chunk_def Let_def split: prod.splits)

lemma enc_calculate_view:
  assumes ready: "enc_ready st" and room: "length (enc_out st) + 512 < 2 ^ 32"
    and pad: "enc_padding_enabled st \<or> enc_chunk_filled st = 0"
  obtains st' where "enc_calculate st = (Inr (), st')" "enc_finished st'"
    "absorb (enc_fun st) 0 (enc_iv st, enc_out st) (enc_pending st @ enc_padding st)
      = (enc_iv st', enc_out st', [])" "buffer_ok (enc_databuffer st')"
proof -
  note that' = that
  define fin :: "AES256_Encrypt_Impl \<Rightarrow> AES256_Encrypt_Impl" where "fin = (\<lambda>st. st\<lparr>enc_calculated := True, enc_iv_set := False,
    enc_key_set := False, enc_key_expanded := replicate 60 0\<rparr>)"
  have fin: "enc_iv (fin s) = enc_iv s" "enc_out (fin s) = enc_out s"
    "enc_databuffer (fin s) = enc_databuffer s"
    "enc_finished (fin s) \<longleftrightarrow> enc_chunk_filled s = 0" for s
    by (simp_all add: fin_def enc_out_def enc_finished_def)
  have ok: "enc_ok st" and nc: "\<not> enc_calculated st" and filled: "enc_chunk_filled st < 16"
    and plen: "length (enc_pending st) = enc_chunk_filled st" and blocks: "enc_padding_blocks st \<le> 15"
    using ready by (auto simp: enc_ready_def enc_ok_def enc_pending_def)
  have goal: thesis if calc: "enc_calculate st = (Inr (), fin s)" and ok': "enc_ok s"
    and view: "enc_view s = absorb (enc_fun st) 0 (enc_iv st, enc_out st) (enc_pending st @ enc_padding st)"
    and div: "16 dvd length (enc_pending st @ enc_padding st)" for s
  proof -
    obtain n where n: "length (enc_pending st @ enc_padding st) = 16 * n" using div by (elim dvdE)
    note a = view [unfolded enc_view_def, symmetric]
    obtain k where "16 * n = 16 * k + length (enc_pending s)" "length (enc_pending s) < 16"
      using absorb_rest [OF a] n by auto
    then have "length (enc_pending s) = 0" by presburger
    moreover have "enc_chunk_filled s = length (enc_pending s)"
      using ok' by (simp add: enc_pending_def enc_ok_def)
    ultimately show thesis
      using calc ok' a by (intro that' [of "fin s"]) (simp_all add: fin enc_ok_def)
  qed
  show thesis
  proof (cases "enc_padding_enabled st \<and> \<not> enc_padding_pkcs7 st")
    case True
    let ?n = "16 - enc_chunk_filled st + 16 * enc_padding_blocks st"
    have p: "enc_padding st = replicate ?n (of_nat (?n - 1))"
      using True by (simp add: enc_padding_def Let_def)
    obtain s where s: "enc_add (enc_padding st) (int (length (enc_padding st))) st = (Inr (), s)"
      "enc_ready s"
      "enc_view s = absorb (enc_fun st) 0 (enc_iv st, enc_out st) (enc_pending st @ enc_padding st)"
      using enc_add_view [OF ready, of "enc_padding st"] room filled plen blocks by (auto simp: p)
    show thesis
    proof (rule goal [OF _ _ s(3)])
      show "enc_calculate st = (Inr (), fin s)"
        using nc True s(1) by (simp add: enc_calculate_def p fin_def Let_def)
      have "length (enc_pending st @ enc_padding st) = 16 * (1 + enc_padding_blocks st)"
        using filled by (simp add: p plen)
      then show "16 dvd length (enc_pending st @ enc_padding st)" by simp
    qed (use s(2) in \<open>simp add: enc_ready_def\<close>)
  next
    case False
    define s where "s = (if enc_padding_enabled st then enc_take (enc_padding st) st else st)"
    have p: "length (enc_padding st) = (if enc_padding_enabled st then 16 - enc_chunk_filled st else 0)"
      using False by (auto simp: enc_padding_def Let_def)
    show thesis
    proof (rule goal)
      show "enc_calculate st = (Inr (), fin s)"
        using nc False pad filled
        by (auto simp: enc_calculate_def s_def fin_def enc_take_def enc_padding_def Let_def
            enc_process_chunk_filled)
      show "16 dvd length (enc_pending st @ enc_padding st)"
        using pad filled by (auto simp: p plen)
      have "enc_ok s \<and> enc_view s
          = absorb (enc_fun st) 0 (enc_iv st, enc_out st) (enc_pending st @ enc_padding st)"
      proof (cases "enc_padding_enabled st")
        case True
        then show ?thesis
          using enc_take_view [of st "enc_padding st"] ready room filled
          by (simp add: s_def p enc_ready_def)
      next
        case False
        then show ?thesis
          using ready filled pad plen by (simp add: s_def enc_ready_def enc_view_def enc_padding_def)
      qed
      then show "enc_ok s" "enc_view s
          = absorb (enc_fun st) 0 (enc_iv st, enc_out st) (enc_pending st @ enc_padding st)" by auto
    qed
  qed
qed

section \<open>A whole run\<close>

text \<open>A caller that adds its data in portions, and one that then finishes.\<close>

fun enc_add_all ::
  "byte list list \<Rightarrow> AES256_Encrypt_Impl \<Rightarrow> (crypt_error + unit) \<times> AES256_Encrypt_Impl" where
  "enc_add_all [] st = (Inr (), st)"
| "enc_add_all (d # ds) st =
     (case enc_add d (int (length d)) st of
        (Inl e, st) \<Rightarrow> (Inl e, st)
      | (Inr _, st) \<Rightarrow> enc_add_all ds st)"

definition enc_session ::
  "byte list \<Rightarrow> byte list \<Rightarrow> byte list list \<Rightarrow> AES256_Encrypt_Impl
     \<Rightarrow> (crypt_error + unit) \<times> AES256_Encrypt_Impl" where
  "enc_session key iv portions st =
     (case enc_add_all portions (enc_set_key key (enc_set_iv iv st)) of
        (Inl e, st) \<Rightarrow> (Inl e, st)
      | (Inr _, st) \<Rightarrow> enc_calculate st)"

definition aes256_cbc_encrypt :: "byte list \<Rightarrow> byte list \<Rightarrow> byte list \<Rightarrow> byte list" where
  "aes256_cbc_encrypt key iv padded =
     bytes_of_blocks (cbc_encrypt (\<lambda>b. block_of_bytes (fips_cipher 14 (fips_key 8 key) (block_bytes b)))
       (block_of_bytes iv) (blocks_of padded))"

lemma aes256_cbc_encrypt_code:
  assumes "length key = 32" "length ke = 60"
  shows "aes256_cbc_encrypt key iv padded = bytes_of_blocks
    (cbc_encrypt (encrypt_block (extract_encrypt_key256 key ke)) (block_of_bytes iv) (blocks_of padded))"
proof -
  have "(\<lambda>b. block_of_bytes (fips_cipher 14 (fips_key 8 key) (block_bytes b)))
      = encrypt_block (extract_encrypt_key256 key ke)"
    using encrypt_block_fips [OF extract_encrypt_key256_fips [OF assms, symmetric]]
    by (intro ext) (metis block_of_block_bytes)
  then show ?thesis by (simp add: aes256_cbc_encrypt_def)
qed

definition pad_bytes :: "bool \<Rightarrow> nat \<Rightarrow> byte list \<Rightarrow> byte list" where
  "pad_bytes use_pkcs7 extra data = (if use_pkcs7 then pkcs7_pad data else rfc2246_pad extra data)"

lemma length_pad_bytes_dvd: "16 dvd length (pad_bytes p n data)"
  by (simp add: pad_bytes_def length_pkcs7_pad length_rfc2246_pad)

lemma enc_add_all_view:
  assumes "enc_ready st"
    and "length (enc_out st) + length (enc_pending st) + length (concat ds) + 16 < 2 ^ 32"
  shows "\<exists>st'. enc_add_all ds st = (Inr (), st') \<and> enc_ready st' \<and> enc_config st' = enc_config st
    \<and> enc_view st' = absorb (enc_fun st) 0 (enc_iv st, enc_out st) (enc_pending st @ concat ds)"
  using assms
proof (induction ds arbitrary: st)
  case Nil
  then have "length (enc_pending st) < 16" by (simp add: enc_ready_def enc_ok_def enc_pending_def)
  then show ?case using Nil by (simp add: enc_view_def)
next
  case (Cons d ds)
  obtain s where s: "enc_add d (int (length d)) st = (Inr (), s)" "enc_ready s"
    "enc_config s = enc_config st"
    "absorb (enc_fun st) 0 (enc_iv st, enc_out st) (enc_pending st @ d) = (enc_iv s, enc_out s, enc_pending s)"
    using enc_add_view [OF Cons.prems(1), of d] Cons.prems(2) unfolding enc_view_def by force
  have len: "length (enc_out s) + length (enc_pending s)
      = length (enc_out st) + length (enc_pending st) + length d"
    using absorb_rest [OF s(4)] by simp
  obtain s' where s': "enc_add_all ds s = (Inr (), s')" "enc_ready s'" "enc_config s' = enc_config s"
    "enc_view s' = absorb (enc_fun s) 0 (enc_iv s, enc_out s) (enc_pending s @ concat ds)"
    using Cons.IH [OF s(2)] Cons.prems(2) len by auto
  show ?case
    using s s' absorb_append [OF s(4), of "concat ds"] enc_configD(1) [OF s(3)] by simp
qed

lemma enc_session_out:
  assumes st: "enc_ok st" "\<not> enc_calculated st" "enc_out st = []" "enc_pending st = []"
    and pad: "enc_padding_enabled st"
    and key: "length key = 32" and size: "length (concat ds) + 1024 < 2 ^ 32"
  shows "\<exists>st'. enc_session key iv ds st = (Inr (), st') \<and> enc_finished st'
    \<and> buffer_ok (enc_databuffer st')
    \<and> enc_out st' = aes256_cbc_encrypt key iv
        (pad_bytes (enc_padding_pkcs7 st) (enc_padding_blocks st) (concat ds))"
proof -
  define s where "s = enc_set_key key (enc_set_iv iv st)"
  have cfg: "enc_padding_enabled s = enc_padding_enabled st" "enc_padding_pkcs7 s = enc_padding_pkcs7 st"
    "enc_padding_blocks s = enc_padding_blocks st" "enc_out s = []" "enc_pending s = []"
    "enc_iv s = block_of_bytes iv"
    "enc_key_expanded s = extract_encrypt_key256 key (enc_key_expanded st)"
    using st by (simp_all add: s_def enc_set_key_def enc_set_iv_def enc_out_def enc_pending_def
        block_of_bytes_def)
  have "enc_ready s"
    using st by (simp add: enc_ready_def s_def enc_ok_setters) (simp add: enc_set_key_def enc_set_iv_def)
  then obtain s1 where s1: "enc_add_all ds s = (Inr (), s1)" "enc_ready s1" "enc_config s1 = enc_config s"
    "absorb (enc_fun s) 0 (block_of_bytes iv, []) (concat ds) = (enc_iv s1, enc_out s1, enc_pending s1)"
    using enc_add_all_view [of s ds] size by (auto simp: cfg enc_view_def)
  note cfg1 = enc_configD [OF s1(3)]
  have filled: "enc_chunk_filled s1 = length (enc_pending s1)" and "length (enc_pending s1) < 16"
    using s1(2) by (auto simp: enc_ready_def enc_ok_def enc_pending_def)
  then have mod: "length (enc_pending s1) = length (concat ds) mod 16"
    using absorb_rest [OF s1(4)] by auto
  have room: "length (enc_out s1) + 512 < 2 ^ 32"
    using absorb_rest [OF s1(4)] size by simp
  obtain s2 where s2: "enc_calculate s1 = (Inr (), s2)" "enc_finished s2" "buffer_ok (enc_databuffer s2)"
    "absorb (enc_fun s1) 0 (enc_iv s1, enc_out s1) (enc_pending s1 @ enc_padding s1)
      = (enc_iv s2, enc_out s2, [])"
    using enc_calculate_view [OF s1(2) room] pad cfg cfg1 by metis
  let ?p = "pad_bytes (enc_padding_pkcs7 st) (enc_padding_blocks st) (concat ds)"
  have "concat ds @ enc_padding s1 = ?p"
    using pad by (simp add: enc_padding_def pad_bytes_def pkcs7_pad_def rfc2246_pad_def cfg cfg1
        filled mod Let_def)
  then have "absorb (enc_fun s) 0 (block_of_bytes iv, []) ?p = (enc_iv s2, enc_out s2, [])"
    using absorb_append [OF s1(4), of "enc_padding s1"] s2(4) cfg1(1) by simp
  moreover have "bytes_of_blocks (blocks_of ?p) = ?p"
    using length_pad_bytes_dvd by (metis bytes_of_blocks_of dvdE)
  ultimately have "enc_out s2 = bytes_of_blocks (cbc_encrypt (encrypt_block (enc_key_expanded s))
      (block_of_bytes iv) (blocks_of ?p))"
    using absorb_cbc_enc [of "encrypt_block (enc_key_expanded s)" "block_of_bytes iv" "[]" "blocks_of ?p"]
    by (simp add: enc_fun_def)
  then show ?thesis
    using s1(1) s2(1-3) aes256_cbc_encrypt_code [OF key, of "enc_key_expanded st"] st(1)
    by (simp add: enc_session_def s_def [symmetric] cfg enc_ok_def)
qed

text \<open>
  C11. A run of the encryptor on a freshly constructed object: whatever uninitialised memory held and
  however the data is cut into portions, it ends without an exception, with the AES-256 CBC encryption
  (cipher and key expansion of FIPS-197) of the padded data in its buffer, for both padding schemes;
  afterwards the key schedule is zero and the object asks for a new key and vector.
\<close>

theorem enc_session_correct:
  assumes "length junk_key = 60" "length key = 32" "extra \<le> 15" "length (concat ds) + 1024 < 2 ^ 31"
    and "enc_set_padding True use_pkcs7 extra (AES256_Encrypt_Impl_new junk_key junk_iv junk_chunk)
      = (Inr (), st)"
  shows "\<exists>st'. enc_session key iv ds st = (Inr (), st') \<and> enc_finished st'
    \<and> enc_out st' = aes256_cbc_encrypt key iv (pad_bytes use_pkcs7 extra (concat ds))"
proof -
  let ?new = "AES256_Encrypt_Impl_new junk_key junk_iv junk_chunk"
  have st: "st = ?new\<lparr>enc_padding_enabled := True, enc_padding_pkcs7 := use_pkcs7,
      enc_padding_blocks := extra\<rparr>"
    using assms(3,5) by (simp add: enc_set_padding_def Let_def)
  have "enc_ok st" using enc_ok_new [OF assms(1)] assms(3) by (simp add: st enc_ok_def)
  moreover have "\<not> enc_calculated st" "enc_out st = []" "enc_pending st = []" "enc_padding_enabled st"
    using enc_out_reset by (simp_all add: st AES256_Encrypt_Impl_new_def enc_reset_def enc_out_def
        enc_pending_def contents_def set_size_def)
  ultimately show ?thesis
    using enc_session_out [of st key ds iv] assms by (auto simp: st)
qed

theorem enc_session_correct_witness:
  "\<exists>st'. enc_session (replicate 32 1) (replicate 16 2) [[1, 2, 3], replicate 30 4]
      (snd (enc_set_padding True False 2 (AES256_Encrypt_Impl_new (replicate 60 9) (1, 2, 3, 4) [])))
      = (Inr (), st') \<and> enc_finished st'
    \<and> enc_out st' = aes256_cbc_encrypt (replicate 32 1) (replicate 16 2)
        (pad_bytes False 2 (concat [[1, 2, 3], replicate 30 4]))"
  by (rule enc_session_correct [where junk_key = "replicate 60 9" and junk_iv = "(1, 2, 3, 4)" and
        junk_chunk = "[]"]) (simp_all add: enc_set_padding_def Let_def)

text \<open>
  The exceptions of the encryptor, exactly: \<^verbatim>\<open>add\<close> throws when the vector or else the key is
  missing (after the reset that follows a finished calculation, and without touching the rest),
  \<^verbatim>\<open>set_padding\<close> when more than 15 blocks are asked for, \<^verbatim>\<open>calculate\<close> when padding is off and a chunk is
  incomplete, or when its RFC 2246 padding goes through \<^verbatim>\<open>add\<close>; the PKCS#7 path checks neither the vector nor
  the key.
\<close>

theorem enc_errors:
  "(enc_add data n st = (Inl err, st')) =
      (st' = (if enc_calculated st then enc_reset st else st) \<and>
       (if \<not> enc_iv_set st then err = Iv_not_set else \<not> enc_key_set st \<and> err = Key_not_set))
   \<and> fst (enc_set_padding v p k st) = (if k > 15 then Inl Padding_blocks_out_of_range else Inr ())
   \<and> fst (enc_calculate st) =
      (if enc_padding_enabled st
       then if enc_padding_pkcs7 st then Inr ()
            else if \<not> enc_iv_set st then Inl Iv_not_set
            else if \<not> enc_key_set st then Inl Key_not_set else Inr ()
       else if \<not> enc_calculated st \<and> enc_chunk_filled st > 0 then Inl Block_size_required
       else Inr ())"
  by (auto simp: enc_add_def enc_set_padding_def enc_calculate_def enc_reset_def Let_def)

end
