(* ===== verification/Aes256_Decrypt.thy ===== *)
theory Aes256_Decrypt
  imports Aes256_Encrypt
begin

text \<open>
  The object \<^verbatim>\<open>AES256_Decrypt_Impl\<close> (\<^verbatim>\<open>VFSCryptLib/src/aes256_decrypt.cpp\<close>). With padding enabled the
  last block received is held back, since only \<^verbatim>\<open>calculate\<close> knows that it carries the padding: the chunk
  may then hold 16 bytes between calls. \<^verbatim>\<open>calculate\<close> returns whether the padding was acceptable. The
  lemmas follow those of \<open>Aes256_Encrypt\<close>, with one block held back in \<open>absorb\<close>.
\<close>

section \<open>The object\<close>

record AES256_Decrypt_Impl =
  dec_key_expanded :: "u32 list"
  dec_chunk :: "byte list"
  dec_iv :: block
  dec_chunk_filled :: nat
  dec_iv_set :: bool
  dec_key_set :: bool
  dec_calculated :: bool
  dec_padding_enabled :: bool
  dec_padding_pkcs7 :: bool
  dec_databuffer :: DataBuffer_Impl

definition dec_reset :: "AES256_Decrypt_Impl \<Rightarrow> AES256_Decrypt_Impl" where
  "dec_reset st = st\<lparr>dec_calculated := False, dec_chunk := replicate 16 0, dec_chunk_filled := 0,
                     dec_databuffer := set_size 0 (dec_databuffer st)\<rparr>"

definition AES256_Decrypt_Impl_new :: "u32 list \<Rightarrow> block \<Rightarrow> byte list \<Rightarrow> AES256_Decrypt_Impl" where
  "AES256_Decrypt_Impl_new junk_key junk_iv junk_chunk =
     dec_reset \<lparr>dec_key_expanded = junk_key, dec_chunk = junk_chunk, dec_iv = junk_iv,
                dec_chunk_filled = 0, dec_iv_set = False, dec_key_set = False,
                dec_calculated = False, dec_padding_enabled = True, dec_padding_pkcs7 = True,
                dec_databuffer = DataBuffer_Impl_new\<rparr>"

definition dec_get_data :: "AES256_Decrypt_Impl \<Rightarrow> DataBuffer_Impl" where
  "dec_get_data st = dec_databuffer st"

definition dec_set_iv :: "byte list \<Rightarrow> AES256_Decrypt_Impl \<Rightarrow> AES256_Decrypt_Impl" where
  "dec_set_iv iv st =
     st\<lparr>dec_iv := (get_word iv, get_word (drop 4 iv), get_word (drop 8 iv), get_word (drop 12 iv)),
        dec_iv_set := True\<rparr>"

definition dec_set_padding :: "bool \<Rightarrow> bool \<Rightarrow> AES256_Decrypt_Impl \<Rightarrow> AES256_Decrypt_Impl" where
  "dec_set_padding v use_pkcs7 st = st\<lparr>dec_padding_enabled := v, dec_padding_pkcs7 := use_pkcs7\<rparr>"

definition dec_set_key :: "byte list \<Rightarrow> AES256_Decrypt_Impl \<Rightarrow> AES256_Decrypt_Impl" where
  "dec_set_key key st =
     (let st = st\<lparr>dec_key_set := True,
                  dec_key_expanded := extract_encrypt_key256 key (dec_key_expanded st)\<rparr>
      in st\<lparr>dec_key_expanded := extract_decrypt_key (dec_key_expanded st) 14\<rparr>)"

definition dec_process_chunk :: "AES256_Decrypt_Impl \<Rightarrow> AES256_Decrypt_Impl" where
  "dec_process_chunk st =
     (let c = block_of_bytes (dec_chunk st)
      in case xor_block (decrypt_block (dec_key_expanded st) c) (dec_iv st) of (s0, s1, s2, s3) \<Rightarrow>
           st\<lparr>dec_databuffer := store_block s0 s1 s2 s3 (dec_databuffer st), dec_iv := c\<rparr>)"

text \<open>
  The loop of \<^verbatim>\<open>add\<close>; it ends although an iteration that finds a full chunk copies nothing. With more
  than 16 bytes in the chunk the copy would run past it, which no method brings about.
\<close>

function dec_add_loop ::
  "byte list \<Rightarrow> nat \<Rightarrow> nat \<Rightarrow> AES256_Decrypt_Impl \<Rightarrow> AES256_Decrypt_Impl" where
  "dec_add_loop data sz pos st =
     (if pos < sz \<and> dec_chunk_filled st \<le> 16
      then let data_left = sz - pos;
               buffer_space = 16 - dec_chunk_filled st;
               data_used = min buffer_space data_left;
               st = st\<lparr>dec_chunk := overwrite (dec_chunk_filled st) (slice pos data_used data)
                                      (dec_chunk st),
                       dec_chunk_filled := dec_chunk_filled st + data_used\<rparr>;
               pos = pos + data_used;
               st = (if dec_chunk_filled st = 16
                     then if \<not> dec_padding_enabled st \<or> pos < sz
                          then (dec_process_chunk st)\<lparr>dec_chunk_filled := 0\<rparr> else st
                     else st)
           in dec_add_loop data sz pos st
      else st)"
  by pat_completeness auto
termination
  by (relation "measure (\<lambda>(_, sz, pos, st).
        2 * (sz - pos) + (if dec_chunk_filled st = 16 then 1 else 0))",
      simp, hypsubst, simp only: in_measure prod.case, rule loop_measure)
    (auto split: if_splits)

declare dec_add_loop.simps [simp del]

definition dec_add ::
  "byte list \<Rightarrow> int \<Rightarrow> AES256_Decrypt_Impl \<Rightarrow> (crypt_error + unit) \<times> AES256_Decrypt_Impl" where
  "dec_add data sz st =
     (let st = (if dec_calculated st then dec_reset st else st)
      in if \<not> dec_iv_set st then (Inl Iv_not_set, st)
         else if \<not> dec_key_set st then (Inl Key_not_set, st)
         else (Inr (), dec_add_loop data (nat sz) 0 st))"

text \<open>The end of the held-back block, on the buffer that holds it: remove the padding it names.\<close>

definition dec_strip :: "bool \<Rightarrow> DataBuffer_Impl \<Rightarrow> bool \<times> DataBuffer_Impl" where
  "dec_strip use_pkcs7 db =
     (let current_size = get_size db
      in if current_size > 0
         then let pad_byte = (ucast (db_data db ! unat (current_size - 1)) :: u32)
              in if use_pkcs7
                 then if pad_byte = 0 \<or> pad_byte > 16 then (False, db)
                      else (True, set_size (current_size - pad_byte) db)
                 else let pad_byte = pad_byte + 1
                      in if current_size < pad_byte then (False, db)
                         else (True, set_size (current_size - pad_byte) db)
         else (False, db))"

definition dec_calculate :: "AES256_Decrypt_Impl \<Rightarrow> bool \<times> AES256_Decrypt_Impl" where
  "dec_calculate st =
     (let st = (if dec_calculated st then dec_reset st else st);
          (return_code, st) =
            (if dec_padding_enabled st
             then if dec_chunk_filled st = 16
                  then let st = (dec_process_chunk st)\<lparr>dec_chunk_filled := 0\<rparr>;
                           (rc, db) = dec_strip (dec_padding_pkcs7 st) (dec_databuffer st)
                       in (rc, st\<lparr>dec_databuffer := db\<rparr>)
                  else (False, st)
             else (dec_chunk_filled st = 0, st))
      in (return_code, st\<lparr>dec_calculated := True, dec_iv_set := False, dec_key_set := False,
                         dec_key_expanded := replicate 60 0\<rparr>))"

section \<open>The object as a stream\<close>

definition dec_hold :: "AES256_Decrypt_Impl \<Rightarrow> nat" where
  "dec_hold st = (if dec_padding_enabled st then 1 else 0)"

definition dec_ok :: "AES256_Decrypt_Impl \<Rightarrow> bool" where
  "dec_ok st \<longleftrightarrow> length (dec_key_expanded st) = 60 \<and> length (dec_chunk st) = 16
     \<and> dec_chunk_filled st < 16 + dec_hold st \<and> buffer_ok (dec_databuffer st)"

definition dec_out :: "AES256_Decrypt_Impl \<Rightarrow> byte list" where
  "dec_out st = contents (dec_databuffer st)"

definition dec_pending :: "AES256_Decrypt_Impl \<Rightarrow> byte list" where
  "dec_pending st = take (dec_chunk_filled st) (dec_chunk st)"

definition dec_view :: "AES256_Decrypt_Impl \<Rightarrow> block \<times> byte list \<times> byte list" where
  "dec_view st = (dec_iv st, dec_out st, dec_pending st)"

definition dec_fun :: "AES256_Decrypt_Impl \<Rightarrow> block \<Rightarrow> block \<Rightarrow> block \<times> block" where
  "dec_fun st = cbc_dec_step (decrypt_block (dec_key_expanded st))"

definition dec_config ::
  "AES256_Decrypt_Impl \<Rightarrow> u32 list \<times> bool \<times> bool \<times> bool \<times> bool \<times> bool" where
  "dec_config st = (dec_key_expanded st, dec_iv_set st, dec_key_set st, dec_calculated st,
     dec_padding_enabled st, dec_padding_pkcs7 st)"

lemma dec_configD:
  assumes "dec_config st = dec_config st'"
  shows "dec_fun st = dec_fun st'" "dec_hold st = dec_hold st'"
    "dec_key_expanded st = dec_key_expanded st'"
    "dec_iv_set st = dec_iv_set st'" "dec_key_set st = dec_key_set st'"
    "dec_calculated st = dec_calculated st'" "dec_padding_enabled st = dec_padding_enabled st'"
    "dec_padding_pkcs7 st = dec_padding_pkcs7 st'"
  using assms by (simp_all add: dec_config_def dec_fun_def dec_hold_def)

lemma dec_process_chunk_view:
  assumes "buffer_ok (dec_databuffer st)" "length (dec_out st) + 16 < 2 ^ 32"
  shows "dec_iv (dec_process_chunk st) = snd (dec_fun st (dec_iv st) (block_of_bytes (dec_chunk st)))"
    and "dec_out (dec_process_chunk st)
      = dec_out st @ block_bytes (fst (dec_fun st (dec_iv st) (block_of_bytes (dec_chunk st))))"
    and "buffer_ok (dec_databuffer (dec_process_chunk st))"
    and "dec_chunk (dec_process_chunk st) = dec_chunk st"
    and "dec_config (dec_process_chunk st) = dec_config st"
  using assms store_block_contents [of "dec_databuffer st"]
  by (simp_all add: dec_process_chunk_def dec_out_def dec_fun_def cbc_dec_step_def dec_config_def
      Let_def split: prod.splits)

text \<open>One iteration of the loop, when \<open>rest\<close> is what remains of the input after it.\<close>

definition dec_take :: "byte list \<Rightarrow> nat \<Rightarrow> AES256_Decrypt_Impl \<Rightarrow> AES256_Decrypt_Impl" where
  "dec_take bs remaining st =
     (let st = st\<lparr>dec_chunk := overwrite (dec_chunk_filled st) bs (dec_chunk st),
                  dec_chunk_filled := dec_chunk_filled st + length bs\<rparr>
      in if dec_chunk_filled st = 16
         then if \<not> dec_padding_enabled st \<or> 0 < remaining
              then (dec_process_chunk st)\<lparr>dec_chunk_filled := 0\<rparr> else st
         else st)"

lemma dec_take_view:
  assumes ok: "dec_ok st" and k: "dec_chunk_filled st + length bs \<le> 16"
    and room: "length (dec_out st) + 16 < 2 ^ 32"
  shows "dec_ok (dec_take bs (length rest) st)
    \<and> dec_config (dec_take bs (length rest) st) = dec_config st
    \<and> length (dec_out (dec_take bs (length rest) st)) + length (dec_pending (dec_take bs (length rest) st))
        = length (dec_out st) + length (dec_pending st) + length bs
    \<and> absorb (dec_fun st) (dec_hold st) (dec_iv (dec_take bs (length rest) st),
          dec_out (dec_take bs (length rest) st)) (dec_pending (dec_take bs (length rest) st) @ rest)
      = absorb (dec_fun st) (dec_hold st) (dec_iv st, dec_out st) (dec_pending st @ bs @ rest)"
proof -
  define st1 where "st1 = st\<lparr>dec_chunk := overwrite (dec_chunk_filled st) bs (dec_chunk st),
                  dec_chunk_filled := dec_chunk_filled st + length bs\<rparr>"
  have pend: "dec_pending st1 = dec_pending st @ bs"
    using ok k take_overwrite [of "dec_chunk_filled st" "dec_chunk st" bs]
    by (simp add: dec_pending_def st1_def dec_ok_def)
  have chunk: "length (dec_chunk st1) = 16"
    using ok k by (simp add: st1_def dec_ok_def length_overwrite)
  have cfg: "dec_config st1 = dec_config st" by (simp add: dec_config_def st1_def)
  have io: "dec_iv st1 = dec_iv st" "dec_out st1 = dec_out st" "buffer_ok (dec_databuffer st1)"
    using ok by (simp_all add: st1_def dec_out_def dec_ok_def)
  have take: "dec_take bs (length rest) st = (if dec_chunk_filled st1 = 16 \<and> dec_hold st \<le> length rest
      then (dec_process_chunk st1)\<lparr>dec_chunk_filled := 0\<rparr> else st1)"
    by (auto simp: dec_take_def st1_def Let_def dec_hold_def Suc_le_eq)
  show ?thesis
  proof (cases "dec_chunk_filled st1 = 16 \<and> dec_hold st \<le> length rest")
    case True
    then have b: "dec_chunk st1 = dec_pending st @ bs"
      using pend chunk by (simp add: dec_pending_def)
    note pc = dec_process_chunk_view [OF io(3), unfolded io, OF room]
    have "length (dec_pending st @ bs) = 16" using b chunk by simp
    then show ?thesis
      using ok pc True absorb_block [of "dec_pending st @ bs" "dec_hold st" rest "dec_fun st" "dec_iv st" "dec_out st"]
        chunk dec_configD [OF cfg] dec_configD [OF pc(5)] cfg
      by (simp add: take dec_ok_def b dec_config_def dec_out_def dec_pending_def dec_hold_def)
  next
    case False
    have "length (dec_pending st @ bs) = dec_chunk_filled st1"
      using k ok by (simp add: pend [symmetric] dec_pending_def st1_def dec_ok_def)
    moreover have "dec_chunk_filled st1 < 16 + dec_hold st"
      using False k by (auto simp: st1_def)
    then have "dec_ok st1"
      using chunk io ok dec_configD [OF cfg] by (simp add: dec_ok_def)
    ultimately show ?thesis
      unfolding take if_not_P [OF False] using cfg io pend by simp
  qed
qed

lemma dec_add_loop_view:
  assumes "dec_ok st" "pos \<le> sz" "sz \<le> length data"
    and "length (dec_out st) + length (dec_pending st) + (sz - pos) + 16 < 2 ^ 32"
  shows "dec_ok (dec_add_loop data sz pos st) \<and> dec_config (dec_add_loop data sz pos st) = dec_config st
    \<and> dec_view (dec_add_loop data sz pos st)
      = absorb (dec_fun st) (dec_hold st) (dec_iv st, dec_out st)
          (dec_pending st @ slice pos (sz - pos) data)"
  using assms
proof (induction "2 * (sz - pos) + (if dec_chunk_filled st = 16 then 1 else 0)" arbitrary: pos st
    rule: less_induct)
  case less
  show ?case
  proof (cases "pos < sz")
    case False
    then have "dec_add_loop data sz pos st = st" by (subst dec_add_loop.simps) simp
    moreover have "length (dec_pending st) < 16 + dec_hold st"
      using less.prems(1) by (auto simp: dec_ok_def dec_pending_def min_def)
    ultimately show ?thesis
      using less.prems False by (simp add: dec_view_def slice_def)
  next
    case True
    define k where "k = min (16 - dec_chunk_filled st) (sz - pos)"
    have filled: "dec_chunk_filled st \<le> 16"
      using less.prems by (auto simp: dec_ok_def dec_hold_def split: if_splits)
    have len: "length (slice pos k data) = k"
      using less.prems True by (simp add: length_slice k_def)
    define rest where "rest = slice (pos + k) (sz - (pos + k)) data"
    have k: "k \<le> sz - pos" "pos + k \<le> sz" using True by (simp_all add: k_def)
    have rest: "length rest = sz - (pos + k)" "0 < length rest \<longleftrightarrow> pos + k < sz"
      using k less.prems by (auto simp: rest_def length_slice)
    let ?st = "dec_take (slice pos k data) (length rest) st"
    have loop: "dec_add_loop data sz pos st = dec_add_loop data sz (pos + k) ?st"
      unfolding dec_add_loop.simps [of data sz pos st] dec_take_def len Let_def rest(2)
      by (simp only: k_def [symmetric] True filled simp_thms if_True)
    have fits: "dec_chunk_filled st + length (slice pos k data) \<le> 16"
      unfolding len using filled by (simp add: k_def)
    have room: "length (dec_out st) + 16 < 2 ^ 32" using less.prems(4) by linarith
    note t = dec_take_view [OF less.prems(1) fits room, of rest, unfolded len]
    have dec: "2 * (sz - (pos + k)) + (if dec_chunk_filled ?st = 16 then 1 else 0)
        < 2 * (sz - pos) + (if dec_chunk_filled st = 16 then 1 else (0 :: nat))"
    proof (cases "dec_chunk_filled st = 16")
      case True
      then have "k = 0" by (simp add: k_def)
      then have "dec_chunk_filled ?st = 0"
        using True \<open>pos < sz\<close> rest len by (simp add: dec_take_def)
      then show ?thesis using True \<open>k = 0\<close> by simp
    next
      case False
      then have "0 < k" using filled True by (simp add: k_def)
      then show ?thesis using k False by auto
    qed
    have IH: "dec_ok (dec_add_loop data sz (pos + k) ?st)
      \<and> dec_config (dec_add_loop data sz (pos + k) ?st) = dec_config ?st
      \<and> dec_view (dec_add_loop data sz (pos + k) ?st)
        = absorb (dec_fun ?st) (dec_hold ?st) (dec_iv ?st, dec_out ?st)
            (dec_pending ?st @ slice (pos + k) (sz - (pos + k)) data)"
    proof (rule less.hyps [OF dec])
      show "dec_ok ?st" using t by blast
      show "length (dec_out ?st) + length (dec_pending ?st) + (sz - (pos + k)) + 16 < 2 ^ 32"
        using t less.prems(4) k by linarith
    qed (use k less.prems in simp_all)
    have "slice pos (sz - pos) data = slice pos k data @ rest"
      using slice_split [OF k(1), of pos data] by (simp add: rest_def)
    moreover have cfg: "dec_config ?st = dec_config st" using t by blast
    ultimately show ?thesis
      using IH t unfolding loop rest_def [symmetric] dec_configD(1,2) [OF cfg]
      by (simp only: simp_thms)
  qed
qed

section \<open>Adding\<close>

definition dec_ready :: "AES256_Decrypt_Impl \<Rightarrow> bool" where
  "dec_ready st \<longleftrightarrow> dec_ok st \<and> \<not> dec_calculated st \<and> dec_iv_set st \<and> dec_key_set st"

definition dec_finished :: "AES256_Decrypt_Impl \<Rightarrow> bool" where
  "dec_finished st \<longleftrightarrow> dec_calculated st \<and> \<not> dec_iv_set st \<and> \<not> dec_key_set st
     \<and> dec_key_expanded st = replicate 60 0"

lemma dec_add_view:
  assumes "dec_ready st"
    and "length (dec_out st) + length (dec_pending st) + length data + 16 < 2 ^ 32"
  obtains st' where "dec_add data (int (length data)) st = (Inr (), st')" "dec_ready st'"
    "dec_config st' = dec_config st"
    "dec_view st' = absorb (dec_fun st) (dec_hold st) (dec_iv st, dec_out st) (dec_pending st @ data)"
proof
  let ?st' = "dec_add_loop data (length data) 0 st"
  have *: "dec_ok ?st' \<and> dec_config ?st' = dec_config st
    \<and> dec_view ?st' = absorb (dec_fun st) (dec_hold st) (dec_iv st, dec_out st) (dec_pending st @ data)"
    using dec_add_loop_view [of st 0 "length data" data] assms by (simp add: dec_ready_def)
  show "dec_add data (int (length data)) st = (Inr (), ?st')"
    using assms(1) by (simp add: dec_add_def dec_ready_def)
  show "dec_ready ?st'" "dec_config ?st' = dec_config st"
    "dec_view ?st' = absorb (dec_fun st) (dec_hold st) (dec_iv st, dec_out st) (dec_pending st @ data)"
    using * assms(1) dec_configD [of ?st' st] by (simp_all add: dec_ready_def)
qed

fun dec_add_all ::
  "byte list list \<Rightarrow> AES256_Decrypt_Impl \<Rightarrow> (crypt_error + unit) \<times> AES256_Decrypt_Impl" where
  "dec_add_all [] st = (Inr (), st)"
| "dec_add_all (d # ds) st =
     (case dec_add d (int (length d)) st of
        (Inl e, st) \<Rightarrow> (Inl e, st)
      | (Inr _, st) \<Rightarrow> dec_add_all ds st)"

definition dec_session ::
  "byte list \<Rightarrow> byte list \<Rightarrow> byte list list \<Rightarrow> AES256_Decrypt_Impl
     \<Rightarrow> (crypt_error + bool) \<times> AES256_Decrypt_Impl" where
  "dec_session key iv portions st =
     (case dec_add_all portions (dec_set_key key (dec_set_iv iv st)) of
        (Inl e, st) \<Rightarrow> (Inl e, st)
      | (Inr _, st) \<Rightarrow> (case dec_calculate st of (rc, st) \<Rightarrow> (Inr rc, st)))"

lemma dec_add_all_view:
  assumes "dec_ready st"
    and "length (dec_out st) + length (dec_pending st) + length (concat ds) + 16 < 2 ^ 32"
  shows "\<exists>st'. dec_add_all ds st = (Inr (), st') \<and> dec_ready st' \<and> dec_config st' = dec_config st
    \<and> dec_view st' = absorb (dec_fun st) (dec_hold st) (dec_iv st, dec_out st) (dec_pending st @ concat ds)"
  using assms
proof (induction ds arbitrary: st)
  case Nil
  then have "length (dec_pending st) < 16 + dec_hold st"
    by (auto simp: dec_ready_def dec_ok_def dec_pending_def min_def)
  then show ?case using Nil by (simp add: dec_view_def)
next
  case (Cons d ds)
  obtain s where s: "dec_add d (int (length d)) st = (Inr (), s)" "dec_ready s"
    "dec_config s = dec_config st"
    "absorb (dec_fun st) (dec_hold st) (dec_iv st, dec_out st) (dec_pending st @ d)
      = (dec_iv s, dec_out s, dec_pending s)"
    using dec_add_view [OF Cons.prems(1), of d] Cons.prems(2) unfolding dec_view_def by force
  have len: "length (dec_out s) + length (dec_pending s)
      = length (dec_out st) + length (dec_pending st) + length d"
    using absorb_rest [OF s(4)] by simp
  obtain s' where s': "dec_add_all ds s = (Inr (), s')" "dec_ready s'" "dec_config s' = dec_config s"
    "dec_view s' = absorb (dec_fun s) (dec_hold s) (dec_iv s, dec_out s) (dec_pending s @ concat ds)"
    using Cons.IH [OF s(2)] Cons.prems(2) len by auto
  show ?case
    using s s' absorb_append [OF s(4), of "concat ds"] dec_configD(1,2) [OF s(3)] by simp
qed

section \<open>Removing the padding\<close>

definition unpad_pkcs7 :: "byte list \<Rightarrow> byte list option" where
  "unpad_pkcs7 p =
     (if last p = 0 \<or> 16 < last p then None else Some (take (length p - unat (last p)) p))"

definition unpad_rfc2246 :: "byte list \<Rightarrow> byte list option" where
  "unpad_rfc2246 p =
     (let n = unat (last p) + 1 in if length p < n then None else Some (take (length p - n) p))"

definition unpad :: "bool \<Rightarrow> byte list \<Rightarrow> byte list option" where
  "unpad use_pkcs7 p = (if use_pkcs7 then unpad_pkcs7 p else unpad_rfc2246 p)"

lemma unpad_pad:
  assumes "extra \<le> 15"
  shows "unpad use_pkcs7 (pad_bytes use_pkcs7 extra data) = Some data"
proof (cases use_pkcs7)
  case True
  define n where "n = 16 - length data mod 16"
  have n: "1 \<le> n" "n \<le> 16" by (simp_all add: n_def less_imp_le)
  then have u: "unat (of_nat n :: byte) = n" by (simp add: unat_of_nat)
  have "last (pkcs7_pad data) = of_nat n" "length (pkcs7_pad data) = length data + n"
    "take (length data) (pkcs7_pad data) = data"
    using n by (simp_all add: pkcs7_pad_def Let_def flip: n_def)
  moreover have "(of_nat n :: byte) \<noteq> 0" "\<not> 16 < (of_nat n :: byte)"
    using n u by (auto simp: word_less_nat_alt)
  ultimately show ?thesis using True u by (simp add: unpad_def unpad_pkcs7_def pad_bytes_def)
next
  case False
  define n where "n = 16 - length data mod 16 + 16 * extra"
  have n: "1 \<le> n" "n \<le> 256" using assms by (auto simp: n_def)
  then obtain m where m: "n = Suc m" "m < 256" by (cases n) auto
  then have u: "unat (of_nat m :: byte) = m" by (simp add: unat_of_nat)
  have "last (rfc2246_pad extra data) = of_nat m" "length (rfc2246_pad extra data) = length data + Suc m"
    "take (length data) (rfc2246_pad extra data) = data"
    by (simp_all add: rfc2246_pad_def Let_def m flip: n_def)
  then show ?thesis using False u by (simp add: unpad_def unpad_rfc2246_def pad_bytes_def Let_def)
qed

lemma dec_strip_unpad:
  assumes "buffer_ok db" "16 \<le> length (contents db)"
  shows "fst (dec_strip pk db) = (unpad pk (contents db) \<noteq> None)"
    and "contents (snd (dec_strip pk db))
      = (case unpad pk (contents db) of None \<Rightarrow> contents db | Some d \<Rightarrow> d)"
    and "buffer_ok (snd (dec_strip pk db))"
proof -
  define n where "n = length (contents db)"
  have ne: "contents db \<noteq> []" using assms(2) by (cases "contents db") auto
  have sz: "unat (get_size db) = n" using assms(1) by (simp add: n_def length_contents)
  have pos: "0 < get_size db" using ne by (simp add: word_less_nat_alt sz n_def)
  have "unat (get_size db - 1) = n - 1"
    using pos by (simp add: sz unat_minus_one word_gt_0)
  then have "db_data db ! unat (get_size db - 1) = contents db ! (n - 1)"
    using assms sz by (simp add: contents_def get_size_def n_def)
  also have "\<dots> = last (contents db)"
    using ne by (simp add: last_conv_nth n_def)
  finally have l: "db_data db ! unat (get_size db - 1) = last (contents db)" .
  define b where "b = last (contents db)"
  have u: "unat (ucast b :: u32) = unat b" by simp
  have "Suc (unat b) < 4294967296" using unat_byte_less [of b] by linarith
  then have u1: "unat (ucast b + 1 :: u32) = unat b + 1"
    by (simp add: unat_word_ariths u)
  have z: "(ucast b :: u32) = 0 \<longleftrightarrow> b = 0"
    by (metis u unat_eq_0)
  have c: "(16 :: u32) < ucast b \<longleftrightarrow> 16 < b"
    by (simp add: word_less_nat_alt u)
  have c2: "get_size db < ucast b + 1 \<longleftrightarrow> n < unat b + 1"
    by (simp add: word_less_nat_alt u1 sz del: add_Suc_right)
  have shrink: "contents (set_size (get_size db - w) db) = take (n - unat w) (contents db)"
    if "unat w \<le> n" for w
  proof -
    have "w \<le> get_size db" using that by (simp add: word_le_nat_alt sz)
    then have "unat (get_size db - w) = n - unat w" by (simp add: unat_sub sz)
    moreover have "get_size db - w \<le> db_size db"
      using \<open>w \<le> get_size db\<close> by (simp add: get_size_def word_sub_le)
    ultimately show ?thesis using contents_shrink [OF assms(1)] by (simp add: n_def)
  qed
  have small: "unat b \<le> n" if "\<not> 16 < b"
    using that assms(2) by (simp add: word_less_nat_alt n_def)
  show "fst (dec_strip pk db) = (unpad pk (contents db) \<noteq> None)"
    "contents (snd (dec_strip pk db))
      = (case unpad pk (contents db) of None \<Rightarrow> contents db | Some d \<Rightarrow> d)"
    "buffer_ok (snd (dec_strip pk db))"
    using pos shrink [of "ucast b"] shrink [of "ucast b + 1"] small assms(1)
    by (auto simp: dec_strip_def Let_def l unpad_def unpad_pkcs7_def unpad_rfc2246_def z c c2 u u1
        buffer_ok_set_size simp flip: b_def n_def)
qed

section \<open>A whole run\<close>

lemma dec_out_reset [simp]: "dec_out (dec_reset st) = []" "dec_pending (dec_reset st) = []"
  by (simp_all add: dec_out_def dec_pending_def dec_reset_def contents_def set_size_def)

lemma dec_calculate_view:
  assumes ready: "dec_ready st" and room: "length (dec_out st) + 16 < 2 ^ 32"
    and pad: "dec_padding_enabled st" and full: "length (dec_pending st) = 16"
    and view: "absorb (dec_fun st) 0 (dec_iv st, dec_out st) (dec_pending st) = (iv, out, [])"
  shows "fst (dec_calculate st) = (unpad (dec_padding_pkcs7 st) out \<noteq> None)"
    and "dec_out (snd (dec_calculate st))
      = (case unpad (dec_padding_pkcs7 st) out of None \<Rightarrow> out | Some d \<Rightarrow> d)"
    and "dec_finished (snd (dec_calculate st))"
    and "buffer_ok (dec_databuffer (snd (dec_calculate st)))"
proof -
  define s where "s = (dec_process_chunk st)\<lparr>dec_chunk_filled := 0\<rparr>"
  have ok: "buffer_ok (dec_databuffer st)" and nc: "\<not> dec_calculated st"
    and filled: "dec_chunk_filled st = 16" and chunk: "dec_pending st = dec_chunk st"
    using ready full by (auto simp: dec_ready_def dec_ok_def dec_pending_def dec_hold_def split: if_splits)
  note pc = dec_process_chunk_view [OF ok room]
  have out: "dec_out s = out"
    using view absorb_block [of "dec_chunk st" 0 "[]" "dec_fun st" "dec_iv st" "dec_out st"] full chunk
      pc(2) by (simp add: s_def dec_out_def)
  have ok': "buffer_ok (dec_databuffer s)" using pc(3) by (simp add: s_def)
  have len: "16 \<le> length (contents (dec_databuffer s))"
    using pc(2) by (simp add: s_def dec_out_def)
  have pk: "dec_padding_pkcs7 s = dec_padding_pkcs7 st"
    using dec_configD [OF pc(5)] by (simp add: s_def)
  have "dec_calculate st = (fst (dec_strip (dec_padding_pkcs7 s) (dec_databuffer s)),
      s\<lparr>dec_databuffer := snd (dec_strip (dec_padding_pkcs7 s) (dec_databuffer s)),
        dec_calculated := True, dec_iv_set := False, dec_key_set := False,
        dec_key_expanded := replicate 60 0\<rparr>)"
    using nc pad filled by (simp add: dec_calculate_def Let_def split_beta flip: s_def)
  then show "fst (dec_calculate st) = (unpad (dec_padding_pkcs7 st) out \<noteq> None)"
    "dec_out (snd (dec_calculate st)) = (case unpad (dec_padding_pkcs7 st) out of None \<Rightarrow> out | Some d \<Rightarrow> d)"
    "dec_finished (snd (dec_calculate st))" "buffer_ok (dec_databuffer (snd (dec_calculate st)))"
    using dec_strip_unpad [OF ok' len, of "dec_padding_pkcs7 s"]
    unfolding pk out [unfolded dec_out_def] by (simp_all add: dec_out_def dec_finished_def)
qed

lemma dec_start:
  assumes "length junk_key = 60" "length key = 32"
    and s_def: "s = dec_set_key key (dec_set_iv iv (dec_set_padding True pk
      (AES256_Decrypt_Impl_new junk_key junk_iv junk_chunk)))"
  shows "dec_ready s" "dec_out s = []" "dec_pending s = []" "dec_iv s = block_of_bytes iv"
    "dec_padding_enabled s" "dec_padding_pkcs7 s = pk" "dec_hold s = 1"
    "dec_fun s = cbc_dec_step (decrypt_block (extract_decrypt_key (extract_encrypt_key256 key junk_key) 14))"
  using assms(1,2)
  by (simp_all add: s_def dec_ready_def dec_ok_def dec_hold_def dec_set_key_def dec_set_iv_def
      dec_set_padding_def AES256_Decrypt_Impl_new_def dec_reset_def dec_out_def dec_pending_def
      dec_fun_def Let_def block_of_bytes_def length_extract_decrypt_key buf.inv_resize)
    (simp_all add: contents_def set_size_def)

lemma dec_session_out:
  assumes key: "length junk_key = 60" "length key = 32"
    and c: "concat ds = aes256_cbc_encrypt key iv p" and p: "16 dvd length p" "p \<noteq> []"
    and size: "length p + 1024 < 2 ^ 31"
    and st: "st = dec_set_padding True pk (AES256_Decrypt_Impl_new junk_key junk_iv junk_chunk)"
  shows "\<exists>st'. dec_session key iv ds st = (Inr (unpad pk p \<noteq> None), st') \<and> dec_finished st'
    \<and> buffer_ok (dec_databuffer st') \<and> dec_out st' = (case unpad pk p of None \<Rightarrow> p | Some d \<Rightarrow> d)"
proof -
  define s where "s = dec_set_key key (dec_set_iv iv st)"
  have s': "s = dec_set_key key (dec_set_iv iv (dec_set_padding True pk
      (AES256_Decrypt_Impl_new junk_key junk_iv junk_chunk)))" by (simp add: s_def st)
  note start = dec_start [OF key s']
  define ke where "ke = extract_encrypt_key256 key junk_key"
  have vk: "valid_schedule ke" using key(1) by (simp add: ke_def valid_schedule_def)
  let ?D = "decrypt_block (extract_decrypt_key ke 14)"
  let ?cs = "cbc_encrypt (encrypt_block ke) (block_of_bytes iv) (blocks_of p)"
  obtain n where n: "length p = 16 * n" using p(1) by (elim dvdE)
  have "0 < n" using n p(2) by (cases n) auto
  have blocks: "bytes_of_blocks (blocks_of p) = p" using n by (rule bytes_of_blocks_of)
  have cs: "concat ds = bytes_of_blocks ?cs"
    unfolding c ke_def using key by (intro aes256_cbc_encrypt_code) auto
  have "16 * length (blocks_of p) = length p" using arg_cong [OF blocks, of length] by simp
  then have len: "length (concat ds) = length p" by (simp add: cs)
  obtain s1 where s1: "dec_add_all ds s = (Inr (), s1)" "dec_ready s1" "dec_config s1 = dec_config s"
    "absorb (dec_fun s) 1 (block_of_bytes iv, []) (concat ds) = (dec_iv s1, dec_out s1, dec_pending s1)"
    using dec_add_all_view [OF start(1), of ds] size len by (auto simp: start dec_view_def)
  note cfg1 = dec_configD [OF s1(3)]
  have rest: "length (dec_pending s1) < 17" "length (dec_pending s1) + length (dec_out s1) = length p"
    "\<exists>k. length p = 16 * k + length (dec_pending s1)" "1 \<le> length (dec_pending s1)"
    using absorb_rest [OF s1(4)] n \<open>0 < n\<close> len by auto
  have full: "length (dec_pending s1) = 16" using rest(1,3,4) n by presburger
  have room: "length (dec_out s1) + 16 < 2 ^ 32" using rest(2) size by simp
  have "absorb (dec_fun s) 0 (block_of_bytes iv, []) (concat ds) = (last (block_of_bytes iv # ?cs), p, [])"
    unfolding start(8) ke_def [symmetric] cs absorb_cbc_dec
    using aes.cbc_inverse [OF vk, of "block_of_bytes iv" "blocks_of p"] by (simp add: blocks)
  then have view: "absorb (dec_fun s1) 0 (dec_iv s1, dec_out s1) (dec_pending s1)
      = (last (block_of_bytes iv # ?cs), p, [])"
    using absorb_held [OF s1(4)] cfg1(1) by simp
  have pad: "dec_padding_enabled s1" and pk: "dec_padding_pkcs7 s1 = pk"
    using cfg1 start by simp_all
  show ?thesis
    using dec_calculate_view [OF s1(2) room pad full view] s1(1)
    by (simp add: dec_session_def s_def [symmetric] pk split_beta)
qed

lemma dec_session_incomplete:
  assumes "length junk_key = 60" "length key = 32" "length (concat ds) + 1024 < 2 ^ 31"
    and "concat ds = [] \<or> length (concat ds) mod 16 \<noteq> 0"
  shows "fst (dec_session key iv ds
      (dec_set_padding True pk (AES256_Decrypt_Impl_new junk_key junk_iv junk_chunk))) = Inr False"
proof -
  define s where "s = dec_set_key key (dec_set_iv iv
      (dec_set_padding True pk (AES256_Decrypt_Impl_new junk_key junk_iv junk_chunk)))"
  note start = dec_start [OF assms(1,2) s_def]
  obtain s1 where s1: "dec_add_all ds s = (Inr (), s1)" "dec_ready s1" "dec_config s1 = dec_config s"
    "absorb (dec_fun s) 1 (block_of_bytes iv, []) (concat ds) = (dec_iv s1, dec_out s1, dec_pending s1)"
    using dec_add_all_view [OF start(1), of ds] assms(3) by (auto simp: start dec_view_def)
  have "length (dec_pending s1) < 17" "\<exists>k. length (concat ds) = 16 * k + length (dec_pending s1)"
    using absorb_rest [OF s1(4)] by auto
  then have "length (dec_pending s1) \<noteq> 16"
    using assms(4) by (elim disjE) auto
  then have "dec_chunk_filled s1 \<noteq> 16"
    using s1(2) by (simp add: dec_ready_def dec_ok_def dec_pending_def)
  moreover have "dec_padding_enabled s1" "\<not> dec_calculated s1"
    using s1(2) dec_configD [OF s1(3)] start by (simp_all add: dec_ready_def)
  ultimately have "fst (dec_calculate s1) = False"
    by (simp add: dec_calculate_def)
  then show ?thesis
    using s1(1) by (simp add: dec_session_def flip: s_def) (simp add: split_beta)
qed

text \<open>
  C10. Decrypting what was encrypted gives it back: for every key and vector, every data and either
  padding, a fresh encryptor and a fresh decryptor, with the plaintext added in any portions and the
  ciphertext in any others, return the plaintext and report success.
\<close>

theorem decrypt_encrypt_session:
  assumes "length j1 = 60" "length j2 = 60" "length key = 32" "extra \<le> 15"
    and "length (concat ds) + 2048 < 2 ^ 31"
    and "enc_session key iv ds
          (snd (enc_set_padding True pk extra (AES256_Encrypt_Impl_new j1 i1 c1))) = (r, st)"
    and "concat cs = enc_out st"
  shows "\<exists>st'. dec_session key iv cs (dec_set_padding True pk (AES256_Decrypt_Impl_new j2 i2 c2))
      = (Inr True, st') \<and> dec_out st' = concat ds"
proof -
  let ?p = "pad_bytes pk extra (concat ds)"
  obtain s0 where s0: "enc_set_padding True pk extra (AES256_Encrypt_Impl_new j1 i1 c1) = (Inr (), s0)"
    using assms(4) by (simp add: enc_set_padding_def Let_def)
  have c: "concat cs = aes256_cbc_encrypt key iv ?p"
    using enc_session_out [of s0 key ds iv] assms(1,3-7) s0 enc_ok_new [OF assms(1), of i1 c1]
    by (auto simp: enc_set_padding_def Let_def enc_ok_def AES256_Encrypt_Impl_new_def enc_reset_def
        enc_out_def enc_pending_def contents_def set_size_def)
  have "length ?p \<le> length (concat ds) + 256" "?p \<noteq> []"
    using assms(4) by (auto simp: pad_bytes_def pkcs7_pad_def rfc2246_pad_def Let_def)
  then have "\<exists>st'. dec_session key iv cs (dec_set_padding True pk (AES256_Decrypt_Impl_new j2 i2 c2))
      = (Inr (unpad pk ?p \<noteq> None), st') \<and> dec_finished st'
    \<and> buffer_ok (dec_databuffer st') \<and> dec_out st' = (case unpad pk ?p of None \<Rightarrow> ?p | Some d \<Rightarrow> d)"
    using assms(5) by (intro dec_session_out [OF assms(2,3) c length_pad_bytes_dvd _ _ refl]) auto
  then show ?thesis using unpad_pad [OF assms(4)] by auto
qed

theorem decrypt_encrypt_session_witness:
  "\<exists>st'. dec_session (replicate 32 1) (replicate 16 2)
      [enc_out (snd (enc_session (replicate 32 1) (replicate 16 2) [[1, 2, 3], replicate 20 4]
        (snd (enc_set_padding True False 3 (AES256_Encrypt_Impl_new (replicate 60 9) (1, 2, 3, 4) [])))))]
      (dec_set_padding True False (AES256_Decrypt_Impl_new (replicate 60 7) (4, 3, 2, 1) []))
    = (Inr True, st') \<and> dec_out st' = concat [[1, 2, 3], replicate 20 4]"
  by (rule decrypt_encrypt_session [where extra = 3 and ?j1.0 = "replicate 60 9" and ?i1.0 = "(1, 2, 3, 4)"
        and ?c1.0 = "[]", OF _ _ _ _ _ prod.collapse [symmetric]]) simp_all

text \<open>
  With PKCS#7 the decryptor checks only the last byte: any block string that ends in a byte from 1
  to 16 is accepted, whatever the other bytes that it removes as padding are.
\<close>

theorem decrypt_accepts_by_last_byte:
  assumes "length junk_key = 60" "length key = 32"
    and "concat ds = aes256_cbc_encrypt key iv (data @ other @ [n])"
    and "16 dvd length (data @ other @ [n])" "length (data @ other @ [n]) + 1024 < 2 ^ 31"
    and "length other + 1 = unat n" "n \<le> 16"
  shows "\<exists>st'. dec_session key iv ds
      (dec_set_padding True True (AES256_Decrypt_Impl_new junk_key junk_iv junk_chunk)) = (Inr True, st')
    \<and> dec_out st' = data"
proof -
  have "unpad True (data @ other @ [n]) = Some data"
    using assms(6,7) by (auto simp: unpad_def unpad_pkcs7_def)
  then show ?thesis
    using dec_session_out [OF assms(1-4) _ assms(5) refl, of True junk_iv junk_chunk] by auto
qed

theorem decrypt_accepts_by_last_byte_witness:
  "\<exists>st'. dec_session (replicate 32 1) (replicate 16 2)
      [aes256_cbc_encrypt (replicate 32 1) (replicate 16 2) ([7, 7, 7, 7] @ replicate 11 0xAA @ [12])]
      (dec_set_padding True True (AES256_Decrypt_Impl_new (replicate 60 7) (4, 3, 2, 1) [])) = (Inr True, st')
    \<and> dec_out st' = [7, 7, 7, 7]"
  by (rule decrypt_accepts_by_last_byte [where other = "replicate 11 0xAA" and n = 12]) simp_all

end
