(* ===== verification/Crypt_Helper.thy ===== *)
theory Crypt_Helper
  imports Aes256_Decrypt
begin

text \<open>
  \<^verbatim>\<open>VFSLib/src/CryptHelper.cpp\<close>: the reading of the initialisation vector from hexadecimal text and
  \<^verbatim>\<open>CAes256::Encrypt\<close> and \<^verbatim>\<open>Decrypt\<close>, through which the archive uses the cipher objects. Both catch every
  exception and return an empty buffer then. Reading outside the memory behind a pointer argument is
  undefined behaviour, \<open>None\<close>; the log lines they write are not modelled.
\<close>

section \<open>The initialisation vector\<close>

text \<open>\<^verbatim>\<open>toupper\<close> of a (signed) \<^verbatim>\<open>char\<close> in the "C" locale, as the \<^verbatim>\<open>unsigned int\<close> the code stores it in.\<close>

definition toupper_char :: "byte \<Rightarrow> u32" where
  "toupper_char c = (if 0x61 \<le> c \<and> c \<le> 0x7A then ucast c - 32 else scast c)"

definition hex_letter :: "u32 \<Rightarrow> u32" where
  "hex_letter l = (if l \<ge> 0x41 then l - 0x41 + 10 else l - 0x30)"

fun hex_pairs :: "bstring \<Rightarrow> byte list" where
  "hex_pairs (a # b # src) =
     (let let1 = hex_letter (toupper_char a); let2 = hex_letter (toupper_char b)
      in ucast (push_bit 4 let1 OR let2) # hex_pairs src)"
| "hex_pairs _ = []"

text \<open>\<^verbatim>\<open>strlen\<close> stops at the first zero byte.\<close>

definition convert_ascii :: "bstring \<Rightarrow> byte list" where
  "convert_ascii src = hex_pairs (takeWhile (\<lambda>c. c \<noteq> 0) src)"

lemma length_hex_pairs: "length (hex_pairs src) = length src div 2"
  by (induction src rule: hex_pairs.induct) (simp_all add: Let_def)

lemma length_convert_ascii:
  assumes "0 \<notin> set src"
  shows "length (convert_ascii src) = length src div 2"
proof -
  have "takeWhile (\<lambda>c. c \<noteq> 0) src = src" using assms by (induction src) auto
  then show ?thesis unfolding convert_ascii_def length_hex_pairs by (rule arg_cong)
qed

section \<open>Encrypt and Decrypt\<close>

record memory_junk =
  junk_key :: "u32 list"
  junk_iv :: block
  junk_chunk :: "byte list"

definition junk_ok :: "memory_junk \<Rightarrow> bool" where
  "junk_ok j \<longleftrightarrow> length (junk_key j) = 60"

definition crypt_readable :: "byte list \<Rightarrow> u32 \<Rightarrow> byte list \<Rightarrow> byte list \<Rightarrow> bool" where
  "crypt_readable data sz iv key \<longleftrightarrow> unat sz \<le> length data \<and> 16 \<le> length iv \<and> 32 \<le> length key"

definition CAes256_Encrypt ::
  "memory_junk \<Rightarrow> byte list \<Rightarrow> u32 \<Rightarrow> bstring \<Rightarrow> byte list \<Rightarrow> DataBuffer_Impl option" where
  "CAes256_Encrypt j data sz iv key =
     (let pBuffer = DataBuffer_Impl_new; iv = convert_ascii iv;
          st = AES256_Encrypt_Impl_new (junk_key j) (junk_iv j) (junk_chunk j)
      in if \<not> crypt_readable data sz iv key then None
         else case enc_set_padding True True 0 st of
           (Inl e, st) \<Rightarrow> Some pBuffer
         | (Inr _, st) \<Rightarrow>
             (case enc_add data (sint sz) (enc_set_key (take 32 key) (enc_set_iv (take 16 iv) st)) of
                (Inl e, st) \<Rightarrow> Some pBuffer
              | (Inr _, st) \<Rightarrow>
                  (case enc_calculate st of
                     (Inl e, st) \<Rightarrow> Some pBuffer
                   | (Inr _, st) \<Rightarrow> Some (enc_get_data st))))"

definition CAes256_Decrypt ::
  "memory_junk \<Rightarrow> byte list \<Rightarrow> u32 \<Rightarrow> bstring \<Rightarrow> byte list \<Rightarrow> DataBuffer_Impl option" where
  "CAes256_Decrypt j data sz iv key =
     (let pBuffer = DataBuffer_Impl_new; iv = convert_ascii iv;
          st = dec_set_padding True True
                 (AES256_Decrypt_Impl_new (junk_key j) (junk_iv j) (junk_chunk j))
      in if \<not> crypt_readable data sz iv key then None
         else case dec_add data (sint sz) (dec_set_key (take 32 key) (dec_set_iv (take 16 iv) st)) of
           (Inl e, st) \<Rightarrow> Some pBuffer
         | (Inr _, st) \<Rightarrow>
             (case dec_calculate st of (result, st) \<Rightarrow>
                if result then Some (dec_get_data st) else Some pBuffer))"

section \<open>What they compute\<close>

lemma sint_small:
  assumes "unat (sz :: u32) < 2 ^ 31"
  shows "sint sz = int (unat sz)"
proof -
  have "int (unat sz) < int (2 ^ 31)" using assms by (simp only: of_nat_less_iff)
  then have "uint sz < 2 ^ 31" by simp
  then have "signed_take_bit 31 (uint sz) = uint sz"
    using uint_ge_0 [of sz] by (intro signed_take_bit_int_eq_self) linarith+
  then show ?thesis by (simp add: sint_uint)
qed

lemma sint_large:
  assumes "2 ^ 31 \<le> unat (sz :: u32)"
  shows "sint sz < 0"
proof -
  have "int (2 ^ 31) \<le> int (unat sz)" using assms by (simp only: of_nat_le_iff)
  then have "2147483648 \<le> uint sz" by simp
  moreover have "uint sz < 4294967296" using uint_lt2p [of sz] by simp
  ultimately have "uint sz div 2 ^ 31 = 1" by simp
  then have "bit (uint sz) 31" by (simp only: bit_iff_odd) simp
  then have "signed_take_bit 31 (uint sz) = take_bit 32 (uint sz) - 2 ^ 32"
    by (subst signed_take_bit_eq_take_bit_minus) simp
  moreover have "sint sz = signed_take_bit 31 (uint sz)" by (simp add: sint_uint)
  ultimately have "sint sz = take_bit 32 (uint sz) - 2 ^ 32" by (rule trans [rotated])
  then show ?thesis using take_bit_int_less_exp [of 32 "uint sz"] by linarith
qed

lemma enc_add_loop_stop: "\<not> (pos < sz \<and> enc_chunk_filled st \<le> 16) \<Longrightarrow> enc_add_loop data sz pos st = st"
  by (subst enc_add_loop.simps) (rule if_not_P)

lemma dec_add_loop_stop: "\<not> (pos < sz \<and> dec_chunk_filled st \<le> 16) \<Longrightarrow> dec_add_loop data sz pos st = st"
  by (subst dec_add_loop.simps) (rule if_not_P)

lemma enc_add_loop_take:
  "sz \<le> length data \<Longrightarrow> enc_add_loop data sz pos st = enc_add_loop (take sz data) sz pos st"
proof (induction data sz pos st rule: enc_add_loop.induct)
  case (1 data sz pos st)
  show ?case
  proof (cases "pos < sz \<and> enc_chunk_filled st \<le> 16")
    case False
    show ?thesis unfolding enc_add_loop_stop [OF False] by (rule refl)
  next
    case True
    have "slice pos (min (16 - enc_chunk_filled st) (sz - pos)) (take sz data)
        = slice pos (min (16 - enc_chunk_filled st) (sz - pos)) data"
      by (simp add: slice_def drop_take min_def)
    note * = this 1(1) [OF True refl refl refl refl refl refl 1(2)]
    show ?thesis
      unfolding enc_add_loop.simps [of data sz pos st] enc_add_loop.simps [of "take sz data" sz pos st]
      by (simp only: True simp_thms if_True Let_def *)
  qed
qed

lemma dec_add_loop_take:
  "sz \<le> length data \<Longrightarrow> dec_add_loop data sz pos st = dec_add_loop (take sz data) sz pos st"
proof (induction data sz pos st rule: dec_add_loop.induct)
  case (1 data sz pos st)
  show ?case
  proof (cases "pos < sz \<and> dec_chunk_filled st \<le> 16")
    case False
    show ?thesis unfolding dec_add_loop_stop [OF False] by (rule refl)
  next
    case True
    have "slice pos (min (16 - dec_chunk_filled st) (sz - pos)) (take sz data)
        = slice pos (min (16 - dec_chunk_filled st) (sz - pos)) data"
      by (simp add: slice_def drop_take min_def)
    note * = this 1(1) [OF True refl refl refl refl refl refl 1(2)]
    show ?thesis
      unfolding dec_add_loop.simps [of data sz pos st] dec_add_loop.simps [of "take sz data" sz pos st]
      by (simp only: True simp_thms if_True Let_def *)
  qed
qed

text \<open>Both functions are the runs of the cipher objects, with one portion and PKCS#7.\<close>

definition enc_fresh :: "memory_junk \<Rightarrow> AES256_Encrypt_Impl" where
  "enc_fresh j = snd (enc_set_padding True True 0
     (AES256_Encrypt_Impl_new (junk_key j) (junk_iv j) (junk_chunk j)))"

definition dec_fresh :: "memory_junk \<Rightarrow> AES256_Decrypt_Impl" where
  "dec_fresh j = dec_set_padding True True
     (AES256_Decrypt_Impl_new (junk_key j) (junk_iv j) (junk_chunk j))"

lemma enc_add_signed:
  assumes "unat (sz :: u32) \<le> length data"
  shows "enc_add data (sint sz) st = (let d = (if unat sz < 2 ^ 31 then take (unat sz) data else [])
    in enc_add d (int (length d)) st)"
proof (cases "unat sz < 2 ^ 31")
  case True
  have "nat (sint sz) = unat sz" unfolding sint_small [OF True] by (rule nat_int)
  then show ?thesis
    using assms by (simp only: enc_add_def True if_True Let_def enc_add_loop_take [OF assms]
        length_take min_absorb2 nat_int)
next
  case False
  then have "nat (sint sz) = 0" using sint_large [of sz] by simp
  then show ?thesis
    by (simp only: enc_add_def False if_False Let_def list.size of_nat_0 nat_zero_as_int [symmetric]
        enc_add_loop_stop less_irrefl simp_thms nat_0_le)
      (simp add: enc_add_loop_stop)
qed

lemma dec_add_signed:
  assumes "unat (sz :: u32) \<le> length data"
  shows "dec_add data (sint sz) st = (let d = (if unat sz < 2 ^ 31 then take (unat sz) data else [])
    in dec_add d (int (length d)) st)"
proof (cases "unat sz < 2 ^ 31")
  case True
  have "nat (sint sz) = unat sz" unfolding sint_small [OF True] by (rule nat_int)
  then show ?thesis
    using assms by (simp only: dec_add_def True if_True Let_def dec_add_loop_take [OF assms]
        length_take min_absorb2 nat_int)
next
  case False
  then have "nat (sint sz) = 0" using sint_large [of sz] by simp
  then show ?thesis
    by (simp only: dec_add_def False if_False Let_def list.size of_nat_0 nat_zero_as_int [symmetric]
        dec_add_loop_stop less_irrefl simp_thms nat_0_le)
      (simp add: dec_add_loop_stop)
qed

lemma CAes256_Encrypt_session:
  assumes "crypt_readable data sz (convert_ascii iv) key" "unat sz < 2 ^ 31"
  shows "CAes256_Encrypt j data sz iv key =
    (case enc_session (take 32 key) (take 16 (convert_ascii iv)) [take (unat sz) data] (enc_fresh j) of
       (Inl e, st) \<Rightarrow> Some DataBuffer_Impl_new | (Inr _, st) \<Rightarrow> Some (enc_get_data st))"
  using assms enc_add_signed [of sz data]
  by (simp add: CAes256_Encrypt_def enc_session_def enc_fresh_def enc_set_padding_def crypt_readable_def
      Let_def split: prod.split sum.split)

lemma CAes256_Encrypt_huge:
  assumes "crypt_readable data sz (convert_ascii iv) key" "2 ^ 31 \<le> unat sz"
  shows "CAes256_Encrypt j data sz iv key =
    (case enc_session (take 32 key) (take 16 (convert_ascii iv)) [[]] (enc_fresh j) of
       (Inl e, st) \<Rightarrow> Some DataBuffer_Impl_new | (Inr _, st) \<Rightarrow> Some (enc_get_data st))"
  using assms enc_add_signed [of sz data]
  by (simp add: CAes256_Encrypt_def enc_session_def enc_fresh_def enc_set_padding_def crypt_readable_def
      Let_def split: prod.split sum.split)

lemma CAes256_Decrypt_session:
  assumes "crypt_readable data sz (convert_ascii iv) key" "unat sz < 2 ^ 31"
  shows "CAes256_Decrypt j data sz iv key =
    (case dec_session (take 32 key) (take 16 (convert_ascii iv)) [take (unat sz) data] (dec_fresh j) of
       (Inl e, st) \<Rightarrow> Some DataBuffer_Impl_new
     | (Inr rc, st) \<Rightarrow> Some (if rc then dec_get_data st else DataBuffer_Impl_new))"
  using assms dec_add_signed [of sz data]
  by (simp add: CAes256_Decrypt_def dec_session_def dec_fresh_def crypt_readable_def
      Let_def split: prod.split sum.split)

lemma enc_fresh_ok:
  assumes "junk_ok j"
  shows "enc_ok (enc_fresh j)" "\<not> enc_calculated (enc_fresh j)" "enc_out (enc_fresh j) = []"
    "enc_pending (enc_fresh j) = []" "enc_padding_enabled (enc_fresh j)"
    "enc_padding_pkcs7 (enc_fresh j)" "enc_padding_blocks (enc_fresh j) = 0"
  using enc_ok_new [of "junk_key j" "junk_iv j" "junk_chunk j"] assms
  by (simp_all add: enc_fresh_def enc_set_padding_def Let_def junk_ok_def enc_ok_def)
    (simp_all add: AES256_Encrypt_Impl_new_def enc_reset_def enc_out_def enc_pending_def
      contents_def set_size_def)

lemma enc_fresh_session:
  assumes "junk_ok j" "32 \<le> length key" "length data + 1024 < 2 ^ 31"
  shows "\<exists>st'. enc_session (take 32 key) iv [data] (enc_fresh j) = (Inr (), st')
    \<and> buffer_ok (enc_databuffer st')
    \<and> contents (enc_databuffer st') = aes256_cbc_encrypt (take 32 key) iv (pkcs7_pad data)"
  using enc_session_out [OF enc_fresh_ok(1-5) [OF assms(1)], of "take 32 key" "[data]" iv]
    assms enc_fresh_ok(6,7) [OF assms(1)]
  by (auto simp: pad_bytes_def enc_out_def)

text \<open>What the archive stores for a payload.\<close>

definition aes_payload :: "bstring \<Rightarrow> byte list \<Rightarrow> byte list \<Rightarrow> byte list" where
  "aes_payload iv key data =
     aes256_cbc_encrypt (take 32 key) (take 16 (convert_ascii iv)) (pkcs7_pad data)"

lemma length_aes_payload: "length (aes_payload iv key data) = 16 * (length data div 16 + 1)"
proof -
  have "16 * length (blocks_of (pkcs7_pad data)) = length (pkcs7_pad data)"
    using bytes_of_blocks_of [OF length_pkcs7_pad, of data] arg_cong [of _ _ length]
    by (metis length_bytes_of_blocks)
  then show ?thesis by (simp add: aes_payload_def aes256_cbc_encrypt_def length_pkcs7_pad)
qed

lemma encrypt_payload:
  assumes "junk_ok j" "crypt_readable data sz (convert_ascii iv) key" "unat sz + 1024 < 2 ^ 31"
  shows "\<exists>b. CAes256_Encrypt j data sz iv key = Some b \<and> buffer_ok b
    \<and> contents b = aes_payload iv key (take (unat sz) data)"
proof -
  have "32 \<le> length key" "length (take (unat sz) data) + 1024 < 2 ^ 31"
    using assms by (simp_all add: crypt_readable_def)
  then obtain st' where "enc_session (take 32 key) (take 16 (convert_ascii iv)) [take (unat sz) data]
      (enc_fresh j) = (Inr (), st')" "buffer_ok (enc_databuffer st')"
    "contents (enc_databuffer st') = aes_payload iv key (take (unat sz) data)"
    using enc_fresh_session [OF assms(1)] by (force simp: aes_payload_def)
  moreover have "unat sz < 2 ^ 31" using assms(3) by linarith
  ultimately show ?thesis
    by (simp add: CAes256_Encrypt_session [OF assms(2)] enc_get_data_def)
qed

lemma decrypt_payload:
  assumes "junk_ok j" "crypt_readable c sz (convert_ascii iv) key"
    and "take (unat sz) c = aes_payload iv key data" "length data + 2048 < 2 ^ 31"
  shows "\<exists>b. CAes256_Decrypt j c sz iv key = Some b \<and> buffer_ok b \<and> contents b = data"
proof -
  let ?p = "pad_bytes True 0 data"
  have key: "length (junk_key j) = 60" "length (take 32 key) = 32"
    using assms(1,2) by (simp_all add: junk_ok_def crypt_readable_def)
  have "unat sz = 16 * (length data div 16 + 1)"
    using assms(2) arg_cong [OF assms(3), of length] by (simp add: length_aes_payload crypt_readable_def)
  then have small: "unat sz < 2 ^ 31" using assms(4) by simp
  have "length ?p \<le> length data + 16" "?p \<noteq> []"
    by (auto simp: pad_bytes_def pkcs7_pad_def Let_def)
  then obtain st' where "dec_session (take 32 key) (take 16 (convert_ascii iv)) [take (unat sz) c]
      (dec_fresh j) = (Inr (unpad True ?p \<noteq> None), st')" "buffer_ok (dec_databuffer st')"
    "dec_out st' = (case unpad True ?p of None \<Rightarrow> ?p | Some d \<Rightarrow> d)"
    using dec_session_out [OF key, of "[take (unat sz) c]" "take 16 (convert_ascii iv)" ?p "dec_fresh j" True]
      assms(3,4) length_pad_bytes_dvd [of True 0 data]
    by (fastforce simp: aes_payload_def pad_bytes_def dec_fresh_def)
  then show ?thesis
    by (simp add: CAes256_Decrypt_session [OF assms(2) small] unpad_pad dec_get_data_def dec_out_def)
qed

text \<open>
  C7. The archive's use of the cipher is loss-free: \<^verbatim>\<open>CAes256::Decrypt\<close> of what \<^verbatim>\<open>CAes256::Encrypt\<close>
  returned, with the same vector and key, returns the data, for every size below 2 GiB less padding; the
  ciphertext is the AES-256-CBC encryption of the PKCS#7-padded data and its length the next multiple of
  16. Neither call throws or fails.
\<close>

theorem CAes256_round_trip:
  assumes "junk_ok j" "junk_ok j'" "crypt_readable data sz (convert_ascii iv) key"
    and "unat sz + 2048 < 2 ^ 31"
  shows "\<exists>e d. CAes256_Encrypt j data sz iv key = Some e
    \<and> contents e = aes_payload iv key (take (unat sz) data)
    \<and> unat (get_size e) = 16 * (unat sz div 16 + 1)
    \<and> CAes256_Decrypt j' (contents e) (get_size e) iv key = Some d
    \<and> contents d = take (unat sz) data"
proof -
  have "unat sz + 1024 < 2 ^ 31" using assms(4) by linarith
  then obtain e where e: "CAes256_Encrypt j data sz iv key = Some e" "buffer_ok e"
    "contents e = aes_payload iv key (take (unat sz) data)"
    using encrypt_payload [OF assms(1,3)] by blast
  have len: "length (contents e) = unat (get_size e)" using e(2) by (rule length_contents)
  have "crypt_readable (contents e) (get_size e) (convert_ascii iv) key"
    using assms(3) len by (simp add: crypt_readable_def)
  moreover have "length (take (unat sz) data) + 2048 < 2 ^ 31" using assms(4) by simp
  moreover have "take (unat (get_size e)) (contents e) = aes_payload iv key (take (unat sz) data)"
    using len e(3) by simp
  ultimately obtain d where "CAes256_Decrypt j' (contents e) (get_size e) iv key = Some d"
    "contents d = take (unat sz) data"
    using decrypt_payload [OF assms(2)] by blast
  moreover have "unat (get_size e) = 16 * (unat sz div 16 + 1)"
    using len assms(3) by (simp add: e(3) length_aes_payload crypt_readable_def)
  ultimately show ?thesis using e(1,3) by blast
qed

definition sample_junk :: memory_junk where
  "sample_junk = \<lparr>junk_key = replicate 60 0xDEADBEEF, junk_iv = (1, 2, 3, 4), junk_chunk = []\<rparr>"

definition sample_iv :: bstring where
  "sample_iv = [0x30, 0x30, 0x30, 0x31, 0x30, 0x32, 0x30, 0x33, 0x30, 0x34, 0x30, 0x35, 0x30, 0x36,
    0x30, 0x37, 0x30, 0x38, 0x30, 0x39, 0x30, 0x41, 0x30, 0x42, 0x30, 0x43, 0x30, 0x44, 0x30, 0x45,
    0x30, 0x46]"

theorem CAes256_round_trip_witness:
  "\<exists>e d. CAes256_Encrypt sample_junk [10, 20, 30] 3 sample_iv (replicate 32 5) = Some e
    \<and> contents e = aes_payload sample_iv (replicate 32 5) (take (unat (3 :: u32)) [10, 20, 30])
    \<and> unat (get_size e) = 16 * (unat (3 :: u32) div 16 + 1)
    \<and> CAes256_Decrypt sample_junk (contents e) (get_size e) sample_iv (replicate 32 5) = Some d
    \<and> contents d = take (unat (3 :: u32)) [10, 20, 30]"
  by (rule CAes256_round_trip)
    (simp_all add: junk_ok_def sample_junk_def crypt_readable_def length_convert_ascii sample_iv_def)

text \<open>
  A size of 2 GiB or more becomes negative where \<^verbatim>\<open>Encrypt\<close> passes it to \<^verbatim>\<open>add(const void *, int)\<close>:
  nothing of the data is read, and the result is the encryption of the empty string.
\<close>

theorem encrypt_huge_drops_data:
  assumes "junk_ok j" "crypt_readable data sz (convert_ascii iv) key" "2 ^ 31 \<le> unat sz"
  shows "\<exists>e. CAes256_Encrypt j data sz iv key = Some e \<and> contents e = aes_payload iv key []"
proof -
  have "32 \<le> length key" using assms(2) by (simp add: crypt_readable_def)
  then show ?thesis
    using enc_fresh_session [OF assms(1), of key "[]" "take 16 (convert_ascii iv)"]
    by (auto simp: CAes256_Encrypt_huge [OF assms(2,3)] aes_payload_def enc_get_data_def)
qed

theorem encrypt_huge_drops_data_witness:
  "\<exists>e. CAes256_Encrypt sample_junk (replicate (2 ^ 31) 0) 0x80000000 sample_iv (replicate 32 5) = Some e
    \<and> contents e = aes_payload sample_iv (replicate 32 5) []"
  by (rule encrypt_huge_drops_data)
    (simp_all add: junk_ok_def sample_junk_def crypt_readable_def length_convert_ascii sample_iv_def)

text \<open>
  \<^verbatim>\<open>Decrypt\<close> reports failure only by an empty buffer: data whose size is no multiple of 16, or
  zero, gives one.
\<close>

theorem decrypt_refuses_partial_blocks:
  assumes "junk_ok j" "crypt_readable data sz (convert_ascii iv) key" "unat sz + 1024 < 2 ^ 31"
    and "unat sz = 0 \<or> unat sz mod 16 \<noteq> 0"
  shows "\<exists>d. CAes256_Decrypt j data sz iv key = Some d \<and> is_null d"
proof -
  have len: "length (concat [take (unat sz) data]) = unat sz" and small: "unat sz < 2 ^ 31"
    using assms(2,3) by (simp_all add: crypt_readable_def)
  have key: "length (junk_key j) = 60" "length (take 32 key) = 32"
    using assms(1,2) by (simp_all add: junk_ok_def crypt_readable_def)
  have "fst (dec_session (take 32 key) (take 16 (convert_ascii iv)) [take (unat sz) data] (dec_fresh j))
      = Inr False"
    unfolding dec_fresh_def using assms(3,4) len
    by (intro dec_session_incomplete [OF key]) auto
  then show ?thesis
    by (auto simp: CAes256_Decrypt_session [OF assms(2) small] is_null_def DataBuffer_Impl_new_def
        split: prod.split sum.split)
qed

theorem decrypt_refuses_partial_blocks_witness:
  "\<exists>d. CAes256_Decrypt sample_junk (replicate 20 7) 20 sample_iv (replicate 32 5) = Some d \<and> is_null d"
  by (rule decrypt_refuses_partial_blocks)
    (simp_all add: junk_ok_def sample_junk_def crypt_readable_def length_convert_ascii sample_iv_def)

end
