(* ===== verification/Win32_Api.thy ===== *)
theory Win32_Api
  imports Prelude "HOL-Library.AList"
begin

text \<open>
  The Windows file functions that \<^verbatim>\<open>VFSLib\<close> calls are not part of the repository: they are a parameter,
  a record of functions on a world of type \<open>'w\<close>, and every definition that reaches the system takes
  it as an argument. What theorems rely on is stated here as laws about a view of the world: which files
  the disk holds, which handles are open on which file, for writing or not, at which position, which
  mapping objects and mapped views there are, and which paths the system lets the program open.
  The laws are the documented behaviour of the functions: when \<^verbatim>\<open>CreateFileW\<close> and \<^verbatim>\<open>MapViewOfFile\<close> fail, and what
  the others do on a valid handle. That memory, handles and disk space suffice and that nothing else changes the
  files or the access to them meanwhile is assumed with them. \<open>disk_api\<close> at the end is one concrete
  system that satisfies them, used to evaluate theorems at concrete inputs.

  Memory that \<^verbatim>\<open>malloc\<close> or an uninitialised local returns is also drawn from the world.
\<close>

section \<open>The parameter\<close>

datatype disposition = OPEN_ALWAYS | CREATE_ALWAYS | OPEN_EXISTING
datatype seek_origin = FILE_BEGIN | FILE_CURRENT

text \<open>
  \<open>w_CreateFile path write d\<close> opens with \<^verbatim>\<open>GENERIC_READ\<close>, and \<^verbatim>\<open>GENERIC_WRITE\<close> when \<open>write\<close>, sharing for
  reading only, as all calls in the sources do. A result \<open>None\<close> is failure. A mapped view is its base address
  with the bytes it shows.
\<close>

record 'w win32 =
  w_CreateFile :: "wstring \<Rightarrow> bool \<Rightarrow> disposition \<Rightarrow> 'w \<Rightarrow> nat option \<times> 'w"
  w_CloseHandle :: "nat \<Rightarrow> 'w \<Rightarrow> 'w"
  w_ReadFile :: "nat \<Rightarrow> u32 \<Rightarrow> 'w \<Rightarrow> byte list option \<times> 'w"
  w_WriteFile :: "nat \<Rightarrow> byte list \<Rightarrow> 'w \<Rightarrow> u32 option \<times> 'w"
  w_SetFilePointer :: "nat \<Rightarrow> u64 \<Rightarrow> seek_origin \<Rightarrow> 'w \<Rightarrow> u64 option \<times> 'w"
  w_GetFileSize :: "nat \<Rightarrow> 'w \<Rightarrow> u64"
  w_CreateFileMapping :: "nat \<Rightarrow> 'w \<Rightarrow> nat option \<times> 'w"
  w_MapViewOfFile :: "nat \<Rightarrow> u64 \<Rightarrow> u32 \<Rightarrow> 'w \<Rightarrow> (nat \<times> byte list) option \<times> 'w"
  w_UnmapViewOfFile :: "nat \<Rightarrow> 'w \<Rightarrow> 'w"
  w_wfullpath :: "wstring \<Rightarrow> 'w \<Rightarrow> wstring option"
  w_allocation_granularity :: u32
  w_page_size :: u32
  w_uninitialised :: "nat \<Rightarrow> 'w \<Rightarrow> byte list \<times> 'w"

section \<open>A view of the world and the laws\<close>

text \<open>
  \<open>fv_grants w path wr\<close>: the system lets the program open \<open>path\<close>, for writing if \<open>wr\<close>: it is the name of a file and not
  of a directory, its directory exists, and access rights and attributes permit it. \<open>fv_maps\<close> are the handles of mapping
  objects and \<open>fv_views\<close> the base addresses of views, with the file they show.
\<close>

record 'w file_view =
  fv_disk :: "'w \<Rightarrow> wstring \<Rightarrow> byte list option"
  fv_open :: "'w \<Rightarrow> nat \<Rightarrow> (wstring \<times> bool \<times> nat) option"
  fv_grants :: "'w \<Rightarrow> wstring \<Rightarrow> bool \<Rightarrow> bool"
  fv_maps :: "'w \<Rightarrow> nat \<Rightarrow> wstring option"
  fv_views :: "'w \<Rightarrow> nat \<Rightarrow> wstring option"

text \<open>What reading, writing and positioning leave alone altogether.\<close>

definition fv_rest ::
  "'w file_view \<Rightarrow> 'w \<Rightarrow> (wstring \<Rightarrow> bool \<Rightarrow> bool) \<times> (nat \<Rightarrow> wstring option) \<times> (nat \<Rightarrow> wstring option)" where
  "fv_rest v w = (fv_grants v w, fv_maps v w, fv_views v w)"

text \<open>Sharing for reading only: no second handle where one of the two may write.\<close>

definition share_denied :: "'w file_view \<Rightarrow> 'w \<Rightarrow> wstring \<Rightarrow> bool \<Rightarrow> bool" where
  "share_denied v w path wr \<longleftrightarrow> (\<exists>h wr' pos. fv_open v w h = Some (path, wr', pos) \<and> (wr' \<or> wr))"

definition path_mapped :: "'w file_view \<Rightarrow> 'w \<Rightarrow> wstring \<Rightarrow> bool" where
  "path_mapped v w path \<longleftrightarrow> (\<exists>m. fv_maps v w m = Some path) \<or> (\<exists>b. fv_views v w b = Some path)"

text \<open>
  \<^verbatim>\<open>CreateFileW\<close> fails if access is not granted, another handle excludes it, a file to be opened does not exist
  or a file to be truncated is mapped.
\<close>

definition open_refused :: "'w file_view \<Rightarrow> 'w \<Rightarrow> wstring \<Rightarrow> bool \<Rightarrow> disposition \<Rightarrow> bool" where
  "open_refused v w path wr d \<longleftrightarrow> \<not> fv_grants v w path wr \<or> share_denied v w path wr
     \<or> d = OPEN_EXISTING \<and> fv_disk v w path = None \<or> d = CREATE_ALWAYS \<and> path_mapped v w path"

definition can_read :: "'w file_view \<Rightarrow> 'w \<Rightarrow> wstring \<Rightarrow> bool" where
  "can_read v w path \<longleftrightarrow> fv_grants v w path False \<and> \<not> share_denied v w path False"

definition can_create :: "'w file_view \<Rightarrow> 'w \<Rightarrow> wstring \<Rightarrow> bool" where
  "can_create v w path \<longleftrightarrow> fv_grants v w path True \<and> \<not> share_denied v w path True \<and> \<not> path_mapped v w path"

definition write_bytes :: "nat \<Rightarrow> byte list \<Rightarrow> byte list \<Rightarrow> byte list" where
  "write_bytes pos xs bs = overwrite pos xs (bs @ replicate (pos - length bs) 0)"

text \<open>Handles of files and of mapping objects are taken from one table; a new one is not in use.\<close>

definition law_create :: "'w win32 \<Rightarrow> 'w file_view \<Rightarrow> bool" where
  "law_create api v \<longleftrightarrow> (\<forall>w path wr d.
     fv_rest v (snd (w_CreateFile api path wr d w)) = fv_rest v w \<and>
     (if open_refused v w path wr d
      then fst (w_CreateFile api path wr d w) = None
        \<and> fv_disk v (snd (w_CreateFile api path wr d w)) = fv_disk v w
        \<and> fv_open v (snd (w_CreateFile api path wr d w)) = fv_open v w
      else \<exists>h. h \<noteq> 0 \<and> fv_open v w h = None \<and> fv_maps v w h = None \<and> fst (w_CreateFile api path wr d w) = Some h
        \<and> fv_open v (snd (w_CreateFile api path wr d w)) = (fv_open v w)(h \<mapsto> (path, wr, 0))
        \<and> fv_disk v (snd (w_CreateFile api path wr d w)) =
            (if d = CREATE_ALWAYS \<or> fv_disk v w path = None then (fv_disk v w)(path \<mapsto> [])
             else fv_disk v w)))"

text \<open>Closing a handle does not unmap the views of a mapping object.\<close>

definition law_close :: "'w win32 \<Rightarrow> 'w file_view \<Rightarrow> bool" where
  "law_close api v \<longleftrightarrow> (\<forall>w h. fv_disk v (w_CloseHandle api h w) = fv_disk v w
     \<and> fv_open v (w_CloseHandle api h w) = (fv_open v w)(h := None)
     \<and> fv_maps v (w_CloseHandle api h w) = (fv_maps v w)(h := None)
     \<and> fv_views v (w_CloseHandle api h w) = fv_views v w
     \<and> fv_grants v (w_CloseHandle api h w) = fv_grants v w)"

definition law_read :: "'w win32 \<Rightarrow> 'w file_view \<Rightarrow> bool" where
  "law_read api v \<longleftrightarrow> (\<forall>w h path wr pos bs n.
     fv_open v w h = Some (path, wr, pos) \<longrightarrow> fv_disk v w path = Some bs \<longrightarrow>
       fst (w_ReadFile api h n w) = Some (slice pos (unat n) bs)
       \<and> fv_disk v (snd (w_ReadFile api h n w)) = fv_disk v w
       \<and> fv_rest v (snd (w_ReadFile api h n w)) = fv_rest v w
       \<and> fv_open v (snd (w_ReadFile api h n w)) =
           (fv_open v w)(h \<mapsto> (path, wr, pos + length (slice pos (unat n) bs))))"

definition law_write :: "'w win32 \<Rightarrow> 'w file_view \<Rightarrow> bool" where
  "law_write api v \<longleftrightarrow> (\<forall>w h path pos bs xs.
     fv_open v w h = Some (path, True, pos) \<longrightarrow> fv_disk v w path = Some bs \<longrightarrow> length xs < 2 ^ 32 \<longrightarrow>
       fst (w_WriteFile api h xs w) = Some (of_nat (length xs))
       \<and> fv_disk v (snd (w_WriteFile api h xs w)) = (fv_disk v w)(path \<mapsto> write_bytes pos xs bs)
       \<and> fv_rest v (snd (w_WriteFile api h xs w)) = fv_rest v w
       \<and> fv_open v (snd (w_WriteFile api h xs w)) = (fv_open v w)(h \<mapsto> (path, True, pos + length xs)))"

text \<open>A target before the start of the file is an error; the distance is a signed 64-bit number.\<close>

definition law_seek :: "'w win32 \<Rightarrow> 'w file_view \<Rightarrow> bool" where
  "law_seek api v \<longleftrightarrow> (\<forall>w h path wr pos d o'.
     fv_open v w h = Some (path, wr, pos) \<longrightarrow>
       (let target = (case o' of FILE_BEGIN \<Rightarrow> 0 | FILE_CURRENT \<Rightarrow> int pos) + sint d
        in fv_disk v (snd (w_SetFilePointer api h d o' w)) = fv_disk v w
          \<and> fv_rest v (snd (w_SetFilePointer api h d o' w)) = fv_rest v w
          \<and> (if target < 0
             then fst (w_SetFilePointer api h d o' w) = None
               \<and> fv_open v (snd (w_SetFilePointer api h d o' w)) = fv_open v w
             else fst (w_SetFilePointer api h d o' w) = Some (of_int target)
               \<and> fv_open v (snd (w_SetFilePointer api h d o' w)) =
                   (fv_open v w)(h \<mapsto> (path, wr, nat target)))))"

definition law_size :: "'w win32 \<Rightarrow> 'w file_view \<Rightarrow> bool" where
  "law_size api v \<longleftrightarrow> (\<forall>w h path wr pos bs.
     fv_open v w h = Some (path, wr, pos) \<longrightarrow> fv_disk v w path = Some bs \<longrightarrow>
       w_GetFileSize api h w = of_nat (length bs))"

text \<open>
  A mapping object is created from a handle of a file that is not empty; a view of it shows the file from an
  offset that is a multiple of the allocation granularity, \<open>n\<close> bytes of it or, when \<open>n\<close> is 0, all to the end.
  Both last until they are closed and unmapped.
\<close>

definition law_mapping :: "'w win32 \<Rightarrow> 'w file_view \<Rightarrow> bool" where
  "law_mapping api v \<longleftrightarrow> (\<forall>w h.
     let w' = snd (w_CreateFileMapping api h w)
     in fv_disk v w' = fv_disk v w \<and> fv_open v w' = fv_open v w \<and> fv_grants v w' = fv_grants v w
        \<and> fv_views v w' = fv_views v w
        \<and> (case fst (w_CreateFileMapping api h w) of
             None \<Rightarrow> fv_maps v w' = fv_maps v w
           | Some m \<Rightarrow> m \<noteq> 0 \<and> fv_open v w m = None \<and> fv_maps v w m = None
               \<and> (\<exists>path wr pos. fv_open v w h = Some (path, wr, pos) \<and> fv_maps v w' = (fv_maps v w)(m \<mapsto> path))))"

definition law_view :: "'w win32 \<Rightarrow> 'w file_view \<Rightarrow> bool" where
  "law_view api v \<longleftrightarrow> (\<forall>w m off n.
     let w' = snd (w_MapViewOfFile api m off n w)
     in fv_disk v w' = fv_disk v w \<and> fv_open v w' = fv_open v w \<and> fv_grants v w' = fv_grants v w
        \<and> fv_maps v w' = fv_maps v w
        \<and> (case fst (w_MapViewOfFile api m off n w) of
             None \<Rightarrow> fv_views v w' = fv_views v w
           | Some (base, bs) \<Rightarrow> base \<noteq> 0 \<and> fv_views v w base = None
               \<and> (\<exists>path. fv_maps v w m = Some path \<and> fv_views v w' = (fv_views v w)(base \<mapsto> path))))"

definition law_unmap :: "'w win32 \<Rightarrow> 'w file_view \<Rightarrow> bool" where
  "law_unmap api v \<longleftrightarrow> (\<forall>w base.
     fv_disk v (w_UnmapViewOfFile api base w) = fv_disk v w
     \<and> fv_open v (w_UnmapViewOfFile api base w) = fv_open v w
     \<and> fv_grants v (w_UnmapViewOfFile api base w) = fv_grants v w
     \<and> fv_maps v (w_UnmapViewOfFile api base w) = fv_maps v w
     \<and> fv_views v (w_UnmapViewOfFile api base w) = (fv_views v w)(base := None))"

definition law_map :: "'w win32 \<Rightarrow> 'w file_view \<Rightarrow> bool" where
  "law_map api v \<longleftrightarrow> (\<forall>w h path wr pos bs.
     fv_open v w h = Some (path, wr, pos) \<longrightarrow> fv_disk v w path = Some bs \<longrightarrow> bs \<noteq> [] \<longrightarrow>
     (\<exists>m w'. w_CreateFileMapping api h w = (Some m, w') \<and>
       (\<forall>off n. unat off mod unat (w_allocation_granularity api) = 0 \<longrightarrow>
          unat off + unat n \<le> length bs \<longrightarrow> unat off < length bs \<longrightarrow>
          map_option snd (fst (w_MapViewOfFile api m off n w')) =
            Some (slice (unat off) (if n = 0 then length bs else unat n) bs))))"

text \<open>Uninitialised memory has the size asked for; obtaining it leaves the files alone.\<close>

definition law_memory :: "'w win32 \<Rightarrow> 'w file_view \<Rightarrow> bool" where
  "law_memory api v \<longleftrightarrow> (\<forall>w n. length (fst (w_uninitialised api n w)) = n
     \<and> fv_disk v (snd (w_uninitialised api n w)) = fv_disk v w
     \<and> fv_rest v (snd (w_uninitialised api n w)) = fv_rest v w
     \<and> fv_open v (snd (w_uninitialised api n w)) = fv_open v w)"

definition law_path :: "'w win32 \<Rightarrow> bool" where
  "law_path api \<longleftrightarrow> (\<forall>path w p. w_wfullpath api path w = Some p \<longrightarrow>
     0 \<notin> set p \<and> (\<forall>w'. w_wfullpath api p w' = Some p))"

definition win32_files :: "'w win32 \<Rightarrow> 'w file_view \<Rightarrow> bool" where
  "win32_files api v \<longleftrightarrow> law_create api v \<and> law_close api v \<and> law_read api v \<and> law_write api v
     \<and> law_seek api v \<and> law_size api v \<and> law_mapping api v \<and> law_view api v \<and> law_unmap api v
     \<and> law_map api v \<and> law_memory api v \<and> law_path api
     \<and> w_page_size api \<noteq> 0 \<and> w_allocation_granularity api \<noteq> 0"

section \<open>A concrete system\<close>

text \<open>
  Open handles, mappings and views are association lists, a handle's first entry is its state; a new handle or
  address is larger than all old ones. Paths are full paths already, fresh memory holds the byte 0xCD, and
  \<open>dw_denied\<close> are the paths that cannot be opened.
\<close>

record disk_world =
  dw_disk :: "wstring \<Rightarrow> byte list option"
  dw_open :: "(nat \<times> wstring \<times> bool \<times> nat) list"
  dw_maps :: "(nat \<times> wstring) list"
  dw_views :: "(nat \<times> wstring) list"
  dw_denied :: "wstring list"

definition disk_with :: "wstring \<Rightarrow> byte list \<Rightarrow> disk_world" where
  "disk_with path bs = \<lparr>dw_disk = [path \<mapsto> bs], dw_open = [], dw_maps = [], dw_views = [], dw_denied = []\<rparr>"

definition disk_view :: "disk_world file_view" where
  "disk_view = \<lparr>fv_disk = dw_disk, fv_open = (\<lambda>w. map_of (dw_open w)),
     fv_grants = (\<lambda>w path wr. path \<notin> set (dw_denied w)),
     fv_maps = (\<lambda>w. map_of (dw_maps w)), fv_views = (\<lambda>w. map_of (dw_views w))\<rparr>"

definition dw_busy :: "disk_world \<Rightarrow> wstring \<Rightarrow> bool \<Rightarrow> bool" where
  "dw_busy w path wr \<longleftrightarrow> list_ex (\<lambda>(h, _). case map_of (dw_open w) h of
       None \<Rightarrow> False | Some (p, wr', _) \<Rightarrow> p = path \<and> (wr' \<or> wr)) (dw_open w)"

definition dw_mapped :: "disk_world \<Rightarrow> wstring \<Rightarrow> bool" where
  "dw_mapped w path \<longleftrightarrow> list_ex (\<lambda>(m, _). map_of (dw_maps w) m = Some path) (dw_maps w)
     \<or> list_ex (\<lambda>(b, _). map_of (dw_views w) b = Some path) (dw_views w)"

definition dw_fresh :: "disk_world \<Rightarrow> nat" where
  "dw_fresh w = Suc (sum_list (map fst (dw_open w)) + sum_list (map fst (dw_maps w)) + sum_list (map fst (dw_views w)))"

definition dw_create :: "wstring \<Rightarrow> bool \<Rightarrow> disposition \<Rightarrow> disk_world \<Rightarrow> nat option \<times> disk_world" where
  "dw_create path wr d w =
     (if path \<in> set (dw_denied w) \<or> dw_busy w path wr \<or> d = OPEN_EXISTING \<and> dw_disk w path = None
        \<or> d = CREATE_ALWAYS \<and> dw_mapped w path then (None, w)
      else (Some (dw_fresh w), w\<lparr>dw_open := (dw_fresh w, path, wr, 0) # dw_open w,
              dw_disk := (if d = CREATE_ALWAYS \<or> dw_disk w path = None then (dw_disk w)(path \<mapsto> [])
                          else dw_disk w)\<rparr>))"

definition dw_close :: "nat \<Rightarrow> disk_world \<Rightarrow> disk_world" where
  "dw_close h w = w\<lparr>dw_open := AList.delete h (dw_open w), dw_maps := AList.delete h (dw_maps w)\<rparr>"

definition dw_read :: "nat \<Rightarrow> u32 \<Rightarrow> disk_world \<Rightarrow> byte list option \<times> disk_world" where
  "dw_read h n w =
     (case map_of (dw_open w) h of None \<Rightarrow> (None, w)
      | Some (path, wr, pos) \<Rightarrow>
          (case dw_disk w path of None \<Rightarrow> (None, w)
           | Some bs \<Rightarrow> (let x = slice pos (unat n) bs
                        in (Some x, w\<lparr>dw_open := (h, path, wr, pos + length x) # dw_open w\<rparr>))))"

definition dw_write :: "nat \<Rightarrow> byte list \<Rightarrow> disk_world \<Rightarrow> u32 option \<times> disk_world" where
  "dw_write h xs w =
     (case map_of (dw_open w) h of None \<Rightarrow> (None, w)
      | Some (path, wr, pos) \<Rightarrow>
          (case dw_disk w path of None \<Rightarrow> (None, w)
           | Some bs \<Rightarrow>
               if wr then (Some (of_nat (length xs)),
                 w\<lparr>dw_disk := (dw_disk w)(path \<mapsto> write_bytes pos xs bs),
                   dw_open := (h, path, wr, pos + length xs) # dw_open w\<rparr>)
               else (None, w)))"

definition dw_seek :: "nat \<Rightarrow> u64 \<Rightarrow> seek_origin \<Rightarrow> disk_world \<Rightarrow> u64 option \<times> disk_world" where
  "dw_seek h d o' w =
     (case map_of (dw_open w) h of None \<Rightarrow> (None, w)
      | Some (path, wr, pos) \<Rightarrow>
          (let target = (case o' of FILE_BEGIN \<Rightarrow> 0 | FILE_CURRENT \<Rightarrow> int pos) + sint d
           in if target < 0 then (None, w)
              else (Some (of_int target), w\<lparr>dw_open := (h, path, wr, nat target) # dw_open w\<rparr>)))"

definition dw_size :: "nat \<Rightarrow> disk_world \<Rightarrow> u64" where
  "dw_size h w =
     (case map_of (dw_open w) h of None \<Rightarrow> 0
      | Some (path, wr, pos) \<Rightarrow> (case dw_disk w path of None \<Rightarrow> 0 | Some bs \<Rightarrow> of_nat (length bs)))"

definition dw_mapping :: "nat \<Rightarrow> disk_world \<Rightarrow> nat option \<times> disk_world" where
  "dw_mapping h w =
     (case map_of (dw_open w) h of None \<Rightarrow> (None, w)
      | Some (path, wr, pos) \<Rightarrow> (Some (dw_fresh w), w\<lparr>dw_maps := (dw_fresh w, path) # dw_maps w\<rparr>))"

definition dw_map_view :: "nat \<Rightarrow> u64 \<Rightarrow> u32 \<Rightarrow> disk_world \<Rightarrow> (nat \<times> byte list) option \<times> disk_world" where
  "dw_map_view m off n w =
     (case map_of (dw_maps w) m of None \<Rightarrow> (None, w)
      | Some path \<Rightarrow>
          (case dw_disk w path of None \<Rightarrow> (None, w)
           | Some bs \<Rightarrow>
               if length bs < unat off + unat n then (None, w)
               else (Some (dw_fresh w, slice (unat off) (if n = 0 then length bs else unat n) bs),
                 w\<lparr>dw_views := (dw_fresh w, path) # dw_views w\<rparr>)))"

definition dw_unmap :: "nat \<Rightarrow> disk_world \<Rightarrow> disk_world" where
  "dw_unmap base w = w\<lparr>dw_views := AList.delete base (dw_views w)\<rparr>"

definition disk_api :: "disk_world win32" where
  "disk_api = \<lparr>w_CreateFile = dw_create, w_CloseHandle = dw_close, w_ReadFile = dw_read,
     w_WriteFile = dw_write, w_SetFilePointer = dw_seek, w_GetFileSize = dw_size,
     w_CreateFileMapping = dw_mapping, w_MapViewOfFile = dw_map_view, w_UnmapViewOfFile = dw_unmap,
     w_wfullpath = (\<lambda>path w. if 0 \<in> set path then None else Some path), w_allocation_granularity = 65536, w_page_size = 4096,
     w_uninitialised = (\<lambda>n w. (replicate n 0xCD, w))\<rparr>"

lemma dw_busy_iff: "dw_busy w path wr = share_denied disk_view w path wr"
  by (fastforce simp: dw_busy_def share_denied_def disk_view_def list_ex_iff dest: map_of_SomeD
      split: option.splits)

lemma dw_mapped_iff: "dw_mapped w path = path_mapped disk_view w path"
  by (fastforce simp: dw_mapped_def path_mapped_def disk_view_def list_ex_iff dest: map_of_SomeD)

lemma le_sum_list_fst: "(h, x) \<in> set xs \<Longrightarrow> h \<le> sum_list (map fst xs)" for h :: nat
  by (induction xs) auto

lemma dw_fresh_unused:
  "map_of (dw_open w) (dw_fresh w) = None" "map_of (dw_maps w) (dw_fresh w) = None"
  "map_of (dw_views w) (dw_fresh w) = None"
  by (auto simp: map_of_eq_None_iff dw_fresh_def dest: le_sum_list_fst)

lemma dw_fresh_pos: "0 < dw_fresh w"
  by (simp add: dw_fresh_def)

lemmas disk_api_simps = disk_with_def disk_api_def disk_view_def dw_create_def dw_close_def dw_read_def dw_write_def
  dw_seek_def dw_size_def dw_mapping_def dw_map_view_def dw_unmap_def

lemma disk_api_files: "win32_files disk_api disk_view"
proof -
  have "law_create disk_api disk_view"
    unfolding law_create_def open_refused_def dw_busy_iff [symmetric] dw_mapped_iff [symmetric]
    using dw_fresh_unused dw_fresh_pos by (auto simp: disk_api_simps fv_rest_def)
  moreover have "law_close disk_api disk_view" "law_unmap disk_api disk_view"
    by (simp_all add: law_close_def law_unmap_def disk_api_simps AList.delete_conv')
  moreover have "law_read disk_api disk_view" "law_write disk_api disk_view"
    "law_size disk_api disk_view" "law_memory disk_api disk_view" "law_path disk_api"
    by (simp_all add: law_read_def law_write_def law_size_def law_memory_def law_path_def fv_rest_def
        disk_api_simps Let_def)
  moreover have "law_seek disk_api disk_view"
    by (simp add: law_seek_def disk_api_simps Let_def fv_rest_def)
  moreover have "law_mapping disk_api disk_view" "law_view disk_api disk_view"
    by (auto simp: law_mapping_def law_view_def disk_api_simps Let_def dw_fresh_unused dw_fresh_pos split: option.splits)
  moreover have "law_map disk_api disk_view"
    by (auto simp: law_map_def disk_api_simps split: option.splits)
  ultimately show ?thesis by (simp add: win32_files_def disk_api_def)
qed

end
