(* ===== verification/Vfs_File.thy ===== *)
theory Vfs_File
  imports Win32_Api
begin

text \<open>
  \<^verbatim>\<open>VFSLib/src/VFSFile.cpp\<close>: a file object that is a disk file open for writing and reading (\<^verbatim>\<open>OUTPUT\<close>), a
  disk file open for reading (\<^verbatim>\<open>INPUT\<close>), a mapped view or a block of memory. Operations take the Windows
  functions, the object and the world and return their result with the new object and world; \<open>None\<close> for a
  handle is \<^verbatim>\<open>INVALID_HANDLE_VALUE\<close>, for a pointer the null pointer. A block of memory is the list of its
  bytes, a view its base address with the bytes. Copying from beyond it is undefined behaviour, \<open>Undefined\<close>. The mutex of each object and
  the log lines are not modelled: operations are sequential.

  The second half states what clients of a disk file rely on as the interface \<open>file_stream\<close>, and
  interprets it on the operations.
\<close>

section \<open>Objects and operations\<close>

datatype 'a outcome = Returns 'a | Undefined

datatype EFileType =
  FILE_TYPE_NONE | FILE_TYPE_OUTPUT | FILE_TYPE_INPUT | FILE_TYPE_MAPPED | FILE_TYPE_MEMORY | FILE_TYPE_MAX

record CVFSFile =
  m_fileName :: wstring
  m_fileHandle :: "nat option"
  m_mapHandle :: "nat option"
  m_mappedData :: "(nat \<times> byte list) option"
  m_mappedSize :: u64
  m_rawData :: "byte list option"
  m_rawSize :: u64
  m_currPos :: u64
  m_memOwner :: bool
  m_fileType :: EFileType

definition CVFSFile_new :: CVFSFile where
  "CVFSFile_new = \<lparr>m_fileName = [], m_fileHandle = None, m_mapHandle = None, m_mappedData = None,
     m_mappedSize = 0, m_rawData = None, m_rawSize = 0, m_currPos = 0, m_memOwner = False,
     m_fileType = FILE_TYPE_NONE\<rparr>"

text \<open>What a C function sees of a string: the characters before the first zero.\<close>

definition c_str :: "wstring \<Rightarrow> wstring" where
  "c_str s = takeWhile (\<lambda>c. c \<noteq> 0) s"

definition GetAbsolutePath :: "'w win32 \<Rightarrow> wstring \<Rightarrow> 'w \<Rightarrow> wstring" where
  "GetAbsolutePath api path w = (case w_wfullpath api (c_str path) w of None \<Rightarrow> [] | Some p \<Rightarrow> c_str p)"

definition CVFSFile_Close :: "'w win32 \<Rightarrow> CVFSFile \<Rightarrow> 'w \<Rightarrow> CVFSFile \<times> 'w" where
  "CVFSFile_Close api f w =
     (let w = (case m_mappedData f of None \<Rightarrow> w | Some (base, _) \<Rightarrow> w_UnmapViewOfFile api base w);
          w = (case m_mapHandle f of None \<Rightarrow> w | Some h \<Rightarrow> w_CloseHandle api h w);
          w = (case m_fileHandle f of None \<Rightarrow> w | Some h \<Rightarrow> w_CloseHandle api h w)
      in (f\<lparr>m_rawData := None, m_mappedData := None, m_mapHandle := None, m_fileHandle := None,
            m_currPos := 0, m_rawSize := 0, m_mappedSize := 0, m_fileName := [],
            m_fileType := FILE_TYPE_NONE, m_memOwner := False\<rparr>, w))"

definition CVFSFile_Create ::
  "'w win32 \<Rightarrow> wstring \<Rightarrow> bool \<Rightarrow> CVFSFile \<Rightarrow> 'w \<Rightarrow> bool \<times> CVFSFile \<times> 'w" where
  "CVFSFile_Create api filename append' f w =
     (let (f, w) = CVFSFile_Close api f w;
          path = GetAbsolutePath api filename w;
          (h, w) = w_CreateFile api path True (if append' then OPEN_ALWAYS else CREATE_ALWAYS) w;
          f = f\<lparr>m_fileHandle := h\<rparr>
      in if h \<noteq> None
         then (True, f\<lparr>m_fileType := FILE_TYPE_OUTPUT, m_fileName := GetAbsolutePath api filename w\<rparr>, w)
         else (False, f, w))"

definition CVFSFile_Open :: "'w win32 \<Rightarrow> wstring \<Rightarrow> CVFSFile \<Rightarrow> 'w \<Rightarrow> bool \<times> CVFSFile \<times> 'w" where
  "CVFSFile_Open api filename f w =
     (let (f, w) = CVFSFile_Close api f w;
          (h, w) = w_CreateFile api (c_str filename) False OPEN_EXISTING w;
          f = f\<lparr>m_fileHandle := h\<rparr>
      in if h \<noteq> None
         then (True, f\<lparr>m_fileType := FILE_TYPE_INPUT, m_fileName := filename\<rparr>, w)
         else (False, f, w))"

definition CVFSFile_Map ::
  "'w win32 \<Rightarrow> wstring \<Rightarrow> u64 \<Rightarrow> u32 \<Rightarrow> CVFSFile \<Rightarrow> 'w \<Rightarrow> bool \<times> CVFSFile \<times> 'w" where
  "CVFSFile_Map api filename offset sz f w =
     (let (f, w) = CVFSFile_Close api f w;
          (h, w) = w_CreateFile api (GetAbsolutePath api filename w) False OPEN_EXISTING w
      in case h of
           None \<Rightarrow> (False, f, w)
         | Some h \<Rightarrow>
             (let f = f\<lparr>m_fileHandle := Some h\<rparr>;
                  (mh, w) = w_CreateFileMapping api h w
              in case mh of
                   None \<Rightarrow> (False, f\<lparr>m_fileHandle := None\<rparr>, w_CloseHandle api h w)
                 | Some mh \<Rightarrow>
                     (let granularity = ucast (w_allocation_granularity api);
                          offset = offset - offset mod granularity;
                          (mapped, w) = w_MapViewOfFile api mh offset sz w;
                          s = w_GetFileSize api h w;
                          sz = (if sz = 0 then ucast s else sz);
                          raw = map_option (\<lambda>(_, bs). drop (unat (offset mod granularity)) bs) mapped;
                          f = f\<lparr>m_mapHandle := Some mh, m_mappedData := mapped, m_mappedSize := ucast sz,
                                m_rawData := raw, m_rawSize := min (ucast sz) s, m_currPos := 0\<rparr>
                      in if raw \<noteq> None
                         then (True, f\<lparr>m_fileType := FILE_TYPE_MAPPED,
                                       m_fileName := GetAbsolutePath api filename w\<rparr>, w)
                         else (False, f, w))))"

text \<open>\<open>memory\<close> is what the pointer argument points to, \<open>None\<close> for the null pointer.\<close>

definition CVFSFile_Assign ::
  "'w win32 \<Rightarrow> wstring \<Rightarrow> byte list option \<Rightarrow> u32 \<Rightarrow> bool \<Rightarrow> CVFSFile \<Rightarrow> 'w
     \<Rightarrow> bool outcome \<times> CVFSFile \<times> 'w" where
  "CVFSFile_Assign api filename memory len copy f w =
     (let (f, w) = CVFSFile_Close api f w
      in if copy \<and> len \<noteq> 0 \<and> (case memory of None \<Rightarrow> True | Some m \<Rightarrow> length m < unat len)
         then (Undefined, f, w)
         else
           let f = (if copy
                    then f\<lparr>m_rawData := Some (take (unat len) (case memory of None \<Rightarrow> [] | Some m \<Rightarrow> m)),
                           m_rawSize := ucast len, m_memOwner := True\<rparr>
                    else f\<lparr>m_rawData := memory, m_rawSize := ucast len, m_memOwner := False\<rparr>);
               f = (if m_rawData f \<noteq> None
                    then f\<lparr>m_fileType := FILE_TYPE_MEMORY, m_fileName := filename\<rparr> else f)
           in (Returns (m_rawData f \<noteq> None), f, w))"

definition CVFSFile_IsValid :: "CVFSFile \<Rightarrow> bool" where
  "CVFSFile_IsValid f =
     (case m_fileType f of
        FILE_TYPE_OUTPUT \<Rightarrow> m_fileHandle f \<noteq> Some 0 \<and> m_fileHandle f \<noteq> None
      | FILE_TYPE_INPUT \<Rightarrow> m_fileHandle f \<noteq> Some 0 \<and> m_fileHandle f \<noteq> None
      | FILE_TYPE_MAPPED \<Rightarrow> m_rawData f \<noteq> None
      | FILE_TYPE_MEMORY \<Rightarrow> m_rawData f \<noteq> None
      | _ \<Rightarrow> False)"

definition CVFSFile_IsReadable :: "CVFSFile \<Rightarrow> bool" where
  "CVFSFile_IsReadable f = CVFSFile_IsValid f"

definition CVFSFile_IsWriteable :: "CVFSFile \<Rightarrow> bool" where
  "CVFSFile_IsWriteable f \<longleftrightarrow> m_fileType f = FILE_TYPE_OUTPUT \<and> CVFSFile_IsValid f"

definition read_memory :: "CVFSFile \<Rightarrow> u32 \<Rightarrow> byte list outcome \<times> CVFSFile" where
  "read_memory f sz =
     (let len = min (ucast (m_rawSize f - m_currPos f)) sz;
          raw = (case m_rawData f of None \<Rightarrow> [] | Some m \<Rightarrow> m)
      in if unat (m_currPos f) + unat len \<le> length raw
         then (Returns (slice (unat (m_currPos f)) (unat len) raw), f\<lparr>m_currPos := m_currPos f + ucast len\<rparr>)
         else (Undefined, f))"

definition CVFSFile_Read ::
  "'w win32 \<Rightarrow> u32 \<Rightarrow> CVFSFile \<Rightarrow> 'w \<Rightarrow> byte list outcome \<times> CVFSFile \<times> 'w" where
  "CVFSFile_Read api sz f w =
     (if \<not> CVFSFile_IsReadable f then (Returns [], f, w)
      else if m_fileType f = FILE_TYPE_OUTPUT \<or> m_fileType f = FILE_TYPE_INPUT
      then (case w_ReadFile api (the (m_fileHandle f)) sz w of
              (None, w) \<Rightarrow> (Returns [], f, w)
            | (Some bs, w) \<Rightarrow> (Returns bs, f, w))
      else if m_fileType f = FILE_TYPE_MAPPED \<or> m_fileType f = FILE_TYPE_MEMORY
      then (case read_memory f sz of (r, f) \<Rightarrow> (r, f, w))
      else (Returns [], f, w))"

definition CVFSFile_Write ::
  "'w win32 \<Rightarrow> byte list \<Rightarrow> CVFSFile \<Rightarrow> 'w \<Rightarrow> u32 \<times> CVFSFile \<times> 'w" where
  "CVFSFile_Write api buffer f w =
     (if \<not> CVFSFile_IsWriteable f then (0, f, w)
      else (case w_WriteFile api (the (m_fileHandle f)) buffer w of
              (None, w) \<Rightarrow> (0, f, w)
            | (Some written, w) \<Rightarrow> (written, f, w)))"

definition CVFSFile_SetPosition ::
  "'w win32 \<Rightarrow> u64 \<Rightarrow> bool \<Rightarrow> CVFSFile \<Rightarrow> 'w \<Rightarrow> CVFSFile \<times> 'w" where
  "CVFSFile_SetPosition api offset relative f w =
     (if \<not> CVFSFile_IsValid f then (f, w)
      else if m_fileType f = FILE_TYPE_OUTPUT \<or> m_fileType f = FILE_TYPE_INPUT
      then (f, snd (w_SetFilePointer api (the (m_fileHandle f)) offset
                     (if relative then FILE_CURRENT else FILE_BEGIN) w))
      else if m_fileType f = FILE_TYPE_MAPPED \<or> m_fileType f = FILE_TYPE_MEMORY
      then (f\<lparr>m_currPos := (if relative then m_currPos f + offset else offset)\<rparr>, w)
      else (f, w))"

definition CVFSFile_GetSize :: "'w win32 \<Rightarrow> CVFSFile \<Rightarrow> 'w \<Rightarrow> u64" where
  "CVFSFile_GetSize api f w =
     (if \<not> CVFSFile_IsValid f then 0
      else if m_fileType f = FILE_TYPE_OUTPUT \<or> m_fileType f = FILE_TYPE_INPUT
      then w_GetFileSize api (the (m_fileHandle f)) w
      else if m_fileType f = FILE_TYPE_MAPPED \<or> m_fileType f = FILE_TYPE_MEMORY
      then m_rawSize f
      else 0)"

definition CVFSFile_GetPosition :: "'w win32 \<Rightarrow> CVFSFile \<Rightarrow> 'w \<Rightarrow> u64 \<times> 'w" where
  "CVFSFile_GetPosition api f w =
     (if \<not> CVFSFile_IsValid f then (0, w)
      else if m_fileType f = FILE_TYPE_OUTPUT \<or> m_fileType f = FILE_TYPE_INPUT
      then (case w_SetFilePointer api (the (m_fileHandle f)) 0 FILE_CURRENT w of
              (newptr, w) \<Rightarrow> (case newptr of None \<Rightarrow> 0 | Some p \<Rightarrow> p, w))
      else if m_fileType f = FILE_TYPE_MAPPED \<or> m_fileType f = FILE_TYPE_MEMORY
      then (m_currPos f, w)
      else (0, w))"

definition CVFSFile_GetFileName :: "CVFSFile \<Rightarrow> wstring" where
  "CVFSFile_GetFileName f = m_fileName f"

definition CVFSFile_GetFileType :: "CVFSFile \<Rightarrow> EFileType" where
  "CVFSFile_GetFileType f = m_fileType f"

definition CVFSFile_GetData :: "CVFSFile \<Rightarrow> byte list option" where
  "CVFSFile_GetData f = m_rawData f"

section \<open>Disk files as streams\<close>

text \<open>
  The interface: a stream has bytes and a position; \<open>rest\<close> is everything else, which no operation on the
  stream changes. Positions and lengths stay below 2^63, where they are positive file offsets.
\<close>

locale file_stream =
  fixes env :: "'e \<Rightarrow> bool"
    and at :: "'e \<Rightarrow> 's \<Rightarrow> bool \<Rightarrow> nat \<Rightarrow> byte list \<Rightarrow> bool"
    and rest :: "'e \<Rightarrow> 's \<Rightarrow> 'o"
    and get_bytes :: "'e \<Rightarrow> u32 \<Rightarrow> 's \<Rightarrow> byte list outcome \<times> 's"
    and put_bytes :: "'e \<Rightarrow> byte list \<Rightarrow> 's \<Rightarrow> u32 \<times> 's"
    and seek :: "'e \<Rightarrow> u64 \<Rightarrow> 's \<Rightarrow> 's"
    and bytes_left :: "'e \<Rightarrow> 's \<Rightarrow> u64"
    and tell :: "'e \<Rightarrow> 's \<Rightarrow> u64 \<times> 's"
  assumes read_law: "env e \<Longrightarrow> at e s wr pos bs \<Longrightarrow>
      fst (get_bytes e n s) = Returns (slice pos (unat n) bs)
      \<and> at e (snd (get_bytes e n s)) wr (pos + length (slice pos (unat n) bs)) bs
      \<and> rest e (snd (get_bytes e n s)) = rest e s"
    and write_law: "env e \<Longrightarrow> at e s True pos bs \<Longrightarrow> length xs < 2 ^ 32 \<Longrightarrow>
      fst (put_bytes e xs s) = of_nat (length xs)
      \<and> at e (snd (put_bytes e xs s)) True (pos + length xs) (write_bytes pos xs bs)
      \<and> rest e (snd (put_bytes e xs s)) = rest e s"
    and seek_law: "env e \<Longrightarrow> at e s wr pos bs \<Longrightarrow> unat off < 2 ^ 63 \<Longrightarrow>
      at e (seek e off s) wr (unat off) bs \<and> rest e (seek e off s) = rest e s"
    and size_law: "env e \<Longrightarrow> at e s wr pos bs \<Longrightarrow> bytes_left e s = of_nat (length bs)"
    and tell_law: "env e \<Longrightarrow> at e s wr pos bs \<Longrightarrow> pos < 2 ^ 63 \<Longrightarrow>
      fst (tell e s) = of_nat pos \<and> at e (snd (tell e s)) wr pos bs
      \<and> rest e (snd (tell e s)) = rest e s"
begin

lemma read_at_position:
  assumes "env e" "at e s wr pos bs" "unat off < 2 ^ 63"
  shows "fst (get_bytes e n (seek e off s)) = Returns (slice (unat off) (unat n) bs)
    \<and> at e (snd (get_bytes e n (seek e off s))) wr
        (unat off + length (slice (unat off) (unat n) bs)) bs
    \<and> rest e (snd (get_bytes e n (seek e off s))) = rest e s"
  using seek_law [OF assms] read_law [OF assms(1), of "seek e off s" wr "unat off" bs n] by auto

lemma write_inside:
  assumes "env e" "at e s True pos bs" "unat off + length xs \<le> length bs" "length bs < 2 ^ 63"
    and "length xs < 2 ^ 32"
  shows "at e (snd (put_bytes e xs (seek e off s))) True (unat off + length xs)
      (overwrite (unat off) xs bs)
    \<and> rest e (snd (put_bytes e xs (seek e off s))) = rest e s"
proof -
  have "unat off < 2 ^ 63" using assms(3,4) by linarith
  then show ?thesis
    using seek_law [OF assms(1,2)] write_law [OF assms(1), of "seek e off s" "unat off" bs xs] assms
    by (simp add: write_bytes_def)
qed

lemma write_appends:
  assumes "env e" "at e s True (length bs) bs" "length xs < 2 ^ 32"
  shows "at e (snd (put_bytes e xs s)) True (length bs + length xs) (bs @ xs)
    \<and> rest e (snd (put_bytes e xs s)) = rest e s"
  using write_law [OF assms] by (simp add: write_bytes_def overwrite_end)

lemma write_then_read:
  assumes "env e" "at e s True pos bs" "unat off + length xs \<le> length bs" "length bs < 2 ^ 63"
    and "length xs < 2 ^ 32"
  shows "fst (get_bytes e (of_nat (length xs)) (seek e off (snd (put_bytes e xs (seek e off s))))) = Returns xs"
proof -
  have "unat off < 2 ^ 63" using assms(3,4) by linarith
  then show ?thesis
    using read_at_position [OF assms(1) conjunct1 [OF write_inside [OF assms]]] assms(3,5)
    by (simp add: unat_of_nat slice_overwrite_same)
qed

end

section \<open>The interface on the model\<close>

definition file_at ::
  "'w file_view \<Rightarrow> CVFSFile \<Rightarrow> 'w \<Rightarrow> wstring \<Rightarrow> bool \<Rightarrow> nat \<Rightarrow> byte list \<Rightarrow> bool" where
  "file_at v f w path wr pos bs \<longleftrightarrow>
     m_fileHandle f \<noteq> None \<and> m_fileHandle f \<noteq> Some 0
     \<and> m_fileType f = (if wr then FILE_TYPE_OUTPUT else FILE_TYPE_INPUT)
     \<and> fv_open v w (the (m_fileHandle f)) = Some (path, wr, pos) \<and> fv_maps v w (the (m_fileHandle f)) = None
     \<and> fv_disk v w path = Some bs"

type_synonym 'w env = "'w win32 \<times> 'w file_view"

definition stream_env :: "'w env \<Rightarrow> bool" where
  "stream_env e = win32_files (fst e) (snd e)"

definition stream_at :: "'w env \<Rightarrow> CVFSFile \<times> 'w \<Rightarrow> bool \<Rightarrow> nat \<Rightarrow> byte list \<Rightarrow> bool" where
  "stream_at e s wr pos bs \<longleftrightarrow> (\<exists>path. file_at (snd e) (fst s) (snd s) path wr pos bs)"

text \<open>The object itself, the path, the other files and handles, and all mappings and access rights.\<close>

definition stream_path :: "'w env \<Rightarrow> CVFSFile \<times> 'w \<Rightarrow> wstring option" where
  "stream_path e s = map_option fst (fv_open (snd e) (snd s) (the (m_fileHandle (fst s))))"

definition stream_rest ::
  "'w env \<Rightarrow> CVFSFile \<times> 'w
     \<Rightarrow> CVFSFile \<times> wstring option \<times> (wstring \<Rightarrow> byte list option) \<times> (nat \<Rightarrow> (wstring \<times> bool \<times> nat) option)
       \<times> (wstring \<Rightarrow> bool \<Rightarrow> bool) \<times> (nat \<Rightarrow> wstring option) \<times> (nat \<Rightarrow> wstring option)" where
  "stream_rest e s = (fst s, stream_path e s,
     (\<lambda>p. if Some p = stream_path e s then None else fv_disk (snd e) (snd s) p),
     (fv_open (snd e) (snd s))(the (m_fileHandle (fst s)) := None), fv_rest (snd e) (snd s))"

definition stream_read :: "'w env \<Rightarrow> u32 \<Rightarrow> CVFSFile \<times> 'w \<Rightarrow> byte list outcome \<times> CVFSFile \<times> 'w" where
  "stream_read e n s = CVFSFile_Read (fst e) n (fst s) (snd s)"

definition stream_write :: "'w env \<Rightarrow> byte list \<Rightarrow> CVFSFile \<times> 'w \<Rightarrow> u32 \<times> CVFSFile \<times> 'w" where
  "stream_write e xs s = CVFSFile_Write (fst e) xs (fst s) (snd s)"

definition stream_seek :: "'w env \<Rightarrow> u64 \<Rightarrow> CVFSFile \<times> 'w \<Rightarrow> CVFSFile \<times> 'w" where
  "stream_seek e off s = CVFSFile_SetPosition (fst e) off False (fst s) (snd s)"

definition stream_size :: "'w env \<Rightarrow> CVFSFile \<times> 'w \<Rightarrow> u64" where
  "stream_size e s = CVFSFile_GetSize (fst e) (fst s) (snd s)"

definition stream_tell :: "'w env \<Rightarrow> CVFSFile \<times> 'w \<Rightarrow> u64 \<times> CVFSFile \<times> 'w" where
  "stream_tell e s = (case CVFSFile_GetPosition (fst e) (fst s) (snd s) of (p, w) \<Rightarrow> (p, fst s, w))"

lemmas stream_defs = stream_env_def stream_at_def stream_path_def stream_rest_def stream_read_def
  stream_write_def stream_seek_def stream_size_def stream_tell_def

lemma file_at_valid:
  "file_at v f w path wr pos bs \<Longrightarrow> CVFSFile_IsValid f \<and> CVFSFile_IsReadable f
     \<and> (CVFSFile_IsWriteable f \<longleftrightarrow> wr) \<and> (m_fileType f = FILE_TYPE_OUTPUT \<or> m_fileType f = FILE_TYPE_INPUT)"
  by (auto simp: file_at_def CVFSFile_IsValid_def CVFSFile_IsReadable_def CVFSFile_IsWriteable_def)

lemma sint_positive: "unat (off :: u64) < 2 ^ 63 \<Longrightarrow> sint off = int (unat off)"
proof -
  assume "unat off < 2 ^ 63"
  then have "int (unat off) < int (2 ^ 63)" by (simp only: of_nat_less_iff)
  then have "uint off < 2 ^ 63" by simp
  then have "signed_take_bit 63 (uint off) = uint off"
    using uint_ge_0 [of off] by (intro signed_take_bit_int_eq_self) linarith+
  then show ?thesis by (simp add: sint_uint)
qed

interpretation disk: file_stream stream_env stream_at stream_rest stream_read stream_write stream_seek
    stream_size stream_tell
proof unfold_locales
  fix e :: "'a env" and s wr pos bs n
  assume env: "stream_env e" and at: "stream_at e s wr pos bs"
  obtain path where f: "file_at (snd e) (fst s) (snd s) path wr pos bs"
    using at by (auto simp: stream_at_def)
  have law: "law_read (fst e) (snd e)" using env by (simp add: stream_env_def win32_files_def)
  let ?h = "the (m_fileHandle (fst s))"
  have r: "fst (w_ReadFile (fst e) ?h n (snd s)) = Some (slice pos (unat n) bs)"
    "fv_disk (snd e) (snd (w_ReadFile (fst e) ?h n (snd s))) = fv_disk (snd e) (snd s)"
    "fv_rest (snd e) (snd (w_ReadFile (fst e) ?h n (snd s))) = fv_rest (snd e) (snd s)"
    "fv_open (snd e) (snd (w_ReadFile (fst e) ?h n (snd s)))
      = (fv_open (snd e) (snd s))(?h \<mapsto> (path, wr, pos + length (slice pos (unat n) bs)))"
    using law f by (auto simp: law_read_def file_at_def)
  have eq: "stream_read e n s = (Returns (slice pos (unat n) bs), fst s, snd (w_ReadFile (fst e) ?h n (snd s)))"
    using file_at_valid [OF f] r(1) by (auto simp: stream_read_def CVFSFile_Read_def split: prod.split)
  show "fst (stream_read e n s) = Returns (slice pos (unat n) bs)
      \<and> stream_at e (snd (stream_read e n s)) wr (pos + length (slice pos (unat n) bs)) bs
      \<and> stream_rest e (snd (stream_read e n s)) = stream_rest e s"
    using f r(2-4) by (auto simp: eq stream_at_def stream_rest_def fv_rest_def stream_path_def file_at_def)
next
  fix e :: "'a env" and s pos bs and xs :: "byte list"
  assume env: "stream_env e" and at: "stream_at e s True pos bs" and len: "length xs < 2 ^ 32"
  obtain path where f: "file_at (snd e) (fst s) (snd s) path True pos bs"
    using at by (auto simp: stream_at_def)
  have law: "law_write (fst e) (snd e)" using env by (simp add: stream_env_def win32_files_def)
  let ?h = "the (m_fileHandle (fst s))"
  have r: "fst (w_WriteFile (fst e) ?h xs (snd s)) = Some (of_nat (length xs))"
    "fv_disk (snd e) (snd (w_WriteFile (fst e) ?h xs (snd s)))
      = (fv_disk (snd e) (snd s))(path \<mapsto> write_bytes pos xs bs)"
    "fv_rest (snd e) (snd (w_WriteFile (fst e) ?h xs (snd s))) = fv_rest (snd e) (snd s)"
    "fv_open (snd e) (snd (w_WriteFile (fst e) ?h xs (snd s)))
      = (fv_open (snd e) (snd s))(?h \<mapsto> (path, True, pos + length xs))"
    using law f len by (auto simp: law_write_def file_at_def)
  have eq: "stream_write e xs s = (of_nat (length xs), fst s, snd (w_WriteFile (fst e) ?h xs (snd s)))"
    using file_at_valid [OF f] r(1) by (auto simp: stream_write_def CVFSFile_Write_def split: prod.split)
  show "fst (stream_write e xs s) = of_nat (length xs)
      \<and> stream_at e (snd (stream_write e xs s)) True (pos + length xs) (write_bytes pos xs bs)
      \<and> stream_rest e (snd (stream_write e xs s)) = stream_rest e s"
    using f r(2-4) by (auto simp: eq stream_at_def stream_rest_def fv_rest_def stream_path_def file_at_def fun_eq_iff)
next
  fix e :: "'a env" and s wr pos bs and off :: u64
  assume env: "stream_env e" and at: "stream_at e s wr pos bs" and off: "unat off < 2 ^ 63"
  obtain path where f: "file_at (snd e) (fst s) (snd s) path wr pos bs"
    using at by (auto simp: stream_at_def)
  have law: "law_seek (fst e) (snd e)" using env by (simp add: stream_env_def win32_files_def)
  let ?h = "the (m_fileHandle (fst s))"
  let ?r = "w_SetFilePointer (fst e) ?h off FILE_BEGIN (snd s)"
  have "fv_open (snd e) (snd s) ?h = Some (path, wr, pos)" using f by (simp add: file_at_def)
  then have r: "fv_disk (snd e) (snd ?r) = fv_disk (snd e) (snd s)" "fv_rest (snd e) (snd ?r) = fv_rest (snd e) (snd s)"
    "fv_open (snd e) (snd ?r) = (fv_open (snd e) (snd s))(?h \<mapsto> (path, wr, unat off))"
    using law [unfolded law_seek_def, rule_format, of "snd s" ?h path wr pos FILE_BEGIN off]
    by (simp_all add: Let_def sint_positive [OF off] split: if_splits)
  have eq: "stream_seek e off s = (fst s, snd ?r)"
    using file_at_valid [OF f] by (auto simp: stream_seek_def CVFSFile_SetPosition_def)
  show "stream_at e (stream_seek e off s) wr (unat off) bs
      \<and> stream_rest e (stream_seek e off s) = stream_rest e s"
    using f r by (auto simp: eq stream_at_def stream_rest_def fv_rest_def stream_path_def file_at_def)
next
  fix e :: "'a env" and s wr pos bs
  assume env: "stream_env e" and at: "stream_at e s wr pos bs"
  obtain path where f: "file_at (snd e) (fst s) (snd s) path wr pos bs"
    using at by (auto simp: stream_at_def)
  have "law_size (fst e) (snd e)" using env by (simp add: stream_env_def win32_files_def)
  then show "stream_size e s = of_nat (length bs)"
    using f file_at_valid [OF f] by (auto simp: stream_size_def CVFSFile_GetSize_def law_size_def file_at_def)
next
  fix e :: "'a env" and s wr and pos :: nat and bs
  assume env: "stream_env e" and at: "stream_at e s wr pos bs" and pos: "pos < 2 ^ 63"
  obtain path where f: "file_at (snd e) (fst s) (snd s) path wr pos bs"
    using at by (auto simp: stream_at_def)
  have law: "law_seek (fst e) (snd e)" using env by (simp add: stream_env_def win32_files_def)
  let ?h = "the (m_fileHandle (fst s))"
  let ?r = "w_SetFilePointer (fst e) ?h 0 FILE_CURRENT (snd s)"
  have "fv_open (snd e) (snd s) ?h = Some (path, wr, pos)" using f by (simp add: file_at_def)
  then have r: "fst ?r = Some (of_nat pos)" "fv_disk (snd e) (snd ?r) = fv_disk (snd e) (snd s)"
    "fv_rest (snd e) (snd ?r) = fv_rest (snd e) (snd s)"
    "fv_open (snd e) (snd ?r) = (fv_open (snd e) (snd s))(?h \<mapsto> (path, wr, pos))"
    using law [unfolded law_seek_def, rule_format, of "snd s" ?h path wr pos FILE_CURRENT 0]
    by (simp_all add: Let_def)
  have eq: "stream_tell e s = (of_nat pos, fst s, snd ?r)"
    using file_at_valid [OF f] r(1) by (auto simp: stream_tell_def CVFSFile_GetPosition_def split: prod.split)
  show "fst (stream_tell e s) = of_nat pos \<and> stream_at e (snd (stream_tell e s)) wr pos bs
      \<and> stream_rest e (snd (stream_tell e s)) = stream_rest e s"
    using f r by (auto simp: eq stream_at_def stream_rest_def fv_rest_def stream_path_def file_at_def)
qed

section \<open>Memory files\<close>

text \<open>\<open>memory_at f bs p\<close>: a memory file with contents \<open>bs\<close> read up to position \<open>p\<close>.\<close>

definition memory_at :: "CVFSFile \<Rightarrow> byte list \<Rightarrow> nat \<Rightarrow> bool" where
  "memory_at f bs p \<longleftrightarrow> m_fileType f = FILE_TYPE_MEMORY \<and> m_rawData f = Some bs
     \<and> m_rawSize f = of_nat (length bs) \<and> m_currPos f = of_nat p \<and> p \<le> length bs \<and> length bs < 2 ^ 32"

lemma read_memory_at:
  assumes "memory_at f bs p"
  shows "fst (read_memory f n) = Returns (slice p (unat n) bs)
    \<and> memory_at (snd (read_memory f n)) bs (p + length (slice p (unat n) bs))"
proof -
  have small: "length bs < 2 ^ 32" "p \<le> length bs" using assms by (auto simp: memory_at_def)
  have "m_rawSize f - m_currPos f = of_nat (length bs - p)"
    using assms small by (simp add: memory_at_def of_nat_diff)
  moreover have "(ucast (of_nat (length bs - p) :: u64) :: u32) = of_nat (length bs - p)"
    by (rule ucast_of_small_nat) (use small in simp)
  ultimately have left: "ucast (m_rawSize f - m_currPos f) = (of_nat (length bs - p) :: u32)"
    by simp
  define len :: u32 where "len = min (of_nat (length bs - p)) n"
  have l: "unat (of_nat (length bs - p) :: u32) = length bs - p"
    using small by (simp add: unat_of_nat del: of_nat_diff)
  have len: "unat len = min (length bs - p) (unat n)"
    unfolding len_def min_def word_le_nat_alt l by (simp add: l)
  have p: "unat (m_currPos f) = p"
    using assms small by (simp add: memory_at_def unat_of_nat)
  have fits: "p + unat len \<le> length bs" using len small by simp
  have sl: "slice p (unat len) bs = slice p (unat n) bs"
    by (simp add: len slice_def min_def)
  have pos: "m_currPos f + ucast len = of_nat (p + length (slice p (unat n) bs))"
  proof -
    have "length (slice p (unat n) bs) = unat len"
      by (simp add: length_slice len min.commute)
    moreover have "(ucast len :: u64) = of_nat (unat len)" by simp
    ultimately show ?thesis using assms by (simp add: memory_at_def)
  qed
  have eq: "read_memory f n = (Returns (slice p (unat n) bs), f\<lparr>m_currPos := m_currPos f + ucast len\<rparr>)"
    using assms fits unfolding read_memory_def left len_def [symmetric] Let_def p
    by (simp add: memory_at_def sl)
  show ?thesis
    using assms small fits len unfolding eq pos
    by (simp add: memory_at_def length_slice)
qed

text \<open>Reading a memory file with the given sizes, one after another.\<close>

fun read_all :: "'w win32 \<Rightarrow> u32 list \<Rightarrow> CVFSFile \<Rightarrow> 'w \<Rightarrow> byte list outcome list" where
  "read_all api [] f w = []"
| "read_all api (n # ns) f w =
     (case CVFSFile_Read api n f w of (r, f, w) \<Rightarrow> r # read_all api ns f w)"

fun chop :: "u32 list \<Rightarrow> byte list \<Rightarrow> byte list list" where
  "chop [] bs = []"
| "chop (n # ns) bs = take (unat n) bs # chop ns (drop (unat n) bs)"

lemma concat_chop: "concat (chop ns bs) = take (sum_list (map unat ns)) bs"
  by (induction ns arbitrary: bs) (simp_all add: take_add)

lemma Read_memory:
  assumes "memory_at f bs p"
  shows "CVFSFile_Read api n f w = (fst (read_memory f n), snd (read_memory f n), w)"
  using assms by (simp add: CVFSFile_Read_def CVFSFile_IsReadable_def CVFSFile_IsValid_def memory_at_def
      case_prod_unfold)

lemma read_all_memory:
  "memory_at f bs p \<Longrightarrow> read_all api ns f w = map Returns (chop ns (drop p bs))"
proof (induction ns arbitrary: f p)
  case Nil
  then show ?case by simp
next
  case (Cons n ns)
  let ?p = "p + length (slice p (unat n) bs)"
  have "drop ?p bs = drop (unat n) (drop p bs)"
    by (simp add: length_slice add.commute min_def)
  then show ?case
    using Cons.IH [of "snd (read_memory f n)" ?p] read_memory_at [OF Cons.prems, of n]
    by (simp add: Read_memory [OF Cons.prems] slice_def)
qed

lemma Assign_memory:
  assumes "length bs < 2 ^ 32"
  shows "fst (CVFSFile_Assign api name (Some bs) (of_nat (length bs)) copy f w) = Returns True
    \<and> memory_at (fst (snd (CVFSFile_Assign api name (Some bs) (of_nat (length bs)) copy f w))) bs 0"
proof -
  have "unat (of_nat (length bs) :: u32) = length bs" using assms by (simp add: unat_of_nat)
  moreover from this have "(of_nat (length bs) :: u32) = 0 \<longleftrightarrow> bs = []"
    by (metis length_0_conv unat_eq_zero)
  ultimately show ?thesis
    using assms by (auto simp: CVFSFile_Assign_def CVFSFile_Close_def Let_def memory_at_def ucast_of_small_nat)
qed

section \<open>Properties\<close>

text \<open>
  C30. Bytes written into a disk file open for writing, inside its present contents, are what a read at
  the same offset returns, whatever the position before; positions stay below 2^63.
\<close>

theorem file_write_then_read:
  assumes "win32_files api v" "file_at v f w path True pos bs"
    and "unat off + length xs \<le> length bs" "length bs < 2 ^ 63" "length xs < 2 ^ 32"
  shows "(case CVFSFile_SetPosition api off False f w of (f, w) \<Rightarrow>
          case CVFSFile_Write api xs f w of (n, f, w) \<Rightarrow>
          case CVFSFile_SetPosition api off False f w of (f, w) \<Rightarrow>
            fst (CVFSFile_Read api (of_nat (length xs)) f w)) = Returns xs"
proof -
  have "stream_env (api, v)" "stream_at (api, v) (f, w) True pos bs"
    using assms(1,2) by (auto simp: stream_env_def stream_at_def)
  from disk.write_then_read [OF this assms(3-5)] show ?thesis
    by (simp add: stream_read_def stream_write_def stream_seek_def case_prod_unfold)
qed

theorem file_write_then_read_witness:
  "let f = CVFSFile_new\<lparr>m_fileHandle := Some 1, m_fileType := FILE_TYPE_OUTPUT\<rparr>;
     w = (disk_with [97] [1, 2, 3, 4])\<lparr>dw_open := [(1, [97], True, 0)]\<rparr>
   in (case CVFSFile_SetPosition disk_api 1 False f w of (f, w) \<Rightarrow>
       case CVFSFile_Write disk_api [8, 9] f w of (n, f, w) \<Rightarrow>
       case CVFSFile_SetPosition disk_api 1 False f w of (f, w) \<Rightarrow>
         fst (CVFSFile_Read disk_api (of_nat (length [8 :: byte, 9])) f w)) = Returns [8, 9]"
  unfolding Let_def
  by (rule file_write_then_read [OF disk_api_files, where bs = "[1, 2, 3, 4]" and path = "[97]" and pos = 0])
    (simp_all add: file_at_def disk_view_def disk_with_def CVFSFile_new_def)

end
