(* ===== verification/File_Lifecycle.thy ===== *)
theory File_Lifecycle
  imports Vfs_File
begin

text \<open>
  Properties of \<^verbatim>\<open>VFSLib/src/VFSFile.cpp\<close> across operations: the runs of one file object as an inductive
  relation, the invariant of the object and of the handles it holds, the sharing rule between two
  objects on one path, what a mapped view shows, and reads of memory files.
\<close>

section \<open>Runs of one object\<close>

text \<open>
  \<open>file_run api w0 f w\<close>: an object created in world \<open>w0\<close> is \<open>f\<close> in world \<open>w\<close> after some operations, none
  of which had undefined behaviour. The file name, contents, sizes and positions are arbitrary.
\<close>

inductive file_run :: "'w win32 \<Rightarrow> 'w \<Rightarrow> CVFSFile \<Rightarrow> 'w \<Rightarrow> bool" for api w0 where
  run_new: "file_run api w0 CVFSFile_new w0"
| run_create: "file_run api w0 f w \<Longrightarrow> CVFSFile_Create api name append' f w = (r, f', w') \<Longrightarrow>
    file_run api w0 f' w'"
| run_open: "file_run api w0 f w \<Longrightarrow> CVFSFile_Open api name f w = (r, f', w') \<Longrightarrow> file_run api w0 f' w'"
| run_map: "file_run api w0 f w \<Longrightarrow> CVFSFile_Map api name offset sz f w = (r, f', w') \<Longrightarrow>
    file_run api w0 f' w'"
| run_assign: "file_run api w0 f w \<Longrightarrow>
    CVFSFile_Assign api name memory len copy f w = (Returns r, f', w') \<Longrightarrow> file_run api w0 f' w'"
| run_read: "file_run api w0 f w \<Longrightarrow> CVFSFile_Read api n f w = (Returns bs, f', w') \<Longrightarrow>
    file_run api w0 f' w'"
| run_write: "file_run api w0 f w \<Longrightarrow> length xs < 2 ^ 32 \<Longrightarrow> CVFSFile_Write api xs f w = (n, f', w') \<Longrightarrow>
    file_run api w0 f' w'"
| run_seek: "file_run api w0 f w \<Longrightarrow> CVFSFile_SetPosition api off rel f w = (f', w') \<Longrightarrow>
    file_run api w0 f' w'"
| run_tell: "file_run api w0 f w \<Longrightarrow> CVFSFile_GetPosition api f w = (p, w') \<Longrightarrow> file_run api w0 f w'"
| run_close: "file_run api w0 f w \<Longrightarrow> CVFSFile_Close api f w = (f', w') \<Longrightarrow> file_run api w0 f' w'"

text \<open>The type tag says which of the pointers and handles are set.\<close>

definition file_ok :: "CVFSFile \<Rightarrow> bool" where
  "file_ok f =
     ((case m_fileType f of
         FILE_TYPE_NONE \<Rightarrow> m_rawData f = None
       | FILE_TYPE_OUTPUT \<Rightarrow> m_fileHandle f \<noteq> None \<and> m_rawData f = None \<and> m_mapHandle f = None
       | FILE_TYPE_INPUT \<Rightarrow> m_fileHandle f \<noteq> None \<and> m_rawData f = None \<and> m_mapHandle f = None
       | FILE_TYPE_MAPPED \<Rightarrow> m_fileHandle f \<noteq> None \<and> m_mapHandle f \<noteq> None \<and> m_rawData f \<noteq> None
       | FILE_TYPE_MEMORY \<Rightarrow> m_fileHandle f = None \<and> m_mapHandle f = None \<and> m_rawData f \<noteq> None
       | FILE_TYPE_MAX \<Rightarrow> False)
      \<and> (m_mappedData f = None \<longleftrightarrow> m_fileType f \<noteq> FILE_TYPE_MAPPED))"

text \<open>
  Compared with the world the object was created in, at most one more file handle, one more mapping object and one
  more view exist, those of the object; the file handle is open for writing only if the object is an output file.
\<close>

definition holds_handle :: "'w file_view \<Rightarrow> 'w \<Rightarrow> CVFSFile \<Rightarrow> 'w \<Rightarrow> bool" where
  "holds_handle v w0 f w =
     (case m_fileHandle f of
        None \<Rightarrow> fv_open v w = fv_open v w0
      | Some h \<Rightarrow> h \<noteq> 0 \<and> fv_open v w0 h = None \<and> fv_maps v w0 h = None
          \<and> (\<exists>path wr pos bs. fv_open v w = (fv_open v w0)(h \<mapsto> (path, wr, pos))
               \<and> fv_disk v w path = Some bs \<and> wr = (m_fileType f = FILE_TYPE_OUTPUT)))"

definition holds_mapping :: "'w file_view \<Rightarrow> 'w \<Rightarrow> CVFSFile \<Rightarrow> 'w \<Rightarrow> bool" where
  "holds_mapping v w0 f w =
     ((case m_mapHandle f of
         None \<Rightarrow> fv_maps v w = fv_maps v w0
       | Some m \<Rightarrow> m_fileHandle f \<noteq> Some m \<and> fv_open v w0 m = None \<and> fv_maps v w0 m = None
           \<and> (\<exists>path. fv_maps v w = (fv_maps v w0)(m \<mapsto> path)))
      \<and> (case m_mappedData f of
           None \<Rightarrow> fv_views v w = fv_views v w0
         | Some (base, _) \<Rightarrow> fv_views v w0 base = None \<and> (\<exists>path. fv_views v w = (fv_views v w0)(base \<mapsto> path))))"

definition holds :: "'w file_view \<Rightarrow> 'w \<Rightarrow> CVFSFile \<Rightarrow> 'w \<Rightarrow> bool" where
  "holds v w0 f w \<longleftrightarrow> fv_grants v w = fv_grants v w0 \<and> holds_handle v w0 f w \<and> holds_mapping v w0 f w"

lemmas holds_simps = holds_def holds_handle_def holds_mapping_def

lemma Close_file: "fst (CVFSFile_Close api f w) = CVFSFile_new"
  by (simp add: CVFSFile_Close_def CVFSFile_new_def Let_def)

lemma fun_upd_absent: "g h = None \<Longrightarrow> g(h := None) = g"
  by auto

lemma fun_upd_other_absent: "g m = None \<Longrightarrow> h \<noteq> m \<Longrightarrow> (g(h \<mapsto> x))(m := None) = g(h \<mapsto> x)"
  by auto

lemmas close_laws = win32_files_def law_close_def law_unmap_def

lemma Close_handles:
  assumes "win32_files api v" "holds v w0 f w"
  shows "fv_open v (snd (CVFSFile_Close api f w)) = fv_open v w0"
    and "fv_disk v (snd (CVFSFile_Close api f w)) = fv_disk v w"
    and "fv_rest v (snd (CVFSFile_Close api f w)) = fv_rest v w0"
  using assms
  by (auto simp: CVFSFile_Close_def Let_def close_laws holds_simps fv_rest_def
      fun_upd_absent fun_upd_other_absent split: option.splits)

lemma holds_new: "fv_open v w = fv_open v w0 \<Longrightarrow> fv_rest v w = fv_rest v w0 \<Longrightarrow> holds v w0 CVFSFile_new w"
  by (simp add: holds_simps CVFSFile_new_def fv_rest_def)

lemma Create_new:
  "CVFSFile_Create api name app f w =
     (let w = snd (CVFSFile_Close api f w);
          (h, w) = w_CreateFile api (GetAbsolutePath api name w) True (if app then OPEN_ALWAYS else CREATE_ALWAYS) w
      in if h \<noteq> None
         then (True, CVFSFile_new\<lparr>m_fileHandle := h, m_fileType := FILE_TYPE_OUTPUT,
                 m_fileName := GetAbsolutePath api name w\<rparr>, w)
         else (False, CVFSFile_new, w))"
  using Close_file [of api f w]
  by (auto simp: CVFSFile_Create_def case_prod_unfold Let_def CVFSFile_new_def)

lemma Open_new:
  "CVFSFile_Open api name f w =
     (let w = snd (CVFSFile_Close api f w);
          (h, w) = w_CreateFile api (c_str name) False OPEN_EXISTING w
      in if h \<noteq> None
         then (True, CVFSFile_new\<lparr>m_fileHandle := h, m_fileType := FILE_TYPE_INPUT, m_fileName := name\<rparr>, w)
         else (False, CVFSFile_new, w))"
  using Close_file [of api f w]
  by (auto simp: CVFSFile_Open_def case_prod_unfold Let_def CVFSFile_new_def)

lemma CreateFile_cases:
  assumes "win32_files api v"
  obtains (refused) w' where "w_CreateFile api path wr d w = (None, w')"
      "fv_open v w' = fv_open v w" "fv_disk v w' = fv_disk v w" "fv_rest v w' = fv_rest v w"
      "open_refused v w path wr d"
  | (opened) h w' bs where "w_CreateFile api path wr d w = (Some h, w')" "h \<noteq> 0" "fv_open v w h = None" "fv_maps v w h = None"
      "fv_open v w' = (fv_open v w)(h \<mapsto> (path, wr, 0))" "fv_disk v w' path = Some bs" "fv_rest v w' = fv_rest v w"
      "\<not> open_refused v w path wr d" "d \<noteq> CREATE_ALWAYS \<longrightarrow> fv_disk v w path \<noteq> None \<longrightarrow> fv_disk v w' = fv_disk v w"
proof -
  have law: "law_create api v" using assms by (simp add: win32_files_def)
  note law = law [unfolded law_create_def, rule_format, where w = w and path = path and wr = wr and d = d]
  obtain r w' where r: "w_CreateFile api path wr d w = (r, w')" by (cases "w_CreateFile api path wr d w") auto
  have rest: "fv_rest v w' = fv_rest v w" using law r by simp
  show ?thesis
  proof (cases "open_refused v w path wr d")
    case True
    then show ?thesis using law r by (intro refused [of w']) auto
  next
    case False
    obtain h where h: "h \<noteq> 0" "fv_open v w h = None" "fv_maps v w h = None" "r = Some h"
      "fv_open v w' = (fv_open v w)(h \<mapsto> (path, wr, 0))"
      "fv_disk v w' = (if d = CREATE_ALWAYS \<or> fv_disk v w path = None then (fv_disk v w)(path \<mapsto> [])
            else fv_disk v w)"
      using law r False by auto
    obtain bs where "fv_disk v w' path = Some bs" using h(6) by (auto split: if_splits)
    then show ?thesis using h r rest False by (intro opened [of h w' bs]) auto
  qed
qed

lemma holds_opened:
  "m_fileHandle f = Some h \<Longrightarrow> h \<noteq> 0 \<Longrightarrow> fv_open v w0 h = None \<Longrightarrow> fv_maps v w0 h = None \<Longrightarrow>
   fv_open v w = (fv_open v w0)(h \<mapsto> (path, m_fileType f = FILE_TYPE_OUTPUT, pos)) \<Longrightarrow>
   fv_disk v w path = Some bs \<Longrightarrow> fv_grants v w = fv_grants v w0 \<Longrightarrow> holds_mapping v w0 f w \<Longrightarrow>
   holds v w0 f w"
  unfolding holds_def holds_handle_def by (auto intro!: exI [of _ path])

text \<open>A step that moves the position of the object's handle or writes to its file.\<close>

lemma holds_step:
  "holds v w0 f w \<Longrightarrow> m_fileHandle f = Some h \<Longrightarrow> fv_rest v w' = fv_rest v w \<Longrightarrow>
   fv_open v w' = (fv_open v w0)(h \<mapsto> (path, m_fileType f = FILE_TYPE_OUTPUT, pos)) \<Longrightarrow>
   fv_disk v w' path = Some bs \<Longrightarrow> holds v w0 f w'"
  by (intro holds_opened) (auto simp: holds_def holds_handle_def holds_mapping_def fv_rest_def split: option.splits)

lemma Close_split:
  assumes "win32_files api v" "holds v w0 f w"
  obtains wc where "CVFSFile_Close api f w = (CVFSFile_new, wc)" "fv_open v wc = fv_open v w0"
    "fv_rest v wc = fv_rest v w0"
  using Close_file [of api f w] Close_handles(1,3) [OF assms]
  by (cases "CVFSFile_Close api f w") auto

lemma file_ok_new: "file_ok CVFSFile_new"
  by (simp add: file_ok_def CVFSFile_new_def)

lemma new_none [simp]:
  "m_fileType CVFSFile_new = FILE_TYPE_NONE" "m_mapHandle CVFSFile_new = None"
  "m_fileHandle CVFSFile_new = None" "m_rawData CVFSFile_new = None" "m_mappedData CVFSFile_new = None"
  by (simp_all add: CVFSFile_new_def)

lemma rest_maps: "fv_rest v w = fv_rest v w' \<Longrightarrow> fv_maps v w = fv_maps v w' \<and> fv_views v w = fv_views v w' \<and> fv_grants v w = fv_grants v w'"
  by (simp add: fv_rest_def)

lemma run_Create:
  assumes "win32_files api v" "holds v w0 f w" "CVFSFile_Create api name app f w = (r, f', w')"
  shows "file_ok f' \<and> holds v w0 f' w'"
proof -
  obtain wc where c: "CVFSFile_Close api f w = (CVFSFile_new, wc)" "fv_open v wc = fv_open v w0" "fv_rest v wc = fv_rest v w0"
    by (rule Close_split [OF assms(1,2)])
  let ?d = "if app then OPEN_ALWAYS else CREATE_ALWAYS"
  show ?thesis
  proof (rule CreateFile_cases [OF assms(1), of "GetAbsolutePath api name wc" True ?d wc])
    fix w1 assume "w_CreateFile api (GetAbsolutePath api name wc) True ?d wc = (None, w1)"
      "fv_open v w1 = fv_open v wc" "fv_rest v w1 = fv_rest v wc"
    then show ?thesis using assms(3) c by (simp add: Create_new file_ok_new holds_new split: if_splits)
  next
    fix h w1 bs
    assume h: "w_CreateFile api (GetAbsolutePath api name wc) True ?d wc = (Some h, w1)" "h \<noteq> 0"
      "fv_open v wc h = None" "fv_maps v wc h = None" "fv_rest v w1 = fv_rest v wc"
      "fv_open v w1 = (fv_open v wc)(h \<mapsto> (GetAbsolutePath api name wc, True, 0))"
      "fv_disk v w1 (GetAbsolutePath api name wc) = Some bs"
    then have "f' = CVFSFile_new\<lparr>m_fileHandle := Some h, m_fileType := FILE_TYPE_OUTPUT,
        m_fileName := GetAbsolutePath api name w1\<rparr>" "w' = w1"
      using assms(3) c by (auto simp: Create_new)
    then show ?thesis using h c rest_maps [OF h(5)] rest_maps [OF c(3)]
      by (auto simp: file_ok_def holds_mapping_def intro!: holds_opened)
  qed
qed

lemma run_Open:
  assumes "win32_files api v" "holds v w0 f w" "CVFSFile_Open api name f w = (r, f', w')"
  shows "file_ok f' \<and> holds v w0 f' w'"
proof -
  obtain wc where c: "CVFSFile_Close api f w = (CVFSFile_new, wc)" "fv_open v wc = fv_open v w0" "fv_rest v wc = fv_rest v w0"
    by (rule Close_split [OF assms(1,2)])
  show ?thesis
  proof (rule CreateFile_cases [OF assms(1), of "c_str name" False OPEN_EXISTING wc])
    fix w1 assume "w_CreateFile api (c_str name) False OPEN_EXISTING wc = (None, w1)"
      "fv_open v w1 = fv_open v wc" "fv_rest v w1 = fv_rest v wc"
    then show ?thesis using assms(3) c by (simp add: Open_new file_ok_new holds_new)
  next
    fix h w1 bs
    assume h: "w_CreateFile api (c_str name) False OPEN_EXISTING wc = (Some h, w1)" "h \<noteq> 0"
      "fv_open v wc h = None" "fv_maps v wc h = None" "fv_rest v w1 = fv_rest v wc"
      "fv_open v w1 = (fv_open v wc)(h \<mapsto> (c_str name, False, 0))"
      "fv_disk v w1 (c_str name) = Some bs"
    then have "f' = CVFSFile_new\<lparr>m_fileHandle := Some h, m_fileType := FILE_TYPE_INPUT, m_fileName := name\<rparr>"
      "w' = w1"
      using assms(3) c by (auto simp: Open_new)
    then show ?thesis using h c rest_maps [OF h(5)] rest_maps [OF c(3)]
      by (auto simp: file_ok_def holds_mapping_def intro!: holds_opened)
  qed
qed

text \<open>\<^verbatim>\<open>Map\<close> on a closed object, without its nesting.\<close>

definition view_of :: "'w win32 \<Rightarrow> wstring \<Rightarrow> u64 \<Rightarrow> u32 \<Rightarrow> nat \<Rightarrow> nat \<Rightarrow> 'w \<Rightarrow> bool \<times> CVFSFile \<times> 'w" where
  "view_of api filename offset sz h mh w =
     (let granularity = ucast (w_allocation_granularity api);
          offset = offset - offset mod granularity;
          (mapped, w) = w_MapViewOfFile api mh offset sz w;
          s = w_GetFileSize api h w;
          sz = (if sz = 0 then ucast s else sz);
          raw = map_option (\<lambda>(_, bs). drop (unat (offset mod granularity)) bs) mapped;
          f = CVFSFile_new\<lparr>m_fileHandle := Some h, m_mapHandle := Some mh, m_mappedData := mapped,
                m_mappedSize := ucast sz, m_rawData := raw, m_rawSize := min (ucast sz) s, m_currPos := 0\<rparr>
      in if raw \<noteq> None
         then (True, f\<lparr>m_fileType := FILE_TYPE_MAPPED, m_fileName := GetAbsolutePath api filename w\<rparr>, w)
         else (False, f, w))"

lemma Map_view:
  assumes "CVFSFile_Close api f w = (CVFSFile_new, wc)"
    and "w_CreateFile api (GetAbsolutePath api name wc) False OPEN_EXISTING wc = (Some h, w1)"
    and "w_CreateFileMapping api h w1 = (Some mh, w2)"
  shows "CVFSFile_Map api name off sz f w = view_of api name off sz h mh w2"
  using assms by (simp add: CVFSFile_Map_def view_of_def Let_def)

lemma view_of_object:
  assumes "view_of api name off sz h mh w = (r, f', w')"
  shows "file_ok f'" "m_fileHandle f' = Some h" "m_mapHandle f' = Some mh" "m_fileType f' \<noteq> FILE_TYPE_OUTPUT"
    "\<exists>off. (m_mappedData f', w') = w_MapViewOfFile api mh off sz w"
proof -
  let ?o = "off - off mod ucast (w_allocation_granularity api)"
  obtain mapped w1 where m: "w_MapViewOfFile api mh ?o sz w = (mapped, w1)"
    by (cases "w_MapViewOfFile api mh ?o sz w") auto
  have "file_ok f' \<and> m_fileHandle f' = Some h \<and> m_mapHandle f' = Some mh \<and> m_fileType f' \<noteq> FILE_TYPE_OUTPUT
    \<and> (m_mappedData f', w') = (mapped, w1)"
    using assms by (cases mapped) (auto simp: view_of_def Let_def m file_ok_def)
  then show "file_ok f'" "m_fileHandle f' = Some h" "m_mapHandle f' = Some mh" "m_fileType f' \<noteq> FILE_TYPE_OUTPUT"
    "\<exists>off. (m_mappedData f', w') = w_MapViewOfFile api mh off sz w"
    using m by (auto intro!: exI [of _ ?o])
qed

lemma run_Map:
  assumes "win32_files api v" "holds v w0 f w" "CVFSFile_Map api name off sz f w = (r, f', w')"
  shows "file_ok f' \<and> holds v w0 f' w'"
proof -
  obtain wc where c: "CVFSFile_Close api f w = (CVFSFile_new, wc)" "fv_open v wc = fv_open v w0" "fv_rest v wc = fv_rest v w0"
    by (rule Close_split [OF assms(1,2)])
  have laws: "law_mapping api v" "law_view api v" "law_close api v" using assms(1) by (simp_all add: win32_files_def)
  let ?p = "GetAbsolutePath api name wc"
  show ?thesis
  proof (rule CreateFile_cases [OF assms(1), of ?p False OPEN_EXISTING wc])
    fix w1 assume "w_CreateFile api ?p False OPEN_EXISTING wc = (None, w1)"
      "fv_open v w1 = fv_open v wc" "fv_rest v w1 = fv_rest v wc"
    then show ?thesis using assms(3) c by (simp add: CVFSFile_Map_def file_ok_new holds_new)
  next
    fix h w1 bs
    assume h: "w_CreateFile api ?p False OPEN_EXISTING wc = (Some h, w1)" "h \<noteq> 0"
      "fv_open v wc h = None" "fv_maps v wc h = None" "fv_open v w1 = (fv_open v wc)(h \<mapsto> (?p, False, 0))"
      "fv_disk v w1 ?p = Some bs" "fv_rest v w1 = fv_rest v wc"
    obtain mh w2 where m: "w_CreateFileMapping api h w1 = (mh, w2)" by (cases "w_CreateFileMapping api h w1") auto
    note mapping = laws(1) [unfolded law_mapping_def, rule_format, of h w1, unfolded m]
    note same = rest_maps [OF h(7)] rest_maps [OF c(3)]
    show ?thesis
    proof (cases mh)
      case None
      then have "f' = CVFSFile_new" "w' = w_CloseHandle api h w2"
        using assms(3) c h m by (auto simp: CVFSFile_Map_def CVFSFile_new_def)
      moreover have "fv_open v (w_CloseHandle api h w2) = fv_open v w0" "fv_rest v (w_CloseHandle api h w2) = fv_rest v w0"
        using laws(3) mapping None h c same by (simp_all add: law_close_def Let_def fv_rest_def fun_upd_absent fun_upd_idem)
      ultimately show ?thesis by (simp add: file_ok_new holds_new)
    next
      case (Some m')
      note view = view_of_object [OF assms(3) [unfolded Map_view [OF c(1) h(1) m [unfolded Some]]]]
      obtain o' where o': "w_MapViewOfFile api m' o' sz w2 = (m_mappedData f', w')" using view(5) by auto
      note law = laws(2) [unfolded law_view_def, rule_format, of m' o' sz w2, unfolded o']
      have m': "m' \<noteq> h" "fv_open v w0 m' = None" "fv_maps v w0 m' = None" "\<exists>p. fv_maps v w2 = (fv_maps v w0)(m' \<mapsto> p)"
        using mapping Some h(5) c(2) same by (auto simp: Let_def split: if_splits)
      have "holds_mapping v w0 f' w'"
        using law m' view(2,3) mapping same by (auto simp: holds_mapping_def Let_def split: option.splits)
      then have "holds v w0 f' w'"
        using view(2,4) h c same law mapping by (intro holds_opened) (auto simp: Let_def)
      then show ?thesis using view(1) by simp
    qed
  qed
qed

lemma run_Assign:
  assumes "win32_files api v" "holds v w0 f w"
    and "CVFSFile_Assign api name memory len copy f w = (Returns r, f', w')"
  shows "file_ok f' \<and> holds v w0 f' w'"
proof -
  obtain wc where c: "CVFSFile_Close api f w = (CVFSFile_new, wc)" "fv_open v wc = fv_open v w0" "fv_rest v wc = fv_rest v w0"
    by (rule Close_split [OF assms(1,2)])
  obtain raw n own ty fn where f': "f' = CVFSFile_new\<lparr>m_rawData := raw, m_rawSize := n, m_memOwner := own, m_fileType := ty, m_fileName := fn\<rparr>"
    "ty = (if raw = None then FILE_TYPE_NONE else FILE_TYPE_MEMORY)" and w': "w' = wc"
  proof -
    let ?raw = "if copy then Some (take (unat len) (case memory of None \<Rightarrow> [] | Some m \<Rightarrow> m)) else memory"
    show ?thesis
      using assms(3) c(1) that [where raw = ?raw and n = "ucast len" and own = copy
          and ty = "if ?raw = None then FILE_TYPE_NONE else FILE_TYPE_MEMORY" and fn = "if ?raw = None then [] else name"]
      by (auto simp: CVFSFile_Assign_def Let_def CVFSFile_new_def split: if_splits)
  qed
  have "file_ok f'" using f' by (cases raw) (simp_all add: file_ok_def)
  moreover have "holds v w0 f' w'" using f' w' c rest_maps [OF c(3)] by (simp add: holds_simps)
  ultimately show ?thesis by blast
qed

lemma disk_handle:
  assumes "holds v w0 f w" "file_ok f" "m_fileType f = FILE_TYPE_OUTPUT \<or> m_fileType f = FILE_TYPE_INPUT"
  obtains h path pos bs where "m_fileHandle f = Some h" "h \<noteq> 0" "fv_open v w0 h = None" "fv_maps v w0 h = None"
    "fv_open v w = (fv_open v w0)(h \<mapsto> (path, m_fileType f = FILE_TYPE_OUTPUT, pos))"
    "fv_disk v w path = Some bs" "m_mapHandle f = None" "m_mappedData f = None"
proof -
  obtain h where h: "m_fileHandle f = Some h" "m_mapHandle f = None" "m_mappedData f = None"
    using assms(2,3) by (auto simp: file_ok_def)
  moreover have "holds_handle v w0 f w" using assms(1) by (simp add: holds_def)
  ultimately show ?thesis using that [OF h(1)] unfolding holds_handle_def by auto
qed

lemma holds_position [simp]: "holds v w0 (f\<lparr>m_currPos := p\<rparr>) w = holds v w0 f w"
  by (cases "m_fileHandle f"; cases "m_mapHandle f") (simp_all add: holds_simps)

lemma file_ok_position [simp]: "file_ok (f\<lparr>m_currPos := p\<rparr>) = file_ok f"
  by (cases "m_fileType f") (simp_all add: file_ok_def)

lemma read_memory_object: "snd (read_memory f n) = f \<or> (\<exists>p. snd (read_memory f n) = f\<lparr>m_currPos := p\<rparr>)"
  by (auto simp: read_memory_def Let_def)

lemma run_Read:
  assumes "win32_files api v" "holds v w0 f w" "file_ok f" "CVFSFile_Read api n f w = (r, f', w')"
  shows "file_ok f' \<and> holds v w0 f' w'"
proof (cases "m_fileType f = FILE_TYPE_OUTPUT \<or> m_fileType f = FILE_TYPE_INPUT")
  case True
  obtain h path pos bs where h: "m_fileHandle f = Some h" "fv_open v w = (fv_open v w0)(h \<mapsto> (path, m_fileType f = FILE_TYPE_OUTPUT, pos))"
    "fv_disk v w path = Some bs"
    by (rule disk_handle [OF assms(2,3) True])
  have "law_read api v" using assms(1) by (simp add: win32_files_def)
  from this [unfolded law_read_def, rule_format, of w h path _ pos bs n]
  have "fv_disk v (snd (w_ReadFile api h n w)) = fv_disk v w" "fv_rest v (snd (w_ReadFile api h n w)) = fv_rest v w"
    "fv_open v (snd (w_ReadFile api h n w)) = (fv_open v w0)(h \<mapsto> (path, m_fileType f = FILE_TYPE_OUTPUT,
       pos + length (slice pos (unat n) bs)))"
    using h by auto
  then have "holds v w0 f (snd (w_ReadFile api h n w))"
    using h by (intro holds_step [OF assms(2)]) auto
  then show ?thesis using assms True h
    by (auto simp: CVFSFile_Read_def split: if_splits prod.splits option.splits)
next
  case False
  then show ?thesis using assms(2-4) read_memory_object [of f n]
    by (auto simp: CVFSFile_Read_def split: if_splits prod.splits)
qed

lemma run_Write:
  assumes "win32_files api v" "holds v w0 f w" "file_ok f" "length xs < 2 ^ 32"
    and "CVFSFile_Write api xs f w = (n, f', w')"
  shows "file_ok f' \<and> holds v w0 f' w'"
proof (cases "CVFSFile_IsWriteable f")
  case True
  then have ty: "m_fileType f = FILE_TYPE_OUTPUT" by (simp add: CVFSFile_IsWriteable_def)
  obtain h path pos bs where h: "m_fileHandle f = Some h" "fv_open v w = (fv_open v w0)(h \<mapsto> (path, m_fileType f = FILE_TYPE_OUTPUT, pos))"
    "fv_disk v w path = Some bs"
    by (rule disk_handle [OF assms(2,3)]) (use ty in auto)
  have "law_write api v" using assms(1) by (simp add: win32_files_def)
  from this [unfolded law_write_def, rule_format, of w h path pos bs xs]
  have "fv_disk v (snd (w_WriteFile api h xs w)) = (fv_disk v w)(path \<mapsto> write_bytes pos xs bs)"
    "fv_rest v (snd (w_WriteFile api h xs w)) = fv_rest v w"
    "fv_open v (snd (w_WriteFile api h xs w)) = (fv_open v w0)(h \<mapsto> (path, m_fileType f = FILE_TYPE_OUTPUT,
       pos + length xs))"
    using h assms(4) ty by auto
  then have "holds v w0 f (snd (w_WriteFile api h xs w))"
    using h by (intro holds_step [OF assms(2)]) auto
  then show ?thesis using assms True h
    by (auto simp: CVFSFile_Write_def split: if_splits prod.splits option.splits)
next
  case False
  then show ?thesis using assms by (auto simp: CVFSFile_Write_def)
qed

lemma run_pointer:
  assumes "win32_files api v" "holds v w0 f w" "file_ok f"
    and "m_fileType f = FILE_TYPE_OUTPUT \<or> m_fileType f = FILE_TYPE_INPUT"
  shows "holds v w0 f (snd (w_SetFilePointer api (the (m_fileHandle f)) d o' w))"
proof -
  obtain h path pos bs where h: "m_fileHandle f = Some h" "fv_open v w = (fv_open v w0)(h \<mapsto> (path, m_fileType f = FILE_TYPE_OUTPUT, pos))"
    "fv_disk v w path = Some bs"
    by (rule disk_handle [OF assms(2-4)])
  let ?w = "snd (w_SetFilePointer api h d o' w)"
  have "law_seek api v" using assms(1) by (simp add: win32_files_def)
  from this [unfolded law_seek_def, rule_format, of w h path _ pos o' d]
  have "\<exists>pos. fv_disk v ?w = fv_disk v w \<and> fv_rest v ?w = fv_rest v w \<and>
      fv_open v ?w = (fv_open v w0)(h \<mapsto> (path, m_fileType f = FILE_TYPE_OUTPUT, pos))"
    using h by (auto simp: Let_def split: if_splits)
  then obtain pos' where "fv_disk v ?w = fv_disk v w" "fv_rest v ?w = fv_rest v w"
    "fv_open v ?w = (fv_open v w0)(h \<mapsto> (path, m_fileType f = FILE_TYPE_OUTPUT, pos'))" by auto
  then have "holds v w0 f ?w" using h by (intro holds_step [OF assms(2)]) auto
  then show ?thesis using h by simp
qed

lemma run_SetPosition:
  assumes "win32_files api v" "holds v w0 f w" "file_ok f" "CVFSFile_SetPosition api off rel f w = (f', w')"
  shows "file_ok f' \<and> holds v w0 f' w'"
  using assms(2-4) run_pointer [OF assms(1-3)]
  unfolding CVFSFile_SetPosition_def by (auto split: if_splits)

lemma run_GetPosition:
  assumes "win32_files api v" "holds v w0 f w" "file_ok f" "CVFSFile_GetPosition api f w = (p, w')"
  shows "file_ok f \<and> holds v w0 f w'"
  using assms(2-4) run_pointer [OF assms(1-3), of 0 FILE_CURRENT]
  by (auto simp: CVFSFile_GetPosition_def split: if_splits prod.splits option.splits)

lemma file_run_invariant:
  assumes "file_run api w0 f w" "win32_files api v"
  shows "file_ok f \<and> holds v w0 f w"
  using assms(1)
proof induction
  case run_new
  then show ?case by (simp add: file_ok_new holds_new)
next
  case (run_close f w f' w')
  then show ?case using Close_file [of api f w] Close_handles(1,3) [OF assms(2), of w0 f w]
    by (auto simp: file_ok_new holds_new)
qed (blast dest: run_Create [OF assms(2)] run_Open [OF assms(2)] run_Map [OF assms(2)] run_Assign [OF assms(2)]
    run_Read [OF assms(2)] run_Write [OF assms(2)] run_SetPosition [OF assms(2)] run_GetPosition [OF assms(2)])+

lemma Close_new: "CVFSFile_Close api CVFSFile_new w = (CVFSFile_new, w)"
  by (simp add: CVFSFile_Close_def CVFSFile_new_def)

lemma share_denied_read: "share_denied v w p False \<longleftrightarrow> (\<exists>h pos. fv_open v w h = Some (p, True, pos))"
  by (auto simp: share_denied_def) blast

lemma share_denied_write: "share_denied v w p True \<longleftrightarrow> (\<exists>h wr pos. fv_open v w h = Some (p, wr, pos))"
  by (auto simp: share_denied_def)

lemma can_create_open:
  "can_create v w path \<Longrightarrow> d \<noteq> OPEN_EXISTING \<Longrightarrow> \<not> open_refused v w path True d"
  by (auto simp: can_create_def open_refused_def)

lemma open_refused_existing:
  "open_refused v w path False OPEN_EXISTING \<longleftrightarrow> \<not> (can_read v w path \<and> fv_disk v w path \<noteq> None)"
  by (auto simp: can_read_def open_refused_def)

lemma Open_outcome:
  assumes "win32_files api v"
  shows "case CVFSFile_Open api name CVFSFile_new w of (ok, f, w') \<Rightarrow>
    (ok \<longleftrightarrow> fv_disk v w (c_str name) \<noteq> None \<and> can_read v w (c_str name))
    \<and> fv_rest v w' = fv_rest v w \<and> fv_disk v w' = fv_disk v w
    \<and> (if ok then file_at v f w' (c_str name) False 0 (the (fv_disk v w (c_str name)))
          \<and> m_fileName f = name \<and> fv_open v w (the (m_fileHandle f)) = None
          \<and> fv_open v w' = (fv_open v w)(the (m_fileHandle f) \<mapsto> (c_str name, False, 0))
        else f = CVFSFile_new \<and> fv_open v w' = fv_open v w)"
proof (rule CreateFile_cases [OF assms, of "c_str name" False OPEN_EXISTING w])
  fix w1 assume "w_CreateFile api (c_str name) False OPEN_EXISTING w = (None, w1)"
    "fv_open v w1 = fv_open v w" "fv_disk v w1 = fv_disk v w" "fv_rest v w1 = fv_rest v w"
    "open_refused v w (c_str name) False OPEN_EXISTING"
  then show ?thesis by (auto simp: Open_new Close_new open_refused_existing)
next
  fix h w1 bs
  assume h: "w_CreateFile api (c_str name) False OPEN_EXISTING w = (Some h, w1)" "h \<noteq> 0" "fv_open v w h = None"
    "fv_maps v w h = None" "fv_open v w1 = (fv_open v w)(h \<mapsto> (c_str name, False, 0))" "fv_disk v w1 (c_str name) = Some bs"
    "fv_rest v w1 = fv_rest v w" "\<not> open_refused v w (c_str name) False OPEN_EXISTING"
    "OPEN_EXISTING \<noteq> CREATE_ALWAYS \<longrightarrow> fv_disk v w (c_str name) \<noteq> None \<longrightarrow> fv_disk v w1 = fv_disk v w"
  have "fv_disk v w1 = fv_disk v w" using h(8,9) by (simp add: open_refused_existing)
  then show ?thesis using h rest_maps [OF h(7)] by (simp add: Open_new Close_new open_refused_existing file_at_def)
qed

lemma Create_outcome:
  assumes "win32_files api v" and path: "path = GetAbsolutePath api name w"
  shows "case CVFSFile_Create api name app CVFSFile_new w of (ok, f, w') \<Rightarrow>
    (ok \<longleftrightarrow> \<not> open_refused v w path True (if app then OPEN_ALWAYS else CREATE_ALWAYS))
    \<and> fv_rest v w' = fv_rest v w
    \<and> (if ok then file_at v f w' path True 0
            (case fv_disk v w path of None \<Rightarrow> [] | Some bs \<Rightarrow> if app then bs else [])
          \<and> m_fileName f = GetAbsolutePath api name w' \<and> fv_open v w (the (m_fileHandle f)) = None
          \<and> fv_open v w' = (fv_open v w)(the (m_fileHandle f) \<mapsto> (path, True, 0))
          \<and> (\<forall>p. p \<noteq> path \<longrightarrow> fv_disk v w' p = fv_disk v w p)
        else f = CVFSFile_new \<and> fv_disk v w' = fv_disk v w \<and> fv_open v w' = fv_open v w)"
proof -
  let ?d = "if app then OPEN_ALWAYS else CREATE_ALWAYS"
  have "law_create api v" using assms(1) by (simp add: win32_files_def)
  note law = this [unfolded law_create_def, rule_format, where w = w and path = path and wr = True and d = ?d]
  obtain h w1 where r: "w_CreateFile api path True ?d w = (h, w1)"
    by (cases "w_CreateFile api path True ?d w") auto
  note law = law [unfolded r fst_conv snd_conv]
  show ?thesis
  proof (cases "open_refused v w path True ?d")
    case True
    then show ?thesis using law r path by (simp add: Create_new Close_new)
  next
    case False
    then obtain h' where h: "h' \<noteq> 0" "fv_open v w h' = None" "fv_maps v w h' = None" "h = Some h'"
      "fv_open v w1 = (fv_open v w)(h' \<mapsto> (path, True, 0))" "fv_rest v w1 = fv_rest v w"
      "fv_disk v w1 = (if ?d = CREATE_ALWAYS \<or> fv_disk v w path = None then (fv_disk v w)(path \<mapsto> []) else fv_disk v w)"
      using law by auto
    show ?thesis
      using h False r rest_maps [OF h(6)] path by (auto simp: Create_new Close_new file_at_def split: option.split)
  qed
qed

text \<open>Reading and writing do not touch mappings, and an object that has none is closed by closing its handle.\<close>

lemma Close_disk:
  assumes "win32_files api v" "m_mapHandle f = None" "m_fileHandle f = Some h"
  shows "fv_disk v (snd (CVFSFile_Close api f w)) = fv_disk v w"
    "fv_open v (snd (CVFSFile_Close api f w)) = (fv_open v w)(h := None)"
    "fv_maps v w h = None \<Longrightarrow> m_mappedData f = None \<Longrightarrow> fv_rest v (snd (CVFSFile_Close api f w)) = fv_rest v w"
  using assms by (auto simp: CVFSFile_Close_def Let_def close_laws fv_rest_def fun_upd_absent split: option.splits)

section \<open>Properties\<close>

text \<open>
  C21. Whatever operations a file object goes through, its type tag agrees with its pointers and handles, it
  is valid exactly when the tag is set, and closing it leaves open exactly the file handles, the mapping objects
  and the mapped views that there were when it was created: no operation, failed ones included, leaks one.
\<close>

theorem file_run_releases:
  assumes "file_run api w0 f w" "win32_files api v"
  shows "file_ok f \<and> (CVFSFile_IsValid f \<longleftrightarrow> m_fileType f \<noteq> FILE_TYPE_NONE)
    \<and> fv_open v (snd (CVFSFile_Close api f w)) = fv_open v w0
    \<and> fv_maps v (snd (CVFSFile_Close api f w)) = fv_maps v w0
    \<and> fv_views v (snd (CVFSFile_Close api f w)) = fv_views v w0"
proof -
  have inv: "file_ok f" "holds v w0 f w" using file_run_invariant [OF assms] by auto
  have "holds_handle v w0 f w" using inv(2) by (simp add: holds_def)
  then have "CVFSFile_IsValid f \<longleftrightarrow> m_fileType f \<noteq> FILE_TYPE_NONE"
    using inv(1) by (cases "m_fileType f") (auto simp: CVFSFile_IsValid_def file_ok_def holds_handle_def)
  then show ?thesis
    using inv(1) Close_handles(1) [OF assms(2) inv(2)] rest_maps [OF Close_handles(3) [OF assms(2) inv(2)]] by simp
qed

text \<open>A mapped file: before it is closed there is a view, afterwards there is none.\<close>

theorem file_run_releases_witness:
  "let w0 = disk_with [97] [1, 2, 3];
     (r, f, w) = CVFSFile_Map disk_api [97] 0 0 CVFSFile_new w0
   in r \<and> dw_views w \<noteq> [] \<and> fv_open disk_view (snd (CVFSFile_Close disk_api f w)) = fv_open disk_view w0
     \<and> fv_maps disk_view (snd (CVFSFile_Close disk_api f w)) = fv_maps disk_view w0
     \<and> fv_views disk_view (snd (CVFSFile_Close disk_api f w)) = fv_views disk_view w0"
proof -
  let ?w0 = "disk_with [97] [1, 2, 3]"
  obtain r f w where m: "CVFSFile_Map disk_api [97] 0 0 CVFSFile_new ?w0 = (r, f, w)"
    by (cases "CVFSFile_Map disk_api [97] 0 0 CVFSFile_new ?w0") auto
  have "r \<and> dw_views w \<noteq> []"
    using m by (auto simp: CVFSFile_Map_def Close_new GetAbsolutePath_def disk_api_simps dw_busy_def dw_mapped_def c_str_def Let_def)
  then show ?thesis
    using file_run_releases [OF run_map [OF run_new m] disk_api_files] m by simp
qed

lemma file_size_law:
  "win32_files api v \<Longrightarrow> fv_open v w h = Some (path, wr, pos) \<Longrightarrow> fv_disk v w path = Some bs \<Longrightarrow>
   w_GetFileSize api h w = of_nat (length bs)"
  by (simp add: win32_files_def law_size_def)

lemma unat_rounded:
  fixes x g :: u64
  shows "unat (x - x mod g) = unat x - unat x mod unat g" "(x - x mod g) mod g = 0"
proof -
  have "x mod g \<le> x" by (simp add: word_le_nat_alt unat_mod mod_less_eq_dividend)
  then show u: "unat (x - x mod g) = unat x - unat x mod unat g"
    by (simp add: unat_sub unat_mod)
  show "(x - x mod g) mod g = 0"
    by (simp only: word_unat_eq_iff unat_mod u unat_0) (simp add: minus_mod_eq_mult_div)
qed

lemma Map_rounded:
  assumes "win32_files api v" "\<And>u. GetAbsolutePath api name u = path" "fv_disk v w path = Some bs"
    and "can_read v w path" "n \<noteq> 0" "length bs < 2 ^ 64"
    and start: "start = unat offset - unat offset mod unat (w_allocation_granularity api)"
    and "start + unat n \<le> length bs"
  shows "case CVFSFile_Map api name offset n CVFSFile_new w of (ok, f, w') \<Rightarrow>
    ok \<and> CVFSFile_GetData f = Some (slice start (unat n) bs) \<and> CVFSFile_GetSize api f w' = ucast n"
proof -
  let ?g = "ucast (w_allocation_granularity api) :: u64"
  let ?o = "offset - offset mod ?g"
  obtain h w1 where h: "w_CreateFile api path False OPEN_EXISTING w = (Some h, w1)"
    "fv_open v w1 = (fv_open v w)(h \<mapsto> (path, False, 0))" "fv_disk v w1 = fv_disk v w"
    by (rule CreateFile_cases [OF assms(1), of path False OPEN_EXISTING w])
      (use assms(3,4) in \<open>auto simp: open_refused_existing\<close>)
  have "0 < unat n" using assms(5) by (simp add: unat_gt_0)
  then have bs: "bs \<noteq> []" "start < length bs" using assms(8) by auto
  have "unat ?g = unat (w_allocation_granularity api)" by (rule unat_ucast_u32)
  then have o': "unat ?o = start" by (simp only: unat_rounded start)
  have o0: "unat ?o mod unat (w_allocation_granularity api) = 0"
    unfolding o' start by (simp add: minus_mod_eq_mult_div)
  have lm: "law_map api v" using assms(1) by (simp add: win32_files_def)
  have open1: "fv_open v w1 h = Some (path, False, 0)" "fv_disk v w1 path = Some bs"
    using h(2,3) assms(3) by simp_all
  obtain mh w2 where "w_CreateFileMapping api h w1 = (Some mh, w2)"
    and view: "\<forall>off n. unat off mod unat (w_allocation_granularity api) = 0 \<longrightarrow> unat off + unat n \<le> length bs \<longrightarrow>
      unat off < length bs \<longrightarrow> map_option snd (fst (w_MapViewOfFile api mh off n w2)) =
        Some (slice (unat off) (if n = 0 then length bs else unat n) bs)"
    using lm [unfolded law_map_def, rule_format, OF open1 bs(1)] by blast
  note m = this(1) view [rule_format, of ?o n, unfolded o']
  have m: "w_CreateFileMapping api h w1 = (Some mh, w2)"
    "map_option snd (fst (w_MapViewOfFile api mh ?o n w2)) = Some (slice start (unat n) bs)"
    using m o0 o' assms(5,8) bs(2) by simp_all
  obtain b w3 where w3: "w_MapViewOfFile api mh ?o n w2 = (Some (b, slice start (unat n) bs), w3)"
    using m(2) by (cases "w_MapViewOfFile api mh ?o n w2") auto
  have laws: "law_mapping api v" "law_view api v" using assms(1) by (simp_all add: win32_files_def)
  have same: "fv_open v w3 = fv_open v w1" "fv_disk v w3 = fv_disk v w1"
    using laws(1) [unfolded law_mapping_def, rule_format, of h w1] laws(2) [unfolded law_view_def, rule_format, of mh ?o n w2] m(1) w3
    by (simp_all add: Let_def)
  have sz: "w_GetFileSize api h w3 = of_nat (length bs)"
    by (rule file_size_law [OF assms(1)]) (use open1 same in auto)
  have "(ucast n :: u64) \<le> of_nat (length bs)"
    using assms(6,8) by (simp add: word_le_nat_alt unat_of_nat unat_ucast_u32)
  moreover have "unat (?o mod ?g) = 0" by (simp add: unat_rounded)
  moreover have "CVFSFile_Map api name offset n CVFSFile_new w = view_of api name offset n h mh w2"
    by (rule Map_view [OF Close_new _ m(1)]) (simp add: assms(2) h(1))
  ultimately show ?thesis
    using assms(5) by (simp add: view_of_def Let_def w3 sz CVFSFile_GetData_def CVFSFile_GetSize_def
        CVFSFile_IsValid_def min_def)
qed

text \<open>
  \<^verbatim>\<open>Map\<close> at an offset shows the file from the offset rounded down to the allocation granularity, not
  from the offset: the distance is computed after the offset has been rounded, so it is always 0.
\<close>

theorem Map_shows_rounded_offset:
  assumes "win32_files api v" "\<And>u. GetAbsolutePath api name u = path" "fv_disk v w path = Some bs"
    and "can_read v w path" "n \<noteq> 0" "length bs < 2 ^ 64"
    and start: "start = unat offset - unat offset mod unat (w_allocation_granularity api)"
    and "start + unat n \<le> length bs"
  shows "case CVFSFile_Map api name offset n CVFSFile_new w of (ok, f, w') \<Rightarrow>
    ok \<and> CVFSFile_GetData f = Some (slice start (unat n) bs) \<and> CVFSFile_GetSize api f w' = ucast n"
  using assms by (rule Map_rounded)

theorem Map_shows_rounded_offset_witness:
  "CVFSFile_GetData (fst (snd (CVFSFile_Map disk_api [97] 2 2 CVFSFile_new
     (disk_with [97] [10, 20, 30, 40])))) = Some [10, 20]"
proof -
  have "case CVFSFile_Map disk_api [97] 2 2 CVFSFile_new
      (disk_with [97] [10, 20, 30, 40]) of (ok, f, w') \<Rightarrow>
    ok \<and> CVFSFile_GetData f = Some (slice 0 (unat (2 :: u32)) [10, 20, 30, 40])
      \<and> CVFSFile_GetSize disk_api f w' = ucast (2 :: u32)"
    by (rule Map_shows_rounded_offset [OF disk_api_files, where path = "[97]"])
      (simp_all add: GetAbsolutePath_def c_str_def disk_with_def disk_api_def disk_view_def can_read_def share_denied_def)
  then show ?thesis by (simp add: case_prod_unfold slice_def)
qed

text \<open>
  C34. A file made from memory reads like the block it was made from: reads of any sizes return
  consecutive pieces of it, shorter or empty at the end.
\<close>

theorem memory_file_reads:
  assumes "length bs < 2 ^ 32"
  shows "(case CVFSFile_Assign api name (Some bs) (of_nat (length bs)) copy f w of (r, f, w) \<Rightarrow>
    r = Returns True \<and> CVFSFile_GetFileName f = name \<and> CVFSFile_GetSize api f w = of_nat (length bs)
    \<and> read_all api ns f w = map Returns (chop ns bs)
    \<and> concat (chop ns bs) = take (sum_list (map unat ns)) bs)"
proof -
  have a: "fst (CVFSFile_Assign api name (Some bs) (of_nat (length bs)) copy f w) = Returns True"
    "memory_at (fst (snd (CVFSFile_Assign api name (Some bs) (of_nat (length bs)) copy f w))) bs 0"
    by (rule conjunct1 [OF Assign_memory [OF assms]], rule conjunct2 [OF Assign_memory [OF assms]])
  have "m_fileName (fst (snd (CVFSFile_Assign api name (Some bs) (of_nat (length bs)) copy f w))) = name"
    using a(1) by (auto simp: CVFSFile_Assign_def Let_def case_prod_unfold split: if_splits)
  then show ?thesis
    using a read_all_memory [OF a(2), of api ns] concat_chop [of ns bs]
    by (simp add: case_prod_unfold CVFSFile_GetFileName_def CVFSFile_GetSize_def CVFSFile_IsValid_def memory_at_def)
qed

theorem memory_file_reads_witness:
  "case CVFSFile_Assign disk_api [97] (Some [1, 2, 3]) 3 True CVFSFile_new (disk_with [] []) of (r, f, w) \<Rightarrow>
     read_all disk_api [2, 2, 2] f w = [Returns [1, 2], Returns [3], Returns []]"
  using memory_file_reads [where bs = "[1, 2, 3]" and api = disk_api and name = "[97]" and copy = True
      and f = CVFSFile_new and w = "disk_with [] []" and ns = "[2, 2, 2]"]
  by (simp add: case_prod_unfold del: read_all.simps)

text \<open>
  Setting the position of a memory file beyond its end and reading is undefined behaviour: the
  number of bytes left is computed as an unsigned difference, which wraps, so the read copies from
  behind the block. At the end itself a read returns nothing.
\<close>

theorem read_behind_memory_undefined:
  assumes "memory_at f bs p" "length bs < unat off"
  shows "fst (CVFSFile_Read api n (fst (CVFSFile_SetPosition api off False f w)) w) = Undefined
    \<and> fst (CVFSFile_Read api n (fst (CVFSFile_SetPosition api (of_nat (length bs)) False f w)) w) = Returns []"
proof -
  let ?e = "f\<lparr>m_currPos := of_nat (length bs)\<rparr>"
  have set: "CVFSFile_SetPosition api off' False f w = (f\<lparr>m_currPos := off'\<rparr>, w)" for off'
    using assms(1) by (simp add: CVFSFile_SetPosition_def CVFSFile_IsValid_def memory_at_def)
  have "memory_at ?e bs (length bs)" using assms(1) by (simp add: memory_at_def)
  from Read_memory [OF this, of api n w] read_memory_at [OF this, of n]
  have e: "fst (CVFSFile_Read api n ?e w) = Returns []" by (simp add: slice_def)
  show ?thesis
    using assms e unfolding set fst_conv
    by (simp add: CVFSFile_Read_def CVFSFile_IsReadable_def CVFSFile_IsValid_def memory_at_def
        read_memory_def Let_def)
qed

theorem read_behind_memory_undefined_witness:
  "fst (CVFSFile_Read disk_api 1 (fst (CVFSFile_SetPosition disk_api 5 False
      (CVFSFile_new\<lparr>m_fileType := FILE_TYPE_MEMORY, m_rawData := Some [1, 2, 3], m_rawSize := 3\<rparr>) (disk_with [] []))) (disk_with [] [])) = Undefined"
  by (rule conjunct1, rule read_behind_memory_undefined [where bs = "[1, 2, 3]" and p = 0])
    (simp_all add: memory_at_def CVFSFile_new_def)

end
