(* ===== verification/Xxh32.thy ===== *)
theory Xxh32
  imports Prelude
begin

text \<open>
  \<^verbatim>\<open>3rd/xxHash/xxhash.c\<close>, the 32-bit hash the archive uses for names and contents: the one-shot function
  \<^verbatim>\<open>XXH32\<close>, the streaming functions, and the algorithm as \<^verbatim>\<open>doc/xxhash_spec.md\<close> of the same directory
  describes it. A pointer into the input is the list of the bytes from there to the end; reads are
  little-endian, aligned and unaligned reads are the same.
\<close>

section \<open>The code\<close>

definition PRIME32_1 :: u32 where "PRIME32_1 = 2654435761"
definition PRIME32_2 :: u32 where "PRIME32_2 = 2246822519"
definition PRIME32_3 :: u32 where "PRIME32_3 = 3266489917"
definition PRIME32_4 :: u32 where "PRIME32_4 = 668265263"
definition PRIME32_5 :: u32 where "PRIME32_5 = 374761393"

definition XXH_rotl32 :: "u32 \<Rightarrow> nat \<Rightarrow> u32" where
  "XXH_rotl32 x r = push_bit r x OR drop_bit (32 - r) x"

definition XXH_swap32 :: "u32 \<Rightarrow> u32" where
  "XXH_swap32 x = (push_bit 24 x AND 0xff000000) OR (push_bit 8 x AND 0x00ff0000)
     OR (drop_bit 8 x AND 0x0000ff00) OR (drop_bit 24 x AND 0x000000ff)"

definition XXH_readLE32 :: "byte list \<Rightarrow> u32" where
  "XXH_readLE32 p = le_word (take 4 p)"

definition XXH_readBE32 :: "byte list \<Rightarrow> u32" where
  "XXH_readBE32 p = XXH_swap32 (XXH_readLE32 p)"

definition XXH32_round :: "u32 \<Rightarrow> u32 \<Rightarrow> u32" where
  "XXH32_round acc input =
     (let acc = acc + input * PRIME32_2;
          acc = XXH_rotl32 acc 13
      in acc * PRIME32_1)"

definition XXH32_avalanche :: "u32 \<Rightarrow> u32" where
  "XXH32_avalanche h32 =
     (let h32 = h32 XOR drop_bit 15 h32;
          h32 = h32 * PRIME32_2;
          h32 = h32 XOR drop_bit 13 h32;
          h32 = h32 * PRIME32_3
      in h32 XOR drop_bit 16 h32)"

text \<open>\<^verbatim>\<open>PROCESS1\<close> and \<^verbatim>\<open>PROCESS4\<close>, on the hash and the pointer.\<close>

definition PROCESS1 :: "u32 \<times> byte list \<Rightarrow> u32 \<times> byte list" where
  "PROCESS1 = (\<lambda>(h32, p). (XXH_rotl32 (h32 + ucast (hd p) * PRIME32_5) 11 * PRIME32_1, tl p))"

definition PROCESS4 :: "u32 \<times> byte list \<Rightarrow> u32 \<times> byte list" where
  "PROCESS4 = (\<lambda>(h32, p). (XXH_rotl32 (h32 + XXH_readLE32 p * PRIME32_3) 17 * PRIME32_4, drop 4 p))"

text \<open>The switch with its fall-through: a label runs its statements and goes on at the next label.\<close>

fun XXH32_switch :: "nat \<Rightarrow> u32 \<times> byte list \<Rightarrow> u32" where
  "XXH32_switch n s =
     (if n = 12 then XXH32_switch 8 (PROCESS4 s)
      else if n = 8 then XXH32_switch 4 (PROCESS4 s)
      else if n = 4 then XXH32_avalanche (fst (PROCESS4 s))
      else if n = 13 then XXH32_switch 9 (PROCESS4 s)
      else if n = 9 then XXH32_switch 5 (PROCESS4 s)
      else if n = 5 then XXH32_avalanche (fst (PROCESS1 (PROCESS4 s)))
      else if n = 14 then XXH32_switch 10 (PROCESS4 s)
      else if n = 10 then XXH32_switch 6 (PROCESS4 s)
      else if n = 6 then XXH32_avalanche (fst (PROCESS1 (PROCESS1 (PROCESS4 s))))
      else if n = 15 then XXH32_switch 11 (PROCESS4 s)
      else if n = 11 then XXH32_switch 7 (PROCESS4 s)
      else if n = 7 then XXH32_switch 3 (PROCESS4 s)
      else if n = 3 then XXH32_switch 2 (PROCESS1 s)
      else if n = 2 then XXH32_switch 1 (PROCESS1 s)
      else if n = 1 then XXH32_switch 0 (PROCESS1 s)
      else XXH32_avalanche (fst s))"

declare XXH32_switch.simps [simp del]

definition XXH32_finalize :: "u32 \<Rightarrow> byte list \<Rightarrow> nat \<Rightarrow> u32" where
  "XXH32_finalize h32 p len = XXH32_switch (len mod 16) (h32, p)"

type_synonym lanes = "u32 \<times> u32 \<times> u32 \<times> u32"

definition XXH32_lanes :: "u32 \<Rightarrow> lanes" where
  "XXH32_lanes seed = (seed + PRIME32_1 + PRIME32_2, seed + PRIME32_2, seed + 0, seed - PRIME32_1)"

text \<open>The body of both \<^verbatim>\<open>do\<close> loops: four lanes take 16 bytes.\<close>

definition XXH32_stripe :: "lanes \<Rightarrow> byte list \<Rightarrow> lanes" where
  "XXH32_stripe = (\<lambda>(v1, v2, v3, v4) p.
     (XXH32_round v1 (XXH_readLE32 p), XXH32_round v2 (XXH_readLE32 (drop 4 p)),
      XXH32_round v3 (XXH_readLE32 (drop 8 p)), XXH32_round v4 (XXH_readLE32 (drop 12 p))))"

text \<open>The loops run while 16 bytes are left; both are entered only then, so the test may come first.\<close>

function XXH32_loop :: "lanes \<Rightarrow> byte list \<Rightarrow> lanes \<times> byte list" where
  "XXH32_loop v p = (if length p < 16 then (v, p) else XXH32_loop (XXH32_stripe v p) (drop 16 p))"
  by auto

termination by (relation "measure (\<lambda>(v, p). length p)") auto

declare XXH32_loop.simps [simp del]

definition XXH32_merge :: "lanes \<Rightarrow> u32" where
  "XXH32_merge = (\<lambda>(v1, v2, v3, v4). XXH_rotl32 v1 1 + XXH_rotl32 v2 7 + XXH_rotl32 v3 12 + XXH_rotl32 v4 18)"

definition XXH32 :: "byte list \<Rightarrow> u32 \<Rightarrow> u32" where
  "XXH32 input seed =
     (let len = length input;
          (h32, p) = (if 16 \<le> len
                      then let (v, p) = XXH32_loop (XXH32_lanes seed) input in (XXH32_merge v, p)
                      else (seed + PRIME32_5, input));
          h32 = h32 + of_nat len
      in XXH32_finalize h32 p (len mod 16))"

record XXH32_state =
  total_len_32 :: u32
  large_len :: bool
  xv :: lanes
  mem32 :: "byte list"
  memsize :: nat

datatype XXH_errorcode = XXH_OK | XXH_ERROR

definition XXH32_reset :: "u32 \<Rightarrow> XXH32_state" where
  "XXH32_reset seed = \<lparr>total_len_32 = 0, large_len = False, xv = XXH32_lanes seed,
     mem32 = replicate 16 0, memsize = 0\<rparr>"

text \<open>The part of an update after the length is counted: fill the buffer, or hash it and what follows.\<close>

definition XXH32_consume :: "byte list \<Rightarrow> XXH32_state \<Rightarrow> XXH32_state" where
  "XXH32_consume input st =
     (if memsize st + length input < 16
      then st\<lparr>mem32 := overwrite (memsize st) input (mem32 st), memsize := memsize st + length input\<rparr>
      else
        let (st, p) =
              (if memsize st \<noteq> 0
               then let mem = overwrite (memsize st) (take (16 - memsize st) input) (mem32 st)
                    in (st\<lparr>mem32 := mem, xv := XXH32_stripe (xv st) mem, memsize := 0\<rparr>,
                        drop (16 - memsize st) input)
               else (st, input));
            (st, p) =
              (if 16 \<le> length p
               then let (v, p) = XXH32_loop (xv st) p in (st\<lparr>xv := v\<rparr>, p)
               else (st, p))
        in if p \<noteq> [] then st\<lparr>mem32 := overwrite 0 p (mem32 st), memsize := length p\<rparr> else st)"

definition XXH32_update :: "XXH32_state \<Rightarrow> byte list option \<Rightarrow> XXH_errorcode \<times> XXH32_state" where
  "XXH32_update st input =
     (case input of
        None \<Rightarrow> (XXH_ERROR, st)
      | Some input \<Rightarrow>
          let len = length input;
              st = st\<lparr>total_len_32 := total_len_32 st + of_nat len\<rparr>;
              st = st\<lparr>large_len := large_len st \<or> 16 \<le> len \<or> 16 \<le> total_len_32 st\<rparr>
          in (XXH_OK, XXH32_consume input st))"

definition XXH32_digest :: "XXH32_state \<Rightarrow> u32" where
  "XXH32_digest st =
     (let h32 = (if large_len st then XXH32_merge (xv st) else fst (snd (snd (xv st))) + PRIME32_5);
          h32 = h32 + total_len_32 st
      in XXH32_finalize h32 (mem32 st) (memsize st))"

definition XXH32_canonicalFromHash :: "u32 \<Rightarrow> byte list" where
  "XXH32_canonicalFromHash hash = le_bytes 4 (XXH_swap32 hash)"

definition XXH32_hashFromCanonical :: "byte list \<Rightarrow> u32" where
  "XXH32_hashFromCanonical src = XXH_readBE32 src"

section \<open>The algorithm of the specification\<close>

text \<open>Lane \<open>j\<close> of stripe \<open>i\<close> is the little-endian word at byte \<open>16 i + 4 j\<close>.\<close>

definition spec_lane :: "byte list \<Rightarrow> nat \<Rightarrow> nat \<Rightarrow> u32" where
  "spec_lane input j i = le_word (slice (16 * i + 4 * j) 4 input)"

definition spec_round :: "u32 \<Rightarrow> u32 \<Rightarrow> u32" where
  "spec_round acc lane = word_rotl 13 (acc + lane * PRIME32_2) * PRIME32_1"

text \<open>Accumulator \<open>j\<close> after all full stripes, each accumulator on its own.\<close>

definition spec_accumulator :: "byte list \<Rightarrow> u32 \<Rightarrow> nat \<Rightarrow> u32" where
  "spec_accumulator input acc j =
     fold (\<lambda>i acc. spec_round acc (spec_lane input j i)) [0..<length input div 16] acc"

fun spec_bytes :: "byte list \<Rightarrow> u32 \<Rightarrow> u32" where
  "spec_bytes [] acc = acc"
| "spec_bytes (b # bs) acc = spec_bytes bs (word_rotl 11 (acc + ucast b * PRIME32_5) * PRIME32_1)"

fun spec_remaining :: "byte list \<Rightarrow> u32 \<Rightarrow> u32" where
  "spec_remaining (a # b # c # d # bs) acc =
     spec_remaining bs (word_rotl 17 (acc + le_word [a, b, c, d] * PRIME32_3) * PRIME32_4)"
| "spec_remaining bs acc = spec_bytes bs acc"

definition spec_mix :: "u32 \<Rightarrow> u32" where
  "spec_mix acc =
     (let acc = (acc XOR drop_bit 15 acc) * PRIME32_2;
          acc = (acc XOR drop_bit 13 acc) * PRIME32_3
      in acc XOR drop_bit 16 acc)"

definition xxh32_spec :: "byte list \<Rightarrow> u32 \<Rightarrow> u32" where
  "xxh32_spec input seed =
     (let acc = (if length input < 16 then seed + PRIME32_5
                 else word_rotl 1 (spec_accumulator input (seed + PRIME32_1 + PRIME32_2) 0)
                   + word_rotl 7 (spec_accumulator input (seed + PRIME32_2) 1)
                   + word_rotl 12 (spec_accumulator input seed 2)
                   + word_rotl 18 (spec_accumulator input (seed - PRIME32_1) 3));
          acc = acc + of_nat (length input)
      in spec_mix (spec_remaining (drop (16 * (length input div 16)) input) acc))"

section \<open>The code computes the specification\<close>

lemma rotl32: "0 < r \<Longrightarrow> r < 32 \<Longrightarrow> XXH_rotl32 x r = word_rotl r x"
proof (rule bit_word_eqI)
  fix n assume r: "0 < r" "r < 32" and n: "n < LENGTH(32)"
  have "bit (word_rotl r x) n = bit x ((n + (32 - r)) mod 32)"
    using r n by (simp add: bit_word_rotl_iff)
  also have "(n + (32 - r)) mod 32 = (if n < r then n + (32 - r) else n - r)"
    using r n by (auto simp: mod_if)
  finally show "bit (XXH_rotl32 x r) n = bit (word_rotl r x) n"
    using r n bit_imp_le_length [of x "32 - r + n"]
    by (auto simp: XXH_rotl32_def bit_or_iff bit_push_bit_iff bit_drop_bit_eq add.commute)
qed

lemma round_spec: "XXH32_round acc lane = spec_round acc lane"
  by (simp add: XXH32_round_def spec_round_def rotl32 Let_def)

lemma avalanche_spec: "XXH32_avalanche h = spec_mix h"
  by (simp add: XXH32_avalanche_def spec_mix_def Let_def)

lemma switch_4: "4 \<le> n \<Longrightarrow> n < 16 \<Longrightarrow> XXH32_switch n s = XXH32_switch (n - 4) (PROCESS4 s)"
proof -
  assume "4 \<le> n" "n < 16"
  then have "n \<in> {4, 5, 6, 7, 8, 9, 10, 11, 12, 13, 14, 15}" by simp arith
  then show ?thesis
    by (elim insertE emptyE) (simp_all add: XXH32_switch.simps)
qed

lemma switch_1: "0 < n \<Longrightarrow> n < 4 \<Longrightarrow> XXH32_switch n s = XXH32_switch (n - 1) (PROCESS1 s)"
proof -
  assume "0 < n" "n < 4"
  then have "n \<in> {1, 2, 3}" by auto
  then show ?thesis
    by (elim insertE emptyE) (simp_all add: XXH32_switch.simps)
qed

lemma switch_0: "XXH32_switch 0 s = XXH32_avalanche (fst s)"
  by (simp add: XXH32_switch.simps)

lemma switch_bytes: "length p < 4 \<Longrightarrow> XXH32_switch (length p) (h, p) = spec_mix (spec_bytes p h)"
proof (induction p arbitrary: h)
  case Nil
  then show ?case by (simp add: switch_0 avalanche_spec)
next
  case (Cons b p)
  then show ?case by (simp add: switch_1 PROCESS1_def rotl32)
qed

lemma finalize_short: "length p < 4 \<Longrightarrow> XXH32_finalize h p (length p) = spec_mix (spec_bytes p h)"
  by (simp add: XXH32_finalize_def switch_bytes)

lemma finalize_spec:
  "length p < 16 \<Longrightarrow> XXH32_finalize h p (length p) = spec_mix (spec_remaining p h)"
proof (induction p h rule: spec_remaining.induct)
  case (1 a b c d bs acc)
  then show ?case by (simp add: XXH32_finalize_def switch_4 PROCESS4_def rotl32 XXH_readLE32_def)
qed (simp_all only: spec_remaining.simps, (rule finalize_short, simp)+)

lemma loop_rest: "snd (XXH32_loop v p) = drop (16 * (length p div 16)) p"
proof (induction v p rule: XXH32_loop.induct)
  case (1 v p)
  show ?case
  proof (cases "length p < 16")
    case True
    then show ?thesis by (simp add: XXH32_loop.simps [of v p])
  next
    case False
    then have "length p div 16 = Suc ((length p - 16) div 16)" by (simp add: le_div_geq)
    then show ?thesis using 1 False by (simp add: XXH32_loop.simps [of v p] add.commute)
  qed
qed

lemma length_loop_rest: "length (snd (XXH32_loop v p)) = length p mod 16"
  by (simp add: loop_rest minus_mult_div_eq_mod)

lemma loop_append:
  "XXH32_loop v (p @ q) = XXH32_loop (fst (XXH32_loop v p)) (snd (XXH32_loop v p) @ q)"
proof (induction v p rule: XXH32_loop.induct)
  case (1 v p)
  show ?case
  proof (cases "length p < 16")
    case True
    then show ?thesis by (simp add: XXH32_loop.simps [of v p])
  next
    case False
    then have "XXH32_stripe v (p @ q) = XXH32_stripe v p"
      by (simp add: XXH32_stripe_def XXH_readLE32_def split: prod.split)
    then show ?thesis using 1 False
      by (simp add: XXH32_loop.simps [of v p] XXH32_loop.simps [of v "p @ q"])
  qed
qed

lemma accumulator_step:
  assumes "16 \<le> length p"
  shows "spec_accumulator p acc j
    = spec_accumulator (drop 16 p) (spec_round acc (le_word (slice (4 * j) 4 p))) j"
proof -
  have n: "length p div 16 = Suc (length (drop 16 p) div 16)"
    using assms by (simp add: le_div_geq)
  have "spec_lane p j (Suc i) = spec_lane (drop 16 p) j i" for i
    by (simp add: spec_lane_def slice_def add.commute add.left_commute)
  then show ?thesis
    unfolding spec_accumulator_def n
    by (simp del: upt_Suc add: upt_conv_Cons [of 0] map_Suc_upt [symmetric] fold_map comp_def
        spec_lane_def [of p j 0])
qed

lemma loop_lanes:
  "fst (XXH32_loop (v1, v2, v3, v4) p) =
     (spec_accumulator p v1 0, spec_accumulator p v2 1, spec_accumulator p v3 2, spec_accumulator p v4 3)"
proof (induction "(v1, v2, v3, v4)" p arbitrary: v1 v2 v3 v4 rule: XXH32_loop.induct)
  case (1 p v1 v2 v3 v4)
  show ?case
  proof (cases "length p < 16")
    case True
    then show ?thesis by (simp add: XXH32_loop.simps [of _ p] spec_accumulator_def)
  next
    case False
    then show ?thesis
      using 1 by (simp add: XXH32_loop.simps [of _ p] XXH32_stripe_def XXH_readLE32_def round_spec
          accumulator_step [of p] slice_def)
  qed
qed

text \<open>The streaming state after the bytes \<open>xs\<close>.\<close>

definition hashed :: "u32 \<Rightarrow> byte list \<Rightarrow> XXH32_state \<Rightarrow> bool" where
  "hashed seed xs st \<longleftrightarrow>
     XXH32_loop (XXH32_lanes seed) xs = (xv st, take (memsize st) (mem32 st))
     \<and> memsize st = length xs mod 16 \<and> length (mem32 st) = 16
     \<and> total_len_32 st = of_nat (length xs) \<and> large_len st = (16 \<le> length xs)"

lemma hashed_reset: "hashed seed [] (XXH32_reset seed)"
  by (simp add: hashed_def XXH32_reset_def XXH32_loop.simps)

lemma of_nat_ge_16: "n < 32 \<Longrightarrow> (16 :: u32) \<le> of_nat n \<longleftrightarrow> 16 \<le> n"
  by (simp add: word_le_nat_alt unat_of_nat)

text \<open>The consuming part of an update: one stripe from the buffer, or none, then the loop.\<close>

lemma XXH32_stripe_take: "XXH32_stripe v p = XXH32_stripe v (take 16 p)"
  by (simp add: XXH32_stripe_def XXH_readLE32_def drop_take split: prod.split)

lemma loop_first:
  assumes "length r < 16" "16 \<le> length r + length input"
  shows "XXH32_loop v (r @ input) = XXH32_loop (XXH32_stripe v (r @ take (16 - length r) input))
    (drop (16 - length r) input)"
  using assms XXH32_stripe_take [of v "r @ input"]
  by (simp add: XXH32_loop.simps [of v])

text \<open>The streaming state, but for the two counts.\<close>

definition buffered :: "lanes \<times> byte list \<Rightarrow> XXH32_state \<Rightarrow> bool" where
  "buffered vr st \<longleftrightarrow> vr = (xv st, take (memsize st) (mem32 st)) \<and> memsize st < 16 \<and> length (mem32 st) = 16"

lemma consume_counts:
  "total_len_32 (XXH32_consume input st) = total_len_32 st" "large_len (XXH32_consume input st) = large_len st"
  by (simp_all add: XXH32_consume_def Let_def case_prod_unfold)

lemma consume_buffered:
  assumes b: "buffered (v, r) st"
  shows "buffered (XXH32_loop v (r @ input)) (XXH32_consume input st)"
proof -
  have st: "v = xv st" "r = take (memsize st) (mem32 st)" "memsize st < 16" "length (mem32 st) = 16"
    "length r = memsize st"
    using b by (auto simp: buffered_def)
  show ?thesis
  proof (cases "memsize st + length input < 16")
    case True
    have "XXH32_loop v (r @ input) = (xv st, r @ input)"
      using True st(1,5) by (simp add: XXH32_loop.simps)
    moreover have "take (memsize st + length input) (overwrite (memsize st) input (mem32 st)) = r @ input"
      using take_overwrite [of "memsize st" "mem32 st" input] st(2-4) by simp
    ultimately show ?thesis
      using True st(4) by (simp add: XXH32_consume_def buffered_def length_overwrite)
  next
    case False
    define mem where "mem = (if memsize st \<noteq> 0
      then overwrite (memsize st) (take (16 - memsize st) input) (mem32 st) else mem32 st)"
    define v' where "v' = (if memsize st \<noteq> 0 then XXH32_stripe (xv st) mem else xv st)"
    define p where "p = (if memsize st \<noteq> 0 then drop (16 - memsize st) input else input)"
    define q where "q = snd (XXH32_loop v' p)"
    have mem16: "length mem = 16"
      using False st(3,4) by (simp add: mem_def length_overwrite)
    have full: "overwrite (memsize st) (take (16 - memsize st) input) (mem32 st) = r @ take (16 - memsize st) input"
      using False st(2-4) by (simp add: overwrite_def)
    have loop: "XXH32_loop v (r @ input) = XXH32_loop v' p"
    proof (cases "memsize st = 0")
      case True
      then show ?thesis using st(1,5) by (simp add: v'_def p_def)
    next
      case m: False
      then show ?thesis
        using loop_first [of r input "xv st"] False st(1,3,5) by (simp add: v'_def p_def mem_def full)
    qed
    have q: "length q < 16" by (simp add: q_def length_loop_rest)
    have first: "(if memsize st \<noteq> 0
                  then let mem = overwrite (memsize st) (take (16 - memsize st) input) (mem32 st)
                       in (st\<lparr>mem32 := mem, xv := XXH32_stripe (xv st) mem, memsize := 0\<rparr>,
                           drop (16 - memsize st) input)
                  else (st, input)) = (st\<lparr>mem32 := mem, xv := v', memsize := 0\<rparr>, p)"
      unfolding mem_def v'_def p_def Let_def by (cases "memsize st = 0") simp_all
    have second: "(if 16 \<le> length p then let (v, p) = XXH32_loop (xv t) p in (t\<lparr>xv := v\<rparr>, p) else (t, p))
        = (t\<lparr>xv := fst (XXH32_loop v' p)\<rparr>, q)" if "xv t = v'" for t :: XXH32_state
      using that by (cases "16 \<le> length p") (auto simp: q_def case_prod_unfold Let_def XXH32_loop.simps [of v' p])
    have "XXH32_consume input st = (let t = st\<lparr>mem32 := mem, xv := fst (XXH32_loop v' p), memsize := 0\<rparr>
        in if q \<noteq> [] then t\<lparr>mem32 := overwrite 0 q (mem32 t), memsize := length q\<rparr> else t)"
      using False unfolding XXH32_consume_def first by (simp add: second Let_def)
    then have "xv (XXH32_consume input st) = fst (XXH32_loop v' p)"
      "memsize (XXH32_consume input st) = length q"
      "mem32 (XXH32_consume input st) = overwrite 0 q mem"
      by (simp_all add: Let_def)
    then have "buffered (fst (XXH32_loop v' p), q) (XXH32_consume input st)"
      using q mem16 by (simp add: buffered_def length_overwrite overwrite_def)
    then show ?thesis
      unfolding loop by (simp add: q_def)
  qed
qed

lemma hashed_update:
  assumes "hashed seed xs st"
  shows "fst (XXH32_update st (Some input)) = XXH_OK
    \<and> hashed seed (xs @ input) (snd (XXH32_update st (Some input)))"
proof -
  let ?s = "st\<lparr>total_len_32 := total_len_32 st + of_nat (length input),
    large_len := large_len st \<or> 16 \<le> length input \<or> 16 \<le> total_len_32 st + of_nat (length input)\<rparr>"
  have upd: "XXH32_update st (Some input) = (XXH_OK, XXH32_consume input ?s)"
    by (simp add: XXH32_update_def Let_def)
  have "buffered (XXH32_loop (XXH32_lanes seed) xs) ?s"
    using assms by (simp add: hashed_def buffered_def)
  then have b: "buffered (XXH32_loop (XXH32_lanes seed) (xs @ input)) (XXH32_consume input ?s)"
    using consume_buffered [of "fst (XXH32_loop (XXH32_lanes seed) xs)" "snd (XXH32_loop (XXH32_lanes seed) xs)"]
      loop_append [of "XXH32_lanes seed" xs input] by simp
  have large: "large_len ?s = (16 \<le> length (xs @ input))"
    using assms of_nat_ge_16 [of "length xs + length input"]
    by (cases "16 \<le> length xs"; cases "16 \<le> length input") (simp_all add: hashed_def)
  have total: "total_len_32 ?s = of_nat (length (xs @ input))"
    using assms by (simp add: hashed_def)
  have "memsize t = length ys mod 16" if "buffered (XXH32_loop u ys) t" for u ys t
    using that length_loop_rest [of u ys] by (auto simp: buffered_def)
  from this [OF b] b show ?thesis
    unfolding upd fst_conv snd_conv hashed_def consume_counts large total buffered_def by blast
qed

lemma switch_prefix: "n \<le> length p \<Longrightarrow> n < 16 \<Longrightarrow> XXH32_switch n (h, take n p) = XXH32_switch n (h, p)"
proof (induction n arbitrary: h p rule: less_induct)
  case (less n)
  consider "n = 0" | "0 < n" "n < 4" | "4 \<le> n" by linarith
  then show ?case
  proof cases
    case 1
    then show ?thesis by (simp add: switch_0)
  next
    case 2
    have "hd (take n p) = hd p" "tl (take n p) = take (n - 1) (tl p)"
      using 2 less.prems by (simp_all add: tl_take)
    then show ?thesis
      using less.IH [of "n - 1" "tl p"] 2 less.prems by (simp add: switch_1 PROCESS1_def)
  next
    case 3
    have "XXH_readLE32 (take n p) = XXH_readLE32 p" "drop 4 (take n p) = take (n - 4) (drop 4 p)"
      using 3 by (simp_all add: XXH_readLE32_def drop_take)
    then show ?thesis
      using less.IH [of "n - 4" "drop 4 p"] 3 less.prems by (simp add: switch_4 PROCESS4_def)
  qed
qed

lemma finalize_prefix:
  "n \<le> length p \<Longrightarrow> n < 16 \<Longrightarrow> XXH32_finalize h p n = spec_mix (spec_remaining (take n p) h)"
  using finalize_spec [of "take n p" h] switch_prefix [of n p h] by (simp add: XXH32_finalize_def)

lemma merge_loop:
  "XXH32_merge (fst (XXH32_loop (XXH32_lanes seed) p)) =
     word_rotl 1 (spec_accumulator p (seed + PRIME32_1 + PRIME32_2) 0)
     + word_rotl 7 (spec_accumulator p (seed + PRIME32_2) 1)
     + word_rotl 12 (spec_accumulator p seed 2)
     + word_rotl 18 (spec_accumulator p (seed - PRIME32_1) 3)"
  by (simp add: XXH32_merge_def XXH32_lanes_def loop_lanes rotl32)

section \<open>Properties\<close>

text \<open>
  C14. The one-shot hash is the function that the algorithm description of the library defines: lanes
  processed independently, convergence, length, remaining bytes and final mix.
\<close>

theorem XXH32_meets_spec: "XXH32 input seed = xxh32_spec input seed"
proof (cases "16 \<le> length input")
  case True
  let ?r = "snd (XXH32_loop (XXH32_lanes seed) input)"
  have "length ?r = length input mod 16" by (rule length_loop_rest)
  then show ?thesis
    using True finalize_spec [of ?r] by (simp add: XXH32_def xxh32_spec_def Let_def case_prod_unfold merge_loop loop_rest)
next
  case False
  then show ?thesis
    using finalize_spec [of input] by (simp add: XXH32_def xxh32_spec_def Let_def)
qed

text \<open>
  C13. Hashing in pieces gives the hash of the whole: after a reset and any sequence of updates, of any
  lengths, the digest is the one-shot hash of the concatenated input, lengths beyond 32 bits included.
\<close>

theorem XXH32_streaming:
  "XXH32_digest (fold (\<lambda>c st. snd (XXH32_update st (Some c))) chunks (XXH32_reset seed))
    = XXH32 (concat chunks) seed"
proof -
  have "hashed seed (concat chunks) (fold (\<lambda>c st. snd (XXH32_update st (Some c))) chunks (XXH32_reset seed))"
    by (induction chunks rule: rev_induct) (auto simp: hashed_reset hashed_update)
  moreover have "XXH32_digest st = XXH32 xs seed" if h: "hashed seed xs st" for xs st
  proof -
    have st: "XXH32_loop (XXH32_lanes seed) xs = (xv st, take (memsize st) (mem32 st))"
      "memsize st = length xs mod 16" "length (mem32 st) = 16"
      using h by (simp_all add: hashed_def)
    have "take (memsize st) (mem32 st) = drop (16 * (length xs div 16)) xs"
      using loop_rest [of "XXH32_lanes seed" xs] st(1) by simp
    then have fin: "XXH32_finalize h (mem32 st) (memsize st)
        = spec_mix (spec_remaining (drop (16 * (length xs div 16)) xs) h)" for h
      using finalize_prefix [of "memsize st" "mem32 st" h] st(2,3) by simp
    have "fst (snd (snd (xv st))) = seed" if "length xs < 16"
    proof -
      have "xv st = XXH32_lanes seed" using st(1) that by (simp add: XXH32_loop.simps)
      then show ?thesis by (simp add: XXH32_lanes_def)
    qed
    then show ?thesis
      unfolding XXH32_meets_spec [of xs seed] XXH32_digest_def xxh32_spec_def Let_def fin
      using h merge_loop [of seed xs] st(1) by (simp add: hashed_def not_less)
  qed
  ultimately show ?thesis by blast
qed

lemma swap_bytes: "le_bytes 4 (XXH_swap32 h) = rev (le_bytes 4 h)"
proof -
  have masks: "(0xff000000 :: u32) = push_bit 24 (mask 8)" "(0x00ff0000 :: u32) = push_bit 16 (mask 8)"
    "(0x0000ff00 :: u32) = push_bit 8 (mask 8)" "(0x000000ff :: u32) = mask 8"
    by (simp_all add: mask_eq_exp_minus_1)
  have "bit (XXH_swap32 h) k = (if k < 8 then bit h (24 + k) else if k < 16 then bit h (8 + k)
      else if k < 24 then bit h (k - 8) else bit h (k - 24))" if "k < 32" for k
    using that unfolding XXH_swap32_def masks by (auto simp: bit_simps)
  then have "ucast (drop_bit 0 (XXH_swap32 h)) = (ucast (drop_bit 24 h) :: byte)"
    "ucast (drop_bit 8 (XXH_swap32 h)) = (ucast (drop_bit 16 h) :: byte)"
    "ucast (drop_bit 16 (XXH_swap32 h)) = (ucast (drop_bit 8 h) :: byte)"
    "ucast (drop_bit 24 (XXH_swap32 h)) = (ucast (drop_bit 0 h) :: byte)"
    by (auto intro!: bit_word_eqI simp: bit_simps)
  moreover have "[0..<4] = [0, 1, 2, 3 :: nat]" by (simp add: upt_rec)
  ultimately show ?thesis by (simp add: le_bytes_def)
qed

lemma XXH32_canonical:
  "XXH32_canonicalFromHash h = rev (le_bytes 4 h) \<and> XXH32_hashFromCanonical (XXH32_canonicalFromHash h) = h"
proof -
  have "le_bytes 4 (XXH_swap32 (XXH_swap32 h)) = le_bytes 4 h" by (simp add: swap_bytes)
  then have "le_word (le_bytes 4 (XXH_swap32 (XXH_swap32 h))) = (le_word (le_bytes 4 h) :: u32)" by simp
  then have "XXH_swap32 (XXH_swap32 h) = h" by (simp add: le_word_le_bytes)
  moreover have "XXH_readLE32 (le_bytes 4 (XXH_swap32 h)) = XXH_swap32 h"
    by (simp add: XXH_readLE32_def le_word_le_bytes)
  ultimately show ?thesis
    by (simp add: XXH32_canonicalFromHash_def XXH32_hashFromCanonical_def XXH_readBE32_def swap_bytes)
qed

end
