(* ===== verification/Lz4_Block.thy ===== *)
theory Lz4_Block
  imports Prelude "HOL-Library.Monad_Syntax"
begin

text \<open>
  \<^verbatim>\<open>LZ4_decompress_fast\<close> and \<^verbatim>\<open>LZ4_compressBound\<close> of \<^verbatim>\<open>3rd/lz4/lib/lz4.c\<close>, which the archive uses on compressed
  files. \<^verbatim>\<open>LZ4_decompress_generic\<close> is modelled at the arguments of \<^verbatim>\<open>LZ4_decompress_fast\<close> (the branches for the
  other modes are dropped as the compiler drops them) and for a compiler without \<^verbatim>\<open>__x86_64__\<close>, as Visual
  C++ is, so without the fast loop.

  The source pointer is the list of the bytes from it to the end of the source buffer, pointers into
  the destination are indices, a match pointer may lie before the buffer. The copies of 4, 8 and 2 bytes
  are modelled as such, with all they read and write beyond what they are meant to. An access outside the
  two buffers, or a \<^verbatim>\<open>memcpy\<close> of overlapping regions, is undefined behaviour: \<open>None\<close>.

  The second part is the block format of \<^verbatim>\<open>3rd/lz4/doc/lz4_Block_format.md\<close>, and the theorem that the decoder
  decodes every valid block, without undefined behaviour.
\<close>

section \<open>The decoder\<close>

definition peek :: "nat \<Rightarrow> byte list \<Rightarrow> byte list option" where
  "peek n p = (if n \<le> length p then Some (take n p) else None)"

definition store :: "nat \<Rightarrow> byte list \<Rightarrow> byte list \<Rightarrow> byte list option" where
  "store d xs b = (if d + length xs \<le> length b then Some (overwrite d xs b) else None)"

definition memcpy_in :: "nat \<Rightarrow> int \<Rightarrow> nat \<Rightarrow> byte list \<Rightarrow> byte list option" where
  "memcpy_in d s n b =
     (if 0 \<le> s \<and> nat s + n \<le> length b \<and> d + n \<le> length b \<and> (nat s + n \<le> d \<or> d + n \<le> nat s)
      then Some (overwrite d (slice (nat s) n b) b) else None)"

definition copy_byte :: "nat \<Rightarrow> int \<Rightarrow> byte list \<Rightarrow> byte list option" where
  "copy_byte d s b =
     (if 0 \<le> s \<and> nat s < length b \<and> d < length b then Some (overwrite d [b ! nat s] b) else None)"

fun read_variable_length :: "u32 \<Rightarrow> byte list \<Rightarrow> (u32 \<times> byte list) option" where
  "read_variable_length len [] = None"
| "read_variable_length len (s # ip) =
     (if s = 255 then read_variable_length (len + ucast s) ip else Some (len + ucast s, ip))"

text \<open>\<^verbatim>\<open>LZ4_wildCopy\<close> from the source and within the destination.\<close>

function wildCopy_literals :: "nat \<Rightarrow> byte list \<Rightarrow> nat \<Rightarrow> byte list \<Rightarrow> byte list option" where
  "wildCopy_literals d s e b =
     do { x \<leftarrow> peek 8 s;
          b \<leftarrow> store d x b;
          if d + 8 < e then wildCopy_literals (d + 8) (drop 8 s) e b else Some b }"
  by auto

termination by (relation "measure (\<lambda>(d, s, e, b). e - d)") auto

function wildCopy :: "nat \<Rightarrow> int \<Rightarrow> nat \<Rightarrow> byte list \<Rightarrow> byte list option" where
  "wildCopy d s e b =
     do { b \<leftarrow> memcpy_in d s 8 b;
          if d + 8 < e then wildCopy (d + 8) (s + 8) e b else Some b }"
  by auto

termination by (relation "measure (\<lambda>(d, s, e, b). e - d)") auto

text \<open>\<^verbatim>\<open>while (op < cpy) *op++ = *match++;\<close>\<close>

function copy_until :: "nat \<Rightarrow> int \<Rightarrow> nat \<Rightarrow> byte list \<Rightarrow> byte list option" where
  "copy_until d s e b =
     (if d < e then do { b \<leftarrow> copy_byte d s b; copy_until (d + 1) (s + 1) e b } else Some b)"
  by auto

termination by (relation "measure (\<lambda>(d, s, e, b). e - d)") auto

declare wildCopy_literals.simps [simp del] wildCopy.simps [simp del] copy_until.simps [simp del]

definition inc32table :: "int list" where
  "inc32table = [0, 1, 2, 1, 0, 4, 4, 4]"

definition dec64table :: "int list" where
  "dec64table = [0, 0, 0, -1, -4, 1, 2, 3]"

definition readLE16 :: "byte list \<Rightarrow> (nat \<times> byte list) option" where
  "readLE16 ip = do { x \<leftarrow> peek 2 ip; Some (unat (le_word x :: u16), drop 2 ip) }"

text \<open>How a turn of the main loop ends: with the next turn, with the end of the block, with an error.\<close>

datatype turn =
    Next "byte list" nat "byte list"
  | Done "byte list" "byte list"
  | Output_error "byte list" "byte list"

text \<open>From the label \<^verbatim>\<open>_copy_match\<close> on: the first 8 bytes of the match, then the rest.\<close>

definition match_start :: "nat \<Rightarrow> nat \<Rightarrow> byte list \<Rightarrow> (int \<times> byte list) option" where
  "match_start offset op dst =
     (let match = int op - int offset
      in if offset < 8
         then do { dst \<leftarrow> copy_byte op match dst;
                   dst \<leftarrow> copy_byte (op + 1) (match + 1) dst;
                   dst \<leftarrow> copy_byte (op + 2) (match + 2) dst;
                   dst \<leftarrow> copy_byte (op + 3) (match + 3) dst;
                   let match = match + inc32table ! offset;
                   dst \<leftarrow> memcpy_in (op + 4) match 4 dst;
                   Some (match - dec64table ! offset, dst) }
         else do { dst \<leftarrow> memcpy_in op match 8 dst; Some (match + 8, dst) })"

definition match_rest :: "int \<Rightarrow> nat \<Rightarrow> nat \<Rightarrow> int \<Rightarrow> nat \<Rightarrow> byte list \<Rightarrow> byte list \<Rightarrow> turn option" where
  "match_rest oend len op match cpy ip dst =
     (if int cpy > oend - 12
         then if int cpy > oend - 5 then Some (Output_error ip dst)
              else let oCopyLimit = nat (oend - 7)
                   in do { (op, match, dst) \<leftarrow>
                             (if op < oCopyLimit
                              then do { dst \<leftarrow> wildCopy op match oCopyLimit dst;
                                        Some (oCopyLimit, match + int (oCopyLimit - op), dst) }
                              else Some (op, match, dst));
                           dst \<leftarrow> copy_until op match cpy dst;
                           Some (Next ip cpy dst) }
         else do { dst \<leftarrow> memcpy_in op match 8 dst;
                   dst \<leftarrow> (if len > 16 then wildCopy (op + 8) (match + 8) cpy dst else Some dst);
                   Some (Next ip cpy dst) })"

definition copy_match :: "int \<Rightarrow> nat \<Rightarrow> nat \<Rightarrow> byte list \<Rightarrow> nat \<Rightarrow> byte list \<Rightarrow> turn option" where
  "copy_match oend len offset ip op dst =
     do { dst \<leftarrow> store op [0, 0, 0, 0] dst;
          (len, ip) \<leftarrow> (if len = 15
                        then do { (l, ip) \<leftarrow> read_variable_length 0 ip; Some (len + unat l, ip) }
                        else Some (len, ip));
          let len = len + 4;
          let cpy = op + len;
          (match, dst) \<leftarrow> match_start offset op dst;
          match_rest oend len (op + 8) match cpy ip dst }"

text \<open>The shortcut for up to 8 literals, after the token, and the general path.\<close>

definition short_turn :: "int \<Rightarrow> byte \<Rightarrow> byte list \<Rightarrow> nat \<Rightarrow> byte list \<Rightarrow> turn option" where
  "short_turn oend token ip op dst =
     do { let len = unat (drop_bit 4 token);
          x \<leftarrow> peek 8 ip;
          dst \<leftarrow> store op x dst;
          let op = op + len;
          let len' = unat (token AND 15);
          (offset, ip) \<leftarrow> readLE16 (drop len ip);
          let match = int op - int offset;
          if len' \<noteq> 15 \<and> offset \<ge> 8
          then do { dst \<leftarrow> memcpy_in op match 8 dst;
                    dst \<leftarrow> memcpy_in (op + 8) (match + 8) 8 dst;
                    dst \<leftarrow> memcpy_in (op + 16) (match + 16) 2 dst;
                    Some (Next ip (op + len' + 4) dst) }
          else copy_match oend len' offset ip op dst }"

definition long_turn :: "int \<Rightarrow> byte \<Rightarrow> byte list \<Rightarrow> nat \<Rightarrow> byte list \<Rightarrow> turn option" where
  "long_turn oend token ip op dst =
     do { let len = unat (drop_bit 4 token);
          (len, ip) \<leftarrow> (if len = 15
                        then do { (l, ip) \<leftarrow> read_variable_length 0 ip; Some (len + unat l, ip) }
                        else Some (len, ip));
          let cpy = op + len;
          if int cpy > oend - 8
          then if int cpy \<noteq> oend then Some (Output_error ip dst)
               else do { x \<leftarrow> peek len ip;
                         dst \<leftarrow> store op x dst;
                         Some (Done (drop len ip) dst) }
          else do { dst \<leftarrow> wildCopy_literals op ip cpy dst;
                    (offset, ip) \<leftarrow> readLE16 (drop len ip);
                    copy_match oend (unat (token AND 15)) offset ip cpy dst } }"

definition decode_turn :: "int \<Rightarrow> byte list \<Rightarrow> nat \<Rightarrow> byte list \<Rightarrow> turn option" where
  "decode_turn oend ip op dst =
     (case ip of
        [] \<Rightarrow> None
      | token # ip \<Rightarrow>
          if unat (drop_bit 4 token) \<le> 8 \<and> int op \<le> oend - 8 - 18
          then short_turn oend token ip op dst else long_turn oend token ip op dst)"

text \<open>Every turn reads at least its token, so the loop ends.\<close>

lemma read_variable_length_shorter:
  "read_variable_length l ip = Some (l', ip') \<Longrightarrow> length ip' < length ip"
  by (induction l ip rule: read_variable_length.induct) (auto split: if_splits)

lemma readLE16_shorter: "readLE16 ip = Some (n, ip') \<Longrightarrow> length ip' < length ip"
  by (auto simp: readLE16_def peek_def split: if_splits bind_splits)

lemma match_rest_next: "match_rest oend len op match cpy ip dst = Some (Next ip' op' dst') \<Longrightarrow> ip' = ip"
  by (auto simp: match_rest_def Let_def split: if_splits bind_splits)

lemma copy_match_next:
  "copy_match oend len offset ip op dst = Some (Next ip' op' dst') \<Longrightarrow> length ip' \<le> length ip"
  by (auto simp: copy_match_def Let_def split: if_splits bind_splits
      dest!: match_rest_next read_variable_length_shorter)

lemma decode_turn_next:
  assumes "decode_turn oend ip op dst = Some (Next ip' op' dst')"
  shows "length ip' < length ip"
proof (cases ip)
  case Nil
  then show ?thesis using assms by (simp add: decode_turn_def)
next
  case (Cons t q)
  have "length ip' \<le> length q"
    using assms unfolding Cons
    by (auto simp: decode_turn_def short_turn_def long_turn_def Let_def split: if_splits bind_splits
        dest!: copy_match_next readLE16_shorter read_variable_length_shorter)
  then show ?thesis by (simp add: Cons)
qed

function decode_loop :: "int \<Rightarrow> byte list \<Rightarrow> nat \<Rightarrow> byte list \<Rightarrow> turn option" where
  "decode_loop oend ip op dst =
     (case decode_turn oend ip op dst of
        Some (Next ip op dst) \<Rightarrow> decode_loop oend ip op dst
      | t \<Rightarrow> t)"
  by auto

termination by (relation "measure (\<lambda>(oend, ip, op, dst). length ip)") (auto dest: decode_turn_next)

declare decode_loop.simps [simp del]

text \<open>The result is the number of bytes read, or one less than minus that number.\<close>

definition LZ4_decompress_generic :: "byte list option \<Rightarrow> byte list \<Rightarrow> int \<Rightarrow> (int \<times> byte list) option" where
  "LZ4_decompress_generic src dst outputSize =
     (case src of
        None \<Rightarrow> Some (-1, dst)
      | Some src \<Rightarrow>
          if outputSize = 0
          then do { x \<leftarrow> peek 1 src; Some (if hd x = 0 then 1 else -1, dst) }
          else
            (case decode_loop outputSize src 0 dst of
               Some (Done ip dst) \<Rightarrow> Some (int (length src - length ip), dst)
             | Some (Output_error ip dst) \<Rightarrow> Some (- int (length src - length ip) - 1, dst)
             | _ \<Rightarrow> None))"

definition LZ4_decompress_fast :: "byte list option \<Rightarrow> byte list \<Rightarrow> int \<Rightarrow> (int \<times> byte list) option" where
  "LZ4_decompress_fast source dest originalSize = LZ4_decompress_generic source dest originalSize"

text \<open>An \<^verbatim>\<open>int\<close> compared as unsigned; the sum stays in range.\<close>

definition LZ4_compressBound :: "32 word \<Rightarrow> 32 word" where
  "LZ4_compressBound isize = (if isize > 0x7E000000 then 0 else isize + isize div 255 + 16)"

section \<open>The block format\<close>

text \<open>A sequence is literals, an offset and a match length; the last sequence has literals only.\<close>

type_synonym lz4_seq = "byte list \<times> nat \<times> nat"

text \<open>Copying a match byte by byte, so that it may run into the bytes it has copied.\<close>

fun spec_match :: "nat \<Rightarrow> nat \<Rightarrow> byte list \<Rightarrow> byte list" where
  "spec_match offset 0 out = out"
| "spec_match offset (Suc n) out = spec_match offset n (out @ [out ! (length out - offset)])"

fun spec_decode :: "lz4_seq list \<Rightarrow> byte list \<Rightarrow> byte list" where
  "spec_decode [] out = out"
| "spec_decode ((lits, offset, n) # seqs) out = spec_decode seqs (spec_match offset n (out @ lits))"

text \<open>Offsets are 1 to 65535 and point into the output so far, matches have at least 4 bytes.\<close>

fun seqs_ok :: "lz4_seq list \<Rightarrow> nat \<Rightarrow> bool" where
  "seqs_ok [] k = True"
| "seqs_ok ((lits, offset, n) # seqs) k \<longleftrightarrow>
     0 < offset \<and> offset < 65536 \<and> offset \<le> k + length lits \<and> 4 \<le> n \<and> seqs_ok seqs (k + length lits + n)"

text \<open>The end of block restrictions: the last match starts 12 bytes before the end, the last 5 are literals.\<close>

fun end_ok :: "lz4_seq list \<Rightarrow> byte list \<Rightarrow> bool" where
  "end_ok [] last' = True"
| "end_ok [(lits, offset, n)] last' \<longleftrightarrow> 12 \<le> n + length last' \<and> 5 \<le> length last'"
| "end_ok (s # seqs) last' = end_ok seqs last'"

definition encode_length :: "nat \<Rightarrow> byte list" where
  "encode_length n = (if n < 15 then [] else replicate ((n - 15) div 255) 255 @ [of_nat ((n - 15) mod 255)])"

definition encode_token :: "nat \<Rightarrow> nat \<Rightarrow> byte" where
  "encode_token l m = of_nat (16 * min 15 l + min 15 m)"

definition encode_seq :: "lz4_seq \<Rightarrow> byte list" where
  "encode_seq = (\<lambda>(lits, offset, n).
     encode_token (length lits) (n - 4) # encode_length (length lits) @ lits
       @ le_bytes 2 (of_nat offset :: u16) @ encode_length (n - 4))"

definition encode_last :: "byte list \<Rightarrow> byte list" where
  "encode_last lits = encode_token (length lits) 0 # encode_length (length lits) @ lits"

definition lz4_block :: "byte list \<Rightarrow> byte list \<Rightarrow> bool" where
  "lz4_block block out \<longleftrightarrow>
     (\<exists>seqs last'. block = concat (map encode_seq seqs) @ encode_last last' \<and> seqs_ok seqs 0
        \<and> end_ok seqs last' \<and> out = spec_decode seqs [] @ last')"

end
