(* ===== verification/Lz4_Correct.thy ===== *)
theory Lz4_Correct
  imports Lz4_Block
begin

text \<open>
  The decoder of \<^verbatim>\<open>Lz4_Block\<close> decodes every valid block. The copies of a match write 8 bytes at a time, from
  a distance that is a multiple of the offset and at least 8, and often write too far; what they keep is
  that the output from the match on repeats with the period of the offset.
\<close>

section \<open>Periodic output\<close>

definition repeats :: "nat \<Rightarrow> nat \<Rightarrow> nat \<Rightarrow> byte list \<Rightarrow> bool" where
  "repeats off op hi b \<longleftrightarrow> (\<forall>j. op \<le> j \<longrightarrow> j < hi \<longrightarrow> b ! j = b ! (j - off))"

text \<open>In a buffer of \<open>L\<close> bytes the output \<open>out\<close> is followed by a match of period \<open>off\<close>, up to \<open>hi\<close>.\<close>

definition match_state :: "nat \<Rightarrow> byte list \<Rightarrow> nat \<Rightarrow> nat \<Rightarrow> byte list \<Rightarrow> bool" where
  "match_state off out L hi b \<longleftrightarrow> length b = L \<and> length out \<le> hi \<and> hi \<le> L
     \<and> take (length out) b = out \<and> repeats off (length out) hi b"

lemma match_state_less: "match_state off out L hi b \<Longrightarrow> length out \<le> k \<Longrightarrow> k \<le> hi \<Longrightarrow> match_state off out L k b"
  by (auto simp: match_state_def repeats_def)

lemma repeats_chain:
  "repeats off op hi b \<Longrightarrow> op \<le> x + off \<Longrightarrow> x + m * off < hi \<Longrightarrow> b ! (x + m * off) = b ! x"
proof (induction m)
  case 0
  then show ?case by simp
next
  case (Suc m)
  have "b ! (x + Suc m * off) = b ! (x + Suc m * off - off)"
    using Suc.prems by (auto simp: repeats_def)
  also have "x + Suc m * off - off = x + m * off" by simp
  finally show ?case using Suc by simp
qed

lemma nth_overwrite:
  "i \<le> length b \<Longrightarrow> j < length b \<Longrightarrow> i + length xs \<le> length b \<Longrightarrow>
   overwrite i xs b ! j = (if j < i then b ! j else if j < i + length xs then xs ! (j - i) else b ! j)"
  by (auto simp: overwrite_def nth_append min_def)

lemma nth_slice: "i + n \<le> length b \<Longrightarrow> j < n \<Longrightarrow> slice i n b ! j = b ! (i + j)"
  by (simp add: slice_def)

lemma repeats_copy:
  assumes rep: "repeats off op hi b" and off: "0 < off" "off dvd D" and D: "n \<le> D" "D \<le> hi" "op + D \<le> hi + off"
    and len: "hi + n \<le> length b" "op \<le> hi"
  shows "repeats off op (hi + n) (overwrite hi (slice (hi - D) n b) b)"
  unfolding repeats_def
proof (intro allI impI)
  let ?b = "overwrite hi (slice (hi - D) n b) b"
  have ls: "length (slice (hi - D) n b) = n" using D len by (simp add: length_slice)
  have nth: "?b ! j = (if j < hi then b ! j else b ! (hi - D + (j - hi)))" if "j < hi + n" for j
    using that D len by (simp add: nth_overwrite ls nth_slice)
  obtain k where k: "D = off * k" using off(2) by (rule dvdE)
  fix j assume j: "op \<le> j" "j < hi + n"
  show "?b ! j = ?b ! (j - off)"
  proof (cases "j < hi")
    case True
    have "b ! j = b ! (j - off)" using rep j True unfolding repeats_def by blast
    then show ?thesis using j True by (simp add: nth)
  next
    case False
    define i where "i = j - hi"
    have i: "j = hi + i" "i < n" using False j by (auto simp: i_def)
    show ?thesis
    proof (cases "i < off")
      case True
      have "0 < k" using k D i by (cases k) auto
      then have pos: "hi - D + i + (k - 1) * off = j - off"
        using k D(2) i(1) by (cases k) (auto simp: algebra_simps)
      have "b ! (hi - D + i + (k - 1) * off) = b ! (hi - D + i)"
        by (rule repeats_chain [OF rep]) (use D i True pos in auto)
      moreover have "j - off < hi" using i True D by simp
      ultimately show ?thesis using i pos by (simp add: nth)
    next
      case far: False
      have "b ! (hi - D + i) = b ! (hi - D + i - off)"
      proof -
        have "op \<le> hi - D + i" "hi - D + i < hi" using D i far by auto
        then show ?thesis using rep unfolding repeats_def by blast
      qed
      moreover have "hi - D + (j - off - hi) = hi - D + i - off" using i far by simp
      ultimately show ?thesis using i far by (simp add: nth)
    qed
  qed
qed

lemma take_overwrite_before: "n \<le> i \<Longrightarrow> i \<le> length b \<Longrightarrow> take n (overwrite i xs b) = take n b"
  by (simp add: overwrite_def min_def)

lemma match_state_copy:
  assumes "match_state off out L hi b" "0 < off" "off dvd D" "n \<le> D" "D \<le> hi" "length out + D \<le> hi + off" "hi + n \<le> L"
  shows "match_state off out L (hi + n) (overwrite hi (slice (hi - D) n b) b)"
  using assms repeats_copy [of off "length out" hi b D n]
  by (auto simp: match_state_def length_overwrite length_slice take_overwrite_before)

lemma memcpy_in_state:
  assumes "match_state off out L hi b" "0 < off" "off dvd D" "n \<le> D" "D \<le> hi" "length out + D \<le> hi + off" "hi + n \<le> L"
    and "s = int hi - int D"
  obtains b' where "memcpy_in hi s n b = Some b'" "match_state off out L (hi + n) b'"
proof
  have "nat s = hi - D" "0 \<le> s" using assms(5,8) by auto
  then show "memcpy_in hi s n b = Some (overwrite hi (slice (hi - D) n b) b)"
    using assms by (auto simp: memcpy_in_def match_state_def)
  show "match_state off out L (hi + n) (overwrite hi (slice (hi - D) n b) b)"
    by (rule match_state_copy [OF assms(1-7)])
qed

lemma copy_byte_state:
  assumes "match_state off out L hi b" "0 < off" "off dvd D" "1 \<le> D" "D \<le> hi" "length out + D \<le> hi + off" "hi < L"
    and "s = int hi - int D"
  obtains b' where "copy_byte hi s b = Some b'" "match_state off out L (hi + 1) b'"
proof
  have s: "nat s = hi - D" "0 \<le> s" using assms(5,8) by auto
  have "slice (hi - D) 1 b = [b ! (hi - D)]"
    using assms by (simp add: slice_def match_state_def take_Suc_conv_app_nth hd_drop_conv_nth take_Suc)
  then show "copy_byte hi s b = Some (overwrite hi (slice (hi - D) 1 b) b)"
    using s assms by (simp add: copy_byte_def match_state_def)
  show "match_state off out L (hi + 1) (overwrite hi (slice (hi - D) 1 b) b)"
    by (rule match_state_copy [OF assms(1-3)]) (use assms in auto)
qed

lemma wildCopy_state:
  assumes "match_state off out L hi b" "0 < off" "off dvd D" "8 \<le> D" "D \<le> hi" "length out + D \<le> hi + off"
    and "hi + 8 \<le> L" "e + 7 \<le> L" "s = int hi - int D"
  shows "\<exists>b' hi'. wildCopy hi s e b = Some b' \<and> match_state off out L hi' b' \<and> e \<le> hi' \<and> hi + 8 \<le> hi'"
  using assms
proof (induction hi s e b rule: wildCopy.induct)
  case (1 hi s e b)
  obtain b1 where b1: "memcpy_in hi s 8 b = Some b1" "match_state off out L (hi + 8) b1"
    by (rule memcpy_in_state [OF 1(2-4), of 8 s]) (use 1 in auto)
  show ?case
  proof (cases "hi + 8 < e")
    case True
    have "\<exists>b' hi'. wildCopy (hi + 8) (s + 8) e b1 = Some b' \<and> match_state off out L hi' b' \<and> e \<le> hi' \<and> hi + 8 + 8 \<le> hi'"
      by (rule 1(1) [OF b1(1) True b1(2)]) (use 1 True in auto)
    then obtain b' hi' where "wildCopy (hi + 8) (s + 8) e b1 = Some b'" "match_state off out L hi' b'"
      "e \<le> hi'" "hi + 8 \<le> hi'" by auto
    then show ?thesis using b1 True by (auto simp: wildCopy.simps [of hi])
  next
    case False
    then show ?thesis using b1 by (auto simp: wildCopy.simps [of hi])
  qed
qed

lemma copy_until_state:
  assumes "match_state off out L hi b" "0 < off" "off dvd D" "1 \<le> D" "D \<le> hi" "length out + D \<le> hi + off"
    and "e \<le> L" "s = int hi - int D" "length out \<le> e"
  shows "\<exists>b'. copy_until hi s e b = Some b' \<and> match_state off out L e b'"
  using assms
proof (induction hi s e b rule: copy_until.induct)
  case (1 hi s e b)
  show ?case
  proof (cases "hi < e")
    case True
    obtain b1 where b1: "copy_byte hi s b = Some b1" "match_state off out L (hi + 1) b1"
      by (rule copy_byte_state [OF 1(2-4), of s]) (use 1 True in auto)
    have "\<exists>b'. copy_until (hi + 1) (s + 1) e b1 = Some b' \<and> match_state off out L e b'"
      by (rule 1(1) [OF True b1(1) b1(2)]) (use 1 True in auto)
    then show ?thesis using b1 True by (simp add: copy_until.simps [of hi])
  next
    case False
    then show ?thesis using match_state_less [OF 1(2), of e] 1 by (simp add: copy_until.simps [of hi])
  qed
qed

section \<open>Copying a match\<close>

lemma match_start_near:
  assumes st: "match_state off out L (length out) b" and off: "0 < off" "off < 8" "off \<le> length out"
    and len: "length out + 8 \<le> L"
  shows "\<exists>D b'. match_start off (length out) b = Some (int (length out + 8) - int D, b')
    \<and> match_state off out L (length out + 8) b' \<and> off dvd D \<and> 8 \<le> D \<and> D \<le> 8 + off"
proof -
  let ?op = "length out"
  obtain b1 where b1: "copy_byte ?op (int ?op - int off) b = Some b1" "match_state off out L (?op + 1) b1"
    by (rule copy_byte_state [OF st off(1), of off]) (use off len in auto)
  obtain b2 where b2: "copy_byte (?op + 1) (int ?op - int off + 1) b1 = Some b2"
    "match_state off out L (?op + 2) b2"
    by (rule copy_byte_state [where hi = "?op + 1" and b = b1 and s = "int ?op - int off + 1", OF _ off(1) dvd_refl])
      (use off len b1(2) in \<open>auto simp: numeral_eq_Suc\<close>)
  obtain b3 where b3: "copy_byte (?op + 2) (int ?op - int off + 2) b2 = Some b3"
    "match_state off out L (?op + 3) b3"
    by (rule copy_byte_state [where hi = "?op + 2" and b = b2 and s = "int ?op - int off + 2", OF _ off(1) dvd_refl])
      (use off len b2(2) in \<open>auto simp: numeral_eq_Suc\<close>)
  obtain b4 where b4: "copy_byte (?op + 3) (int ?op - int off + 3) b3 = Some b4"
    "match_state off out L (?op + 4) b4"
    by (rule copy_byte_state [where hi = "?op + 3" and b = b3 and s = "int ?op - int off + 3", OF _ off(1) dvd_refl])
      (use off len b3(2) in \<open>auto simp: numeral_eq_Suc\<close>)
  define inc where "inc = nat (inc32table ! off)"
  define dec where "dec = dec64table ! off"
  have "off \<in> {1, 2, 3, 4, 5, 6, 7}" using off by auto
  then have tab: "int inc = inc32table ! off" "off dvd 4 + off - inc" "4 \<le> 4 + off - inc" "inc \<le> off"
    "off dvd nat (int (8 + off - inc) + dec)" "8 \<le> int (8 + off - inc) + dec"
    "int (8 + off - inc) + dec \<le> int (8 + off)"
    unfolding inc_def dec_def by (elim insertE emptyE; simp add: inc32table_def dec64table_def)+
  obtain b5 where b5: "memcpy_in (?op + 4) (int ?op - int off + inc32table ! off) 4 b4 = Some b5"
    "match_state off out L (?op + 4 + 4) b5"
    by (rule memcpy_in_state [where hi = "?op + 4" and b = b4 and s = "int ?op - int off + inc32table ! off",
          OF b4(2) off(1) tab(2)]) (use off len tab in auto)
  let ?D = "nat (int (8 + off - inc) + dec)"
  have "match_start off ?op b = Some (int ?op - int off + inc32table ! off - dec, b5)"
    using off(2) b1 b2 b3 b4 b5 by (simp add: match_start_def Let_def dec_def)
  also have "int ?op - int off + inc32table ! off - dec = int (?op + 8) - int ?D"
    using tab off by simp
  finally show ?thesis using b5(2) tab by (intro exI [of _ ?D] exI [of _ b5]) (auto simp: add.commute)
qed

lemma match_start_state:
  assumes st: "match_state off out L (length out) b" and off: "0 < off" "off \<le> length out"
    and len: "length out + 8 \<le> L"
  shows "\<exists>D b'. match_start off (length out) b = Some (int (length out + 8) - int D, b')
    \<and> match_state off out L (length out + 8) b' \<and> off dvd D \<and> 8 \<le> D \<and> D \<le> 8 + off"
proof (cases "off < 8")
  case True
  then show ?thesis using match_start_near [OF st off(1) True off(2) len] by simp
next
  case False
  obtain b' where "memcpy_in (length out) (int (length out) - int off) 8 b = Some b'"
    "match_state off out L (length out + 8) b'"
    by (rule memcpy_in_state [OF st off(1), of off]) (use off len False in auto)
  then show ?thesis using False off
    by (intro exI [of _ off] exI [of _ b']) (simp add: match_start_def Let_def)
qed

lemma match_rest_state:
  assumes st: "match_state off out L (length out + 8) b" and off: "0 < off" "off \<le> length out"
    and D: "off dvd D" "8 \<le> D" "D \<le> 8 + off" and s: "s = int (length out + 8) - int D"
    and n: "4 \<le> n" and L: "length out + 12 \<le> L" "length out + n + 5 \<le> L"
  shows "\<exists>b'. match_rest (int L) n (length out + 8) s (length out + n) ip b = Some (Next ip (length out + n) b')
    \<and> match_state off out L (length out + n) b'"
proof -
  let ?op = "length out"
  have DD: "D \<le> ?op + 8" using D off by simp
  show ?thesis
  proof (cases "int (?op + n) > int L - 12")
    case True
    let ?lim = "L - 7"
    show ?thesis
    proof (cases "?op + 8 < ?lim")
      case wild: True
      obtain b1 hi where b1: "wildCopy (?op + 8) s ?lim b = Some b1" "match_state off out L hi b1" "?lim \<le> hi"
        using wildCopy_state [OF st off(1) D(1,2) DD _ _ _ s, of ?lim] D wild by auto
      have "match_state off out L ?lim b1" by (rule match_state_less [OF b1(2)]) (use wild b1 in auto)
      moreover have "1 \<le> D" "D \<le> ?lim" "?op + D \<le> ?lim + off" "?op + n \<le> L" "?op \<le> ?op + n"
        using D wild L off by simp_all
      ultimately obtain b2 where b2: "copy_until ?lim (int ?lim - int D) (?op + n) b1 = Some b2"
        "match_state off out L (?op + n) b2"
        using copy_until_state [OF _ off(1) D(1) _ _ _ _ refl] by blast
      have eq: "int (length out + 8) - int D + int (?lim - (?op + 8)) = int ?lim - int D"
        using wild by simp
      have "nat (int L - 7) = ?lim" by simp
      then show ?thesis using True wild b1 b2(1) [folded eq] b2(2) L unfolding s
        by (simp add: match_rest_def Let_def)
    next
      case near: False
      from copy_until_state [OF st off(1) D(1) _ DD _ _ s, of "?op + n"]
      obtain b2 where "copy_until (?op + 8) s (?op + n) b = Some b2" "match_state off out L (?op + n) b2"
        using D L by auto
      moreover have "nat (int L - 7) = ?lim" by simp
      ultimately show ?thesis using True near L by (simp add: match_rest_def Let_def)
    qed
  next
    case False
    obtain b1 where b1: "memcpy_in (?op + 8) s 8 b = Some b1" "match_state off out L (?op + 8 + 8) b1"
      by (rule memcpy_in_state [OF st off(1) D(1,2) DD _ _ s]) (use D False n in auto)
    show ?thesis
    proof (cases "n > 16")
      case True
      obtain b2 hi where b2: "wildCopy (?op + 8 + 8) (s + 8) (?op + n) b1 = Some b2" "match_state off out L hi b2"
        "?op + n \<le> hi"
        using wildCopy_state [OF b1(2) off(1) D(1,2), of "?op + n" "s + 8"] DD D False True s by auto
      then have "match_state off out L (?op + n) b2" by (intro match_state_less [OF b2(2)]) auto
      then show ?thesis using b1 b2 False True by (simp add: match_rest_def Let_def)
    next
      case short: False
      then have "match_state off out L (?op + n) b1" by (intro match_state_less [OF b1(2)]) auto
      then show ?thesis using b1 short False by (simp add: match_rest_def Let_def)
    qed
  qed
qed

text \<open>The periodic output is the byte-by-byte copy of the specification.\<close>

lemma match_state_spec:
  assumes "match_state off out L (length out + n) b" "0 < off" "off \<le> length out"
  shows "take (length out + n) b = spec_match off n out"
  using assms
proof (induction n arbitrary: out)
  case 0
  then show ?case by (simp add: match_state_def)
next
  case (Suc n)
  have L: "length out < length b" and out: "take (length out) b = out"
    using Suc.prems by (auto simp: match_state_def)
  have "repeats off (length out) (length out + Suc n) b" using Suc.prems by (simp add: match_state_def)
  then have "b ! length out = b ! (length out - off)" unfolding repeats_def by simp
  also have "\<dots> = out ! (length out - off)"
    using Suc.prems(2,3) L by (subst (2) out [symmetric]) simp
  finally have step: "take (Suc (length out)) b = out @ [out ! (length out - off)]"
    using L by (simp add: take_Suc_conv_app_nth out)
  have "match_state off (out @ [out ! (length out - off)]) L (length (out @ [out ! (length out - off)]) + n) b"
    using Suc.prems step by (simp add: match_state_def repeats_def)
  from Suc.IH [OF this Suc.prems(2)] Suc.prems(3) show ?case by simp
qed

lemma length_spec_match: "length (spec_match off n out) = length out + n"
  by (induction off n out rule: spec_match.induct) auto

section \<open>Reading a sequence\<close>

lemma read_variable_length_encoded:
  "r < 255 \<Longrightarrow> read_variable_length l (replicate k 255 @ of_nat r # q) = Some (l + of_nat (255 * k + r), q)"
proof (induction k arbitrary: l)
  case 0
  then have u: "unat (of_nat r :: byte) = r" by (simp add: unat_of_nat)
  then have "(of_nat r :: byte) \<noteq> 255" using 0 by auto
  moreover have "(ucast (of_nat r :: byte) :: u32) = of_nat r" by (rule ucast_of_small_nat) (use 0 in simp)
  ultimately show ?case by simp
next
  case (Suc k)
  have "l + 255 + of_nat (255 * k + r) = l + of_nat (255 * Suc k + r)" by simp
  moreover have "read_variable_length l (replicate (Suc k) 255 @ of_nat r # q)
      = read_variable_length (l + 255) (replicate k 255 @ of_nat r # q)" by simp
  ultimately show ?case using Suc.IH [OF Suc.prems, of "l + 255"] by (simp only:)
qed

definition read_length :: "nat \<Rightarrow> byte list \<Rightarrow> (nat \<times> byte list) option" where
  "read_length len ip = (if len = 15
     then do { (l, ip) \<leftarrow> read_variable_length 0 ip; Some (len + unat l, ip) } else Some (len, ip))"

lemma read_length_encoded:
  assumes "n < 2 ^ 32"
  shows "read_length (min 15 n) (encode_length n @ q) = Some (n, q)"
proof (cases "n < 15")
  case False
  have "255 * ((n - 15) div 255) + (n - 15) mod 255 = n - 15" by simp
  then have "read_variable_length 0 (encode_length n @ q) = Some (of_nat (n - 15), q)"
    using read_variable_length_encoded [of "(n - 15) mod 255" 0 "(n - 15) div 255" q] False
    by (simp add: encode_length_def del: of_nat_diff)
  then show ?thesis using assms False
    by (simp add: read_length_def min_def unat_of_nat del: of_nat_diff)
qed (simp add: read_length_def encode_length_def)

lemma token_high: "unat (drop_bit 4 (encode_token l m)) = min 15 l"
  and token_low: "unat (encode_token l m AND 15) = min 15 m"
proof -
  let ?k = "16 * min 15 l + min 15 m"
  have k: "?k < 256" "?k div 16 = min 15 l" "?k mod 16 = min 15 m" by auto
  have u: "unat (encode_token l m) = ?k" unfolding encode_token_def unat_of_nat using k(1) by simp
  have "unat (drop_bit 4 (encode_token l m)) = drop_bit 4 ?k" by (simp only: unat_drop_bit_eq u)
  also have "\<dots> = min 15 l" unfolding drop_bit_eq_div using k(2) by simp
  finally show "unat (drop_bit 4 (encode_token l m)) = min 15 l" .
  have "(15 :: byte) = mask 4" by (simp add: mask_eq_exp_minus_1)
  then have "encode_token l m AND 15 = take_bit 4 (encode_token l m)" by (simp only: take_bit_eq_mask)
  also have "unat \<dots> = take_bit 4 ?k" by (simp only: unsigned_take_bit_eq u)
  also have "\<dots> = min 15 m" unfolding take_bit_eq_mod using k(3) by simp
  finally show "unat (encode_token l m AND 15) = min 15 m" .
qed

lemma readLE16_encoded: "off < 65536 \<Longrightarrow> readLE16 (le_bytes 2 (of_nat off :: u16) @ q) = Some (off, q)"
  by (simp add: readLE16_def peek_def le_word_le_bytes unat_of_nat)

lemma copy_match_encoded:
  assumes b: "take (length out) b = out" "length b = L" and off: "0 < off" "off \<le> length out"
    and n: "4 \<le> n" "n < 2 ^ 32" and L: "length out + 12 \<le> L" "length out + n + 5 \<le> L"
  shows "\<exists>b'. copy_match (int L) (min 15 (n - 4)) off (encode_length (n - 4) @ q) (length out) b
      = Some (Next q (length out + n) b')
    \<and> length b' = L \<and> take (length out + n) b' = spec_match off n out"
proof -
  let ?b = "overwrite (length out) [0, 0, 0, 0] b"
  have st: "match_state off out L (length out) ?b"
    using b L by (auto simp: match_state_def repeats_def length_overwrite take_overwrite_before)
  obtain D b1 where b1: "match_start off (length out) ?b = Some (int (length out + 8) - int D, b1)"
    "match_state off out L (length out + 8) b1" "off dvd D" "8 \<le> D" "D \<le> 8 + off"
    using match_start_state [OF st off] L by auto
  obtain b2 where b2: "match_rest (int L) n (length out + 8) (int (length out + 8) - int D) (length out + n) q b1
      = Some (Next q (length out + n) b2)" "match_state off out L (length out + n) b2"
    using match_rest_state [OF b1(2) off b1(3-5) refl n(1) L] by blast
  have "read_length (min 15 (n - 4)) (encode_length (n - 4) @ q) = Some (n - 4, q)"
    by (rule read_length_encoded) (use n in simp)
  then have "copy_match (int L) (min 15 (n - 4)) off (encode_length (n - 4) @ q) (length out) b
      = Some (Next q (length out + n) b2)"
    using b L n(1) b1(1) b2(1) unfolding copy_match_def read_length_def
    by (simp add: store_def)
  then show ?thesis
    using b2(2) match_state_spec [OF b2(2) off] by (auto simp: match_state_def)
qed

lemma wildCopy_literals_state:
  assumes "d \<le> e" "e + 8 \<le> length b" "e - d + 8 \<le> length s"
  shows "\<exists>b'. wildCopy_literals d s e b = Some b' \<and> length b' = length b \<and> take e b' = take d b @ take (e - d) s"
  using assms
proof (induction d s e b rule: wildCopy_literals.induct)
  case (1 d s e b)
  let ?b = "overwrite d (take 8 s) b"
  have p: "peek 8 s = Some (take 8 s)" "store d (take 8 s) b = Some ?b" "length (take 8 s) = 8"
    using 1 by (simp_all add: peek_def store_def)
  have t: "take (d + 8) ?b = take d b @ take 8 s"
    using take_overwrite [of d b "take 8 s"] p(3) 1 by simp
  have len: "length ?b = length b" using 1 by (intro length_overwrite) simp
  show ?case
  proof (cases "d + 8 < e")
    case True
    have "d + 8 \<le> e" "e + 8 \<le> length ?b" "e - (d + 8) + 8 \<le> length (drop 8 s)"
      using 1(2-4) True len by simp_all
    from 1(1) [OF p(1,2) True this]
    obtain b' where "wildCopy_literals (d + 8) (drop 8 s) e ?b = Some b'" "length b' = length ?b"
      "take e b' = take (d + 8) ?b @ take (e - (d + 8)) (drop 8 s)" by auto
    moreover have "take (e - d) s = take 8 s @ take (e - (d + 8)) (drop 8 s)"
      using True take_add [of 8 "e - (d + 8)" s] by simp
    ultimately show ?thesis using p t len True by (simp add: wildCopy_literals.simps [of d])
  next
    case False
    have "take e ?b = take e (take (d + 8) ?b)" using False by simp
    also have "\<dots> = take d b @ take (e - d) s"
    proof -
      have "e - d \<le> 8" using False by simp
      then show ?thesis using t 1(2,3) by (simp add: min_def)
    qed
    finally show ?thesis using p len False by (simp add: wildCopy_literals.simps [of d])
  qed
qed

section \<open>Turns and the whole block\<close>

text \<open>What follows a match: the output still to come and the bytes of the block still to come.\<close>

definition out_length :: "lz4_seq list \<Rightarrow> byte list \<Rightarrow> nat" where
  "out_length seqs last' = sum_list (map (\<lambda>(lits, offset, n). length lits + n) seqs) + length last'"

definition encode :: "lz4_seq list \<Rightarrow> byte list \<Rightarrow> byte list" where
  "encode seqs last' = concat (map encode_seq seqs) @ encode_last last'"

lemma length_spec_decode: "length (spec_decode seqs out @ last') = length out + out_length seqs last'"
  by (induction seqs out rule: spec_decode.induct) (auto simp: out_length_def length_spec_match)

lemma after_match:
  assumes "seqs_ok ((lits, off, n) # seqs) k" "end_ok ((lits, off, n) # seqs) last'"
  shows "12 \<le> n + out_length seqs last'" "5 \<le> out_length seqs last'" "6 \<le> length (encode seqs last')"
    "end_ok seqs last'"
proof -
  have *: "12 \<le> out_length seqs last' \<and> 5 \<le> length last'" if "seqs \<noteq> []" "end_ok seqs last'" for seqs
    using that
  proof (induction seqs last' rule: end_ok.induct)
    case (2 lits offset n last')
    then show ?case by (simp add: out_length_def)
  next
    case (3 s v va last')
    then show ?case by (simp add: out_length_def case_prod_unfold)
  qed simp
  show e: "end_ok seqs last'" using assms(2) by (cases seqs) auto
  have l: "5 \<le> length last'" using assms(2) * [of seqs] e by (cases seqs) auto
  then show "6 \<le> length (encode seqs last')" by (simp add: encode_def encode_last_def)
  show "5 \<le> out_length seqs last'" using l by (simp add: out_length_def)
  show "12 \<le> n + out_length seqs last'"
  proof (cases "seqs = []")
    case True
    then show ?thesis using assms(2) by (simp add: out_length_def)
  next
    case False
    then show ?thesis using * [OF _ e] by simp
  qed
qed

lemma take_store: "take (d + length xs) (overwrite d xs b) = take d b @ xs" if "d \<le> length b"
  using take_overwrite [OF that] .

lemma decode_turn_last:
  assumes b: "take (length out) b = out" "length b = L" and L: "length out + length last' = L" "L < 2 ^ 32"
  shows "decode_turn (int L) (encode_last last' @ q) (length out) b = Some (Done q (out @ last'))"
proof -
  let ?t = "encode_token (length last') 0"
  let ?ip = "encode_length (length last') @ last' @ q"
  have "\<not> (unat (drop_bit 4 ?t) \<le> 8 \<and> int (length out) \<le> int L - 8 - 18)"
    using L by (auto simp: token_high min_def split: if_splits)
  then have "decode_turn (int L) (encode_last last' @ q) (length out) b
      = long_turn (int L) ?t ?ip (length out) b"
    by (simp only: decode_turn_def encode_last_def append_Cons append_assoc list.case if_False)
  also have "\<dots> = Some (Done q (out @ last'))"
  proof -
    have len: "read_length (min 15 (length last')) ?ip = Some (length last', last' @ q)"
      by (rule read_length_encoded) (use L in simp)
    have "overwrite (length out) last' b = out @ last'"
      using b L by (simp add: overwrite_def)
    then show ?thesis
      unfolding long_turn_def token_high Let_def read_length_def [symmetric] len
      using b L by (simp add: peek_def store_def)
  qed
  finally show ?thesis .
qed

lemma decode_turn_long:
  assumes b: "take (length out) b = out" "length b = L" and L: "L < 2 ^ 32"
    "length out + length lits + 12 \<le> L" "length out + length lits + n + 5 \<le> L"
    and s: "0 < off" "off < 65536" "off \<le> length out + length lits" "4 \<le> n" and q: "6 \<le> length q"
    and len: "n < 2 ^ 32"
  shows "\<exists>b'. long_turn (int L) (encode_token (length lits) (n - 4))
      (encode_length (length lits) @ lits @ le_bytes 2 (of_nat off :: u16) @ encode_length (n - 4) @ q) (length out) b
      = Some (Next q (length (out @ lits) + n) b')
    \<and> length b' = L \<and> take (length (out @ lits) + n) b' = spec_match off n (out @ lits)"
proof -
  let ?m = "le_bytes 2 (of_nat off :: u16) @ encode_length (n - 4) @ q"
  have rl: "read_length (min 15 (length lits)) (encode_length (length lits) @ lits @ ?m) = Some (length lits, lits @ ?m)"
    by (rule read_length_encoded) (use L in simp)
  obtain b1 where b1: "wildCopy_literals (length out) (lits @ ?m) (length out + length lits) b = Some b1"
    "length b1 = L" "take (length out + length lits) b1 = out @ lits"
    using wildCopy_literals_state [of "length out" "length out + length lits" b "lits @ ?m"] b L q by auto
  obtain b2 where b2: "copy_match (int L) (min 15 (n - 4)) off (encode_length (n - 4) @ q) (length (out @ lits)) b1
      = Some (Next q (length (out @ lits) + n) b2)"
    "length b2 = L" "take (length (out @ lits) + n) b2 = spec_match off n (out @ lits)"
    using copy_match_encoded [of "out @ lits" b1 L off n q] b1 s L len by auto
  have "\<not> int (length out + length lits) > int L - 8" using L by simp
  then show ?thesis
    unfolding long_turn_def token_high token_low Let_def read_length_def [symmetric] rl
    using b1(1) b2 by (simp add: readLE16_encoded s(2))
qed

lemma decode_turn_short:
  assumes b: "take (length out) b = out" "length b = L" and L: "L < 2 ^ 32" "length out + 26 \<le> L" "length lits \<le> 8"
    "length out + length lits + 12 \<le> L" "length out + length lits + n + 5 \<le> L"
    and s: "0 < off" "off < 65536" "off \<le> length out + length lits" "4 \<le> n" and q: "6 \<le> length q"
    and len: "n < 2 ^ 32"
  shows "\<exists>b'. short_turn (int L) (encode_token (length lits) (n - 4))
      (lits @ le_bytes 2 (of_nat off :: u16) @ encode_length (n - 4) @ q) (length out) b
      = Some (Next q (length (out @ lits) + n) b')
    \<and> length b' = L \<and> take (length (out @ lits) + n) b' = spec_match off n (out @ lits)"
proof -
  let ?m = "le_bytes 2 (of_nat off :: u16) @ encode_length (n - 4) @ q"
  define x where "x = take 8 (lits @ ?m)"
  define b1 where "b1 = overwrite (length out) x b"
  let ?op = "length (out @ lits)"
  have x: "peek 8 (lits @ ?m) = Some x" "length x = 8" "take (length lits) x = lits"
    using q L(3) by (simp_all add: peek_def x_def)
  have st: "store (length out) x b = Some b1" "length b1 = L"
    using b L x by (simp_all add: store_def b1_def length_overwrite)
  have "take ?op b1 = take ?op (take (length out + 8) b1)" using L(3) by simp
  also have "\<dots> = out @ lits" using take_store [of "length out" b x] b L x by (simp add: b1_def)
  finally have b1: "take ?op b1 = out @ lits" .
  have hi: "unat (drop_bit 4 (encode_token (length lits) (n - 4))) = length lits"
    using L(3) by (simp only: token_high)
  have lo: "unat (encode_token (length lits) (n - 4) AND 15) = min 15 (n - 4)" by (simp only: token_low)
  show ?thesis
  proof (cases "min 15 (n - 4) \<noteq> 15 \<and> off \<ge> 8")
    case True
    then have enc: "encode_length (n - 4) = []" and n: "min 15 (n - 4) = n - 4" "n \<le> 18"
      by (auto simp: encode_length_def)
    have st1: "match_state off (out @ lits) L ?op b1"
      using b1 st(2) L by (auto simp: match_state_def repeats_def)
    have lo': "length (out @ lits) + off \<le> ?op + off" by simp
    obtain b2 where b2: "memcpy_in ?op (int ?op - int off) 8 b1 = Some b2"
      "match_state off (out @ lits) L (?op + 8) b2"
      by (rule memcpy_in_state [OF st1 s(1) dvd_refl]) (use True s L in auto)
    obtain b3 where b3: "memcpy_in (?op + 8) (int ?op - int off + 8) 8 b2 = Some b3"
      "match_state off (out @ lits) L (?op + 8 + 8) b3"
      by (rule memcpy_in_state [OF b2(2) s(1) dvd_refl, where s = "int ?op - int off + 8"]) (use True s L in auto)
    have "?op + 8 + 8 = ?op + 16" by simp
    with b3(2) have b3': "match_state off (out @ lits) L (?op + 16) b3" by (simp only:)
    obtain b4 where b4: "memcpy_in (?op + 16) (int ?op - int off + 16) 2 b3 = Some b4"
      "match_state off (out @ lits) L (?op + 16 + 2) b4"
      by (rule memcpy_in_state [OF b3' s(1) dvd_refl, where n = 2 and s = "int ?op - int off + 16"])
        (use True s L in auto)
    have "match_state off (out @ lits) L (?op + n) b4"
      by (rule match_state_less [OF b4(2)]) (use n in auto)
    then have "length b4 = L" "take (?op + n) b4 = spec_match off n (out @ lits)"
      using match_state_spec [of off "out @ lits" L n b4] s by (auto simp: match_state_def)
    moreover have "short_turn (int L) (encode_token (length lits) (n - 4)) (lits @ ?m) (length out) b
        = Some (Next q (?op + (n - 4) + 4) b4)"
      unfolding short_turn_def hi lo Let_def x(1)
      using st True b2(1) b3(1) b4(1) n(1)
      by (simp add: readLE16_encoded s(2) enc)
    ultimately show ?thesis using s(4) by auto
  next
    case False
    obtain b2 where b2: "copy_match (int L) (min 15 (n - 4)) off (encode_length (n - 4) @ q) ?op b1
        = Some (Next q (?op + n) b2)"
      "length b2 = L" "take (?op + n) b2 = spec_match off n (out @ lits)"
      using copy_match_encoded [of "out @ lits" b1 L off n q] b1 st(2) s L len by auto
    then have "short_turn (int L) (encode_token (length lits) (n - 4)) (lits @ ?m) (length out) b
        = Some (Next q (?op + n) b2)"
      unfolding short_turn_def hi lo Let_def x(1) using st(1) False
      by (auto simp: readLE16_encoded s(2))
    then show ?thesis using b2 by blast
  qed
qed

lemma decode_turn_seq:
  assumes b: "take (length out) b = out" "length b = L" and L: "L < 2 ^ 32"
    "length out + length lits + 12 \<le> L" "length out + length lits + n + 5 \<le> L"
    and s: "0 < off" "off < 65536" "off \<le> length out + length lits" "4 \<le> n" and q: "6 \<le> length q"
  shows "\<exists>b'. decode_turn (int L) (encode_seq (lits, off, n) @ q) (length out) b
      = Some (Next q (length (spec_match off n (out @ lits))) b')
    \<and> length b' = L \<and> take (length (spec_match off n (out @ lits))) b' = spec_match off n (out @ lits)"
proof -
  have len: "n < 2 ^ 32" using L by simp
  let ?t = "encode_token (length lits) (n - 4)"
  let ?ip = "encode_length (length lits) @ lits @ le_bytes 2 (of_nat off :: u16) @ encode_length (n - 4) @ q"
  have turn: "decode_turn (int L) (encode_seq (lits, off, n) @ q) (length out) b =
      (if unat (drop_bit 4 ?t) \<le> 8 \<and> int (length out) \<le> int L - 8 - 18
       then short_turn (int L) ?t ?ip (length out) b else long_turn (int L) ?t ?ip (length out) b)"
    by (simp only: decode_turn_def encode_seq_def prod.case append_Cons append_assoc list.case)
  show ?thesis
  proof (cases "unat (drop_bit 4 ?t) \<le> 8 \<and> int (length out) \<le> int L - 8 - 18")
    case True
    then have "length lits \<le> 8" "length out + 26 \<le> L" unfolding token_high by auto
    moreover from this have "encode_length (length lits) = []" by (simp add: encode_length_def)
    ultimately show ?thesis
      using decode_turn_short [OF b L(1) _ _ L(2,3) s q len] unfolding turn
      by (simp only: True if_True length_spec_match append_Nil simp_thms)
  next
    case False
    then show ?thesis
      using decode_turn_long [OF b L s q len] unfolding turn by (simp only: if_False length_spec_match)
  qed
qed

lemma decode_loop_block:
  assumes "take (length out) b = out" "length b = L" "L = length out + out_length seqs last'" "L < 2 ^ 32"
    and "seqs_ok seqs (length out)" "end_ok seqs last'"
  shows "decode_loop (int L) (encode seqs last' @ q) (length out) b = Some (Done q (spec_decode seqs out @ last'))"
  using assms
proof (induction seqs out arbitrary: b rule: spec_decode.induct)
  case (1 out)
  then have "decode_turn (int L) (encode_last last' @ q) (length out) b = Some (Done q (out @ last'))"
    by (intro decode_turn_last) (auto simp: out_length_def)
  then show ?case by (simp add: decode_loop.simps encode_def)
next
  case (2 lits off n seqs out)
  note after = after_match [OF 2(6,7)]
  let ?out = "spec_match off n (out @ lits)"
  have ok: "0 < off" "off < 65536" "off \<le> length out + length lits" "4 \<le> n"
    "seqs_ok seqs (length ?out)"
    using 2(6) by (simp_all add: length_spec_match)
  have L: "L = length ?out + out_length seqs last'"
    using 2(4) by (simp add: out_length_def length_spec_match)
  have "length out + length lits + 12 \<le> L" "length out + length lits + n + 5 \<le> L"
    using L after by (simp_all add: length_spec_match)
  from decode_turn_seq [OF 2(2,3,5) this ok(1-4), of "encode seqs last' @ q"]
  obtain b' where b': "decode_turn (int L) (encode_seq (lits, off, n) @ encode seqs last' @ q) (length out) b
      = Some (Next (encode seqs last' @ q) (length ?out) b')" "length b' = L" "take (length ?out) b' = ?out"
    using after(3) by auto
  have "decode_loop (int L) (encode seqs last' @ q) (length ?out) b' = Some (Done q (spec_decode seqs ?out @ last'))"
    by (rule 2(1) [OF b'(3,2) L 2(5) ok(5) after(4)])
  then show ?case
    using b'(1) by (subst decode_loop.simps) (simp add: encode_def)
qed

text \<open>The whole function on a block with anything behind it.\<close>

lemma decompress_block:
  assumes "lz4_block block out" "length out < 2 ^ 31" "length dest = length out"
  shows "LZ4_decompress_fast (Some (block @ rest)) dest (int (length out)) = Some (int (length block), out)"
proof -
  obtain seqs last' where e: "block = encode seqs last'" "seqs_ok seqs 0" "end_ok seqs last'"
    "out = spec_decode seqs [] @ last'"
    using assms(1) by (auto simp: lz4_block_def encode_def)
  have len: "length out = out_length seqs last'"
    using length_spec_decode [of seqs "[]" last'] e(4) by simp
  show ?thesis
  proof (cases "out = []")
    case True
    have "seqs = []"
    proof (rule ccontr)
      assume "seqs \<noteq> []"
      then obtain lits off n seqs' where "seqs = (lits, off, n) # seqs'" by (metis list.exhaust prod_cases3)
      then show False using e(2) len True by (simp add: out_length_def)
    qed
    then show ?thesis using e True assms(3)
      by (simp add: encode_def encode_last_def encode_token_def encode_length_def LZ4_decompress_fast_def
          LZ4_decompress_generic_def peek_def)
  next
    case False
    have "decode_loop (int (length out)) (encode seqs last' @ rest) (length ([] :: byte list)) dest
        = Some (Done rest out)"
      unfolding e(4) by (rule decode_loop_block) (use assms len e in auto)
    then show ?thesis using False by (simp add: LZ4_decompress_fast_def LZ4_decompress_generic_def e(1))
  qed
qed

section \<open>Properties\<close>

text \<open>
  C8. The decoder, with its 8-byte copies that run past their ends and its tables for short offsets,
  decodes every valid block of the format: it never reads or writes outside the two buffers, fills the
  destination with the data the format assigns to the block, and returns the number of bytes of the block.
\<close>

theorem LZ4_decompress_fast_decodes:
  assumes "lz4_block block out" "length out < 2 ^ 31" "length dest = length out"
  shows "LZ4_decompress_fast (Some (block @ rest)) dest (int (length out)) = Some (int (length block), out)"
  using assms by (rule decompress_block)

text \<open>Nine bytes copied from the first byte, in a block of one sequence.\<close>

theorem LZ4_decompress_fast_decodes_witness:
  "LZ4_decompress_fast (Some ([0x15, 7, 1, 0, 0x50, 1, 2, 3, 4, 5] @ [])) (replicate 15 0) (int (length (replicate 10 7 @ [1, 2, 3, 4, 5 :: byte])))
     = Some (int (length [0x15, 7, 1, 0, 0x50, 1, 2, 3, 4, 5 :: byte]), replicate 10 7 @ [1, 2, 3, 4, 5])"
proof (rule LZ4_decompress_fast_decodes)
  have "spec_match 1 9 [7] = replicate 10 (7 :: byte)" by (simp add: eval_nat_numeral)
  then have dec: "spec_decode [([7], 1, 9)] [] @ [1, 2, 3, 4, 5] = replicate 10 7 @ [1, 2, 3, 4, 5 :: byte]" by simp
  have "[0..<2] = [0, 1 :: nat]" by (simp add: upt_rec)
  then have "concat (map encode_seq [([7], 1, 9)]) @ encode_last [1, 2, 3, 4, 5] = [0x15, 7, 1, 0, 0x50, 1, 2, 3, 4, 5]"
    by (simp add: encode_seq_def encode_last_def encode_token_def encode_length_def le_bytes_def)
  then show "lz4_block [0x15, 7, 1, 0, 0x50, 1, 2, 3, 4, 5] (replicate 10 7 @ [1, 2, 3, 4, 5])"
    unfolding lz4_block_def
    by (intro exI [of _ "[([7], 1, 9)]"] exI [of _ "[1, 2, 3, 4, 5]"]) (simp only: dec [symmetric], simp)
qed simp_all

text \<open>
  The decoder checks no offset: a block whose first sequence has no literals and refers back to before
  the output makes it read in front of the destination buffer, whatever follows and whatever its size (at
  least 8). The archive decodes what it read from the disk this way before it compares the hash.
\<close>

theorem LZ4_decompress_fast_unchecked:
  assumes "0 < off" "off < 65536" "8 \<le> n"
  shows "LZ4_decompress_fast (Some (0 # le_bytes 2 (of_nat off :: u16) @ rest)) dest n = None"
proof -
  have short: "short_turn n 0 (le_bytes 2 (of_nat off :: u16) @ rest) 0 dest = None"
    using assms by (auto simp: short_turn_def readLE16_encoded memcpy_in_def copy_byte_def copy_match_def
        match_start_def Let_def split: bind_splits)
  have long: "long_turn n 0 (le_bytes 2 (of_nat off :: u16) @ rest) 0 dest = None"
    using assms by (auto simp: long_turn_def readLE16_encoded memcpy_in_def copy_byte_def copy_match_def
        match_start_def Let_def split: bind_splits)
  show ?thesis
    using assms short long by (subst LZ4_decompress_fast_def, subst LZ4_decompress_generic_def, subst decode_loop.simps) (simp add: decode_turn_def)
qed

theorem LZ4_decompress_fast_unchecked_witness:
  "LZ4_decompress_fast (Some (0 # le_bytes 2 (of_nat 1 :: u16) @ [0x50, 1, 2, 3, 4, 5])) (replicate 9 0) 9 = None"
  by (rule LZ4_decompress_fast_unchecked) simp_all

end
