(* ===== verification/Archive_Format.thy ===== *)
theory Archive_Format
  imports Prelude
begin

text \<open>
  The packed structures of an archive on disk: \<^verbatim>\<open>SFileInformation\<close> of \<^verbatim>\<open>VFSLib/include/VFSArchive.h\<close> and the
  header and entry of \<^verbatim>\<open>VFSLib/src/VFSArchive.cpp\<close>. The structures are written and read as their memory
  image: little-endian fields without padding, \<^verbatim>\<open>wchar_t\<close> of two bytes. Here are the images in both
  directions and that they are inverse to each other.
\<close>

section \<open>Structures\<close>

record SFileInformation =
  fi_index :: u32
  fi_hash :: u32
  fi_version :: u32
  fi_flags :: byte
  fi_rawsize :: u32
  fi_compressedsize :: u32
  fi_cryptedsize :: u32
  fi_filename :: wstring

record SFileEntry =
  fe_info :: SFileInformation
  fe_finalSize :: u32
  fe_numBlocks :: u32
  fe_offset :: u64

record SArchiveHeader =
  ah_magic :: u32
  ah_bytesPerBlock :: u32
  ah_firstEntry :: u32

definition FLAG_RAW_DATA :: byte where "FLAG_RAW_DATA = 0"
definition FLAG_COMPRESSED_LZ4 :: byte where "FLAG_COMPRESSED_LZ4 = 1"
definition FLAG_CRYPTED_AES256 :: byte where "FLAG_CRYPTED_AES256 = 2"

text \<open>\<^verbatim>\<open>memset(..., 0, ...)\<close>; the file name is an array of 255 characters.\<close>

definition zero_info :: SFileInformation where
  "zero_info = \<lparr>fi_index = 0, fi_hash = 0, fi_version = 0, fi_flags = 0, fi_rawsize = 0,
     fi_compressedsize = 0, fi_cryptedsize = 0, fi_filename = replicate 255 0\<rparr>"

definition zero_entry :: SFileEntry where
  "zero_entry = \<lparr>fe_info = zero_info, fe_finalSize = 0, fe_numBlocks = 0, fe_offset = 0\<rparr>"

definition zero_header :: SArchiveHeader where
  "zero_header = \<lparr>ah_magic = 0, ah_bytesPerBlock = 0, ah_firstEntry = 0\<rparr>"

definition sizeof_SFileInformation :: nat where "sizeof_SFileInformation = 535"
definition sizeof_SFileEntry :: nat where "sizeof_SFileEntry = 551"
definition sizeof_SArchiveHeader :: nat where "sizeof_SArchiveHeader = 12"

section \<open>Memory images\<close>

definition wchars_bytes :: "wstring \<Rightarrow> byte list" where
  "wchars_bytes s = concat (map (le_bytes 2) s)"

definition bytes_wchars :: "nat \<Rightarrow> byte list \<Rightarrow> wstring" where
  "bytes_wchars n bs = map (\<lambda>i. le_word (slice (2 * i) 2 bs)) [0..<n]"

definition header_bytes :: "SArchiveHeader \<Rightarrow> byte list" where
  "header_bytes h = le_bytes 4 (ah_magic h) @ le_bytes 4 (ah_bytesPerBlock h) @ le_bytes 4 (ah_firstEntry h)"

definition bytes_header :: "byte list \<Rightarrow> SArchiveHeader" where
  "bytes_header bs = \<lparr>ah_magic = le_word (slice 0 4 bs), ah_bytesPerBlock = le_word (slice 4 4 bs),
     ah_firstEntry = le_word (slice 8 4 bs)\<rparr>"

definition info_bytes :: "SFileInformation \<Rightarrow> byte list" where
  "info_bytes i = le_bytes 4 (fi_index i) @ le_bytes 4 (fi_hash i) @ le_bytes 4 (fi_version i)
     @ le_bytes 1 (fi_flags i) @ le_bytes 4 (fi_rawsize i) @ le_bytes 4 (fi_compressedsize i)
     @ le_bytes 4 (fi_cryptedsize i) @ wchars_bytes (fi_filename i)"

definition bytes_info :: "byte list \<Rightarrow> SFileInformation" where
  "bytes_info bs = \<lparr>fi_index = le_word (slice 0 4 bs), fi_hash = le_word (slice 4 4 bs),
     fi_version = le_word (slice 8 4 bs), fi_flags = le_word (slice 12 1 bs),
     fi_rawsize = le_word (slice 13 4 bs), fi_compressedsize = le_word (slice 17 4 bs),
     fi_cryptedsize = le_word (slice 21 4 bs), fi_filename = bytes_wchars 255 (slice 25 510 bs)\<rparr>"

definition entry_bytes :: "SFileEntry \<Rightarrow> byte list" where
  "entry_bytes e = info_bytes (fe_info e) @ le_bytes 4 (fe_finalSize e) @ le_bytes 4 (fe_numBlocks e)
     @ le_bytes 8 (fe_offset e)"

definition bytes_entry :: "byte list \<Rightarrow> SFileEntry" where
  "bytes_entry bs = \<lparr>fe_info = bytes_info (slice 0 535 bs), fe_finalSize = le_word (slice 535 4 bs),
     fe_numBlocks = le_word (slice 539 4 bs), fe_offset = le_word (slice 543 8 bs)\<rparr>"

definition entry_ok :: "SFileEntry \<Rightarrow> bool" where
  "entry_ok e \<longleftrightarrow> length (fi_filename (fe_info e)) = 255"

section \<open>Structures as C declares them\<close>

text \<open>
  The program reads and writes these structures as they lie in memory. How they lie is not written in the program but
  follows from their declarations: members in order, each at the next offset that is a multiple of its alignment, which is its
  size or, if that is less, what \<^verbatim>\<open>pragma pack\<close> says; the size of the whole is a multiple of the greatest alignment;
  numbers are little-endian. \<open>c_image\<close> is the image of a value, with zeros for padding.
\<close>

datatype c_type = Scalar nat | Array nat c_type | Struct c_members
and c_members = No_member | Member string c_type c_members

definition align_up :: "nat \<Rightarrow> nat \<Rightarrow> nat" where
  "align_up a offset = (offset + a - 1) div a * a"

primrec c_align :: "nat \<Rightarrow> c_type \<Rightarrow> nat" and c_aligns :: "nat \<Rightarrow> c_members \<Rightarrow> nat" where
  "c_align pack (Scalar k) = min pack k"
| "c_align pack (Array c t) = c_align pack t"
| "c_align pack (Struct ms) = c_aligns pack ms"
| "c_aligns pack No_member = 1"
| "c_aligns pack (Member f t ms) = max (c_align pack t) (c_aligns pack ms)"

primrec c_size :: "nat \<Rightarrow> c_type \<Rightarrow> nat" and c_end :: "nat \<Rightarrow> c_members \<Rightarrow> nat \<Rightarrow> nat" where
  "c_size pack (Scalar k) = k"
| "c_size pack (Array c t) = c * c_size pack t"
| "c_size pack (Struct ms) = align_up (c_aligns pack ms) (c_end pack ms 0)"
| "c_end pack No_member offset = offset"
| "c_end pack (Member f t ms) offset = c_end pack ms (align_up (c_align pack t) offset + c_size pack t)"

datatype c_value = Number nat | Elements "c_value list" | Fields "string \<Rightarrow> c_value"

definition number_bytes :: "nat \<Rightarrow> nat \<Rightarrow> byte list" where
  "number_bytes k x = map (\<lambda>i. of_nat (x div 2 ^ (8 * i))) [0..<k]"

primrec c_image :: "nat \<Rightarrow> c_type \<Rightarrow> c_value \<Rightarrow> byte list"
  and c_images :: "nat \<Rightarrow> c_members \<Rightarrow> (string \<Rightarrow> c_value) \<Rightarrow> nat \<Rightarrow> byte list" where
  "c_image pack (Scalar k) v = (case v of Number x \<Rightarrow> number_bytes k x | _ \<Rightarrow> [])"
| "c_image pack (Array c t) v = (case v of Elements vs \<Rightarrow> if length vs = c then concat (map (c_image pack t) vs) else [] | _ \<Rightarrow> [])"
| "c_image pack (Struct ms) v =
     (case v of
        Fields fs \<Rightarrow> c_images pack ms fs 0 @ replicate (c_size pack (Struct ms) - c_end pack ms 0) 0
      | _ \<Rightarrow> [])"
| "c_images pack No_member fs offset = []"
| "c_images pack (Member f t ms) fs offset =
     (let start = align_up (c_align pack t) offset
      in replicate (start - offset) 0 @ c_image pack t (fs f) @ c_images pack ms fs (start + c_size pack t))"

text \<open>The declarations, both under \<^verbatim>\<open>pragma pack(push, 1)\<close>; \<^verbatim>\<open>wchar_t\<close> has two bytes.\<close>

definition SFileInformation_type :: c_type where
  "SFileInformation_type = Struct
     (Member ''index'' (Scalar 4) (Member ''hash'' (Scalar 4) (Member ''version'' (Scalar 4) (Member ''flags'' (Scalar 1)
     (Member ''rawsize'' (Scalar 4) (Member ''compressedsize'' (Scalar 4) (Member ''cryptedsize'' (Scalar 4)
     (Member ''filename'' (Array 255 (Scalar 2)) No_member))))))))"

definition SArchiveHeader_type :: c_type where
  "SArchiveHeader_type = Struct
     (Member ''magic'' (Scalar 4) (Member ''bytesPerBlock'' (Scalar 4) (Member ''firstEntry'' (Scalar 4) No_member)))"

definition SFileEntry_type :: c_type where
  "SFileEntry_type = Struct
     (Member ''info'' SFileInformation_type (Member ''finalSize'' (Scalar 4) (Member ''numBlocks'' (Scalar 4)
     (Member ''offset'' (Scalar 8) No_member))))"

text \<open>The values of the members by name.\<close>

definition fields :: "(string \<times> c_value) list \<Rightarrow> c_value" where
  "fields xs = Fields (\<lambda>f. case map_of xs f of None \<Rightarrow> Number 0 | Some v \<Rightarrow> v)"

definition info_value :: "SFileInformation \<Rightarrow> c_value" where
  "info_value i = fields
     [(''index'', Number (unat (fi_index i))), (''hash'', Number (unat (fi_hash i))), (''version'', Number (unat (fi_version i))),
      (''flags'', Number (unat (fi_flags i))), (''rawsize'', Number (unat (fi_rawsize i))),
      (''compressedsize'', Number (unat (fi_compressedsize i))), (''cryptedsize'', Number (unat (fi_cryptedsize i))),
      (''filename'', Elements (map (\<lambda>c. Number (unat c)) (fi_filename i)))]"

definition header_value :: "SArchiveHeader \<Rightarrow> c_value" where
  "header_value h = fields
     [(''magic'', Number (unat (ah_magic h))), (''bytesPerBlock'', Number (unat (ah_bytesPerBlock h))),
      (''firstEntry'', Number (unat (ah_firstEntry h)))]"

definition entry_value :: "SFileEntry \<Rightarrow> c_value" where
  "entry_value e = fields
     [(''info'', info_value (fe_info e)), (''finalSize'', Number (unat (fe_finalSize e))),
      (''numBlocks'', Number (unat (fe_numBlocks e))), (''offset'', Number (unat (fe_offset e)))]"

lemma le_bytes_number: "le_bytes k w = number_bytes k (unat w)"
proof -
  have "(ucast (drop_bit (8 * i) w) :: byte) = of_nat (unat w div 2 ^ (8 * i))" for i
  proof -
    have "unat (drop_bit (8 * i) w) = unat w div 2 ^ (8 * i)"
      unfolding drop_bit_eq_div [symmetric] by (rule bit_eqI) (simp add: bit_drop_bit_eq bit_unsigned_iff)
    moreover have "(ucast (drop_bit (8 * i) w) :: byte) = of_nat (unat (drop_bit (8 * i) w))" by (rule of_nat_unat [symmetric])
    ultimately show ?thesis by (simp only:)
  qed
  then show ?thesis unfolding le_bytes_def number_bytes_def by (simp only:)
qed

lemma align_up_packed [simp]: "align_up (Suc 0) n = n"
  by (simp add: align_up_def)

lemma wchars_number: "wchars_bytes s = concat (map (\<lambda>c. number_bytes 2 (unat c)) s)"
proof -
  have "le_bytes 2 = (\<lambda>c :: u16. number_bytes 2 (unat c))" by (simp add: le_bytes_number fun_eq_iff)
  then show ?thesis by (simp only: wchars_bytes_def)
qed

lemmas c_layout_simps = fields_def le_bytes_number wchars_number comp_def

lemma header_c_image: "header_bytes h = c_image 1 SArchiveHeader_type (header_value h)"
  by (simp add: SArchiveHeader_type_def header_value_def header_bytes_def c_layout_simps)

lemma info_c_image: "length (fi_filename i) = 255 \<Longrightarrow> info_bytes i = c_image 1 SFileInformation_type (info_value i)"
  by (simp add: SFileInformation_type_def info_value_def info_bytes_def c_layout_simps)

lemma info_c_size: "c_align 1 SFileInformation_type = 1" "c_size 1 SFileInformation_type = 535"
  by (simp_all add: SFileInformation_type_def)

lemma entry_c_image: "entry_ok e \<Longrightarrow> entry_bytes e = c_image 1 SFileEntry_type (entry_value e)"
  using info_c_image [of "fe_info e"] info_c_size
  by (simp add: SFileEntry_type_def entry_value_def entry_bytes_def entry_ok_def fields_def le_bytes_number)

lemma c_sizes: "c_size 1 SArchiveHeader_type = 12" "c_size 1 SFileEntry_type = 551"
  using info_c_size by (simp_all add: SArchiveHeader_type_def SFileEntry_type_def)

text \<open>With the default packing there would be padding.\<close>

lemma unpacked_size: "c_size 8 SFileEntry_type = 560"
  by (simp add: SFileEntry_type_def SFileInformation_type_def align_up_def)

section \<open>Sizes and inverses\<close>

lemma length_wchars_bytes [simp]: "length (wchars_bytes s) = 2 * length s"
  by (induction s) (auto simp: wchars_bytes_def)

lemma length_header_bytes [simp]: "length (header_bytes h) = 12"
  by (simp add: header_bytes_def)

lemma length_info_bytes: "length (info_bytes i) = 25 + 2 * length (fi_filename i)"
  by (simp add: info_bytes_def)

lemma length_entry_bytes [simp]: "entry_ok e \<Longrightarrow> length (entry_bytes e) = 551"
  by (simp add: entry_bytes_def entry_ok_def length_info_bytes)

lemma slice_wchars: "i < length s \<Longrightarrow> slice (2 * i) 2 (wchars_bytes s) = le_bytes 2 (s ! i)"
proof (induction s arbitrary: i)
  case Nil
  then show ?case by simp
next
  case (Cons c s)
  show ?case
  proof (cases i)
    case 0
    then show ?thesis by (simp add: wchars_bytes_def)
  next
    case (Suc j)
    then have "slice (2 * i) 2 (wchars_bytes (c # s)) = slice (2 * j) 2 (wchars_bytes s)"
      by (simp add: wchars_bytes_def slice_append_right)
    then show ?thesis using Cons Suc by simp
  qed
qed

lemma bytes_wchars_inverse: "bytes_wchars (length s) (wchars_bytes s) = s"
  by (rule nth_equalityI) (simp_all add: bytes_wchars_def slice_wchars le_word_le_bytes)

lemma slice_all: "length xs = n \<Longrightarrow> slice 0 n xs = xs"
  by simp

lemma slice_head: "length xs = n \<Longrightarrow> slice 0 n (xs @ ys) = xs"
  by simp

lemma slice_skip: "length xs = k \<Longrightarrow> k \<le> i \<Longrightarrow> slice i n (xs @ ys) = slice (i - k) n ys"
  by (simp add: slice_append_right)

lemma header_inverse: "bytes_header (header_bytes h) = h"
  by (simp add: header_bytes_def bytes_header_def slice_append_right le_word_le_bytes)

lemma info_inverse: "length (fi_filename i) = 255 \<Longrightarrow> bytes_info (info_bytes i) = i"
  using bytes_wchars_inverse [of "fi_filename i"]
  by (simp add: info_bytes_def bytes_info_def slice_append_right le_word_le_bytes)

lemma entry_inverse: "entry_ok e \<Longrightarrow> bytes_entry (entry_bytes e) = e"
  by (simp add: entry_bytes_def bytes_entry_def entry_ok_def length_info_bytes slice_append_right
      le_word_le_bytes info_inverse)

text \<open>Every image of the right size is the image of the structure read from it.\<close>

lemma wchars_inverse: "length bs = 2 * n \<Longrightarrow> wchars_bytes (bytes_wchars n bs) = bs"
proof (induction n arbitrary: bs)
  case 0
  then show ?case by (simp add: bytes_wchars_def wchars_bytes_def)
next
  case (Suc n)
  have "bytes_wchars (Suc n) bs = le_word (take 2 bs) # bytes_wchars n (drop 2 bs)"
    by (simp add: bytes_wchars_def upt_conv_Cons del: upt_Suc)
      (simp add: slice_def map_Suc_upt [symmetric] del: upt_Suc)
  moreover have "wchars_bytes (bytes_wchars n (drop 2 bs)) = drop 2 bs"
    by (rule Suc.IH) (use Suc.prems in simp)
  ultimately show ?case
    using Suc.prems by (simp add: wchars_bytes_def le_bytes_le_word)
qed

lemma header_image: "length bs = 12 \<Longrightarrow> header_bytes (bytes_header bs) = bs"
  using slice_split [of 4 12 0 bs] slice_split [of 4 8 4 bs]
  by (simp add: header_bytes_def bytes_header_def le_bytes_le_word length_slice)

lemma length_bytes_info [simp]: "length (fi_filename (bytes_info bs)) = 255"
  by (simp add: bytes_info_def bytes_wchars_def)

lemma entry_ok_bytes [simp]: "entry_ok (bytes_entry bs)"
  by (simp add: entry_ok_def bytes_entry_def)

lemma info_image: "length bs = 535 \<Longrightarrow> info_bytes (bytes_info bs) = bs"
  using slice_split [of 4 535 0 bs] slice_split [of 4 531 4 bs] slice_split [of 4 527 8 bs]
    slice_split [of 1 523 12 bs] slice_split [of 4 522 13 bs] slice_split [of 4 518 17 bs]
    slice_split [of 4 514 21 bs]
  by (simp add: info_bytes_def bytes_info_def le_bytes_le_word length_slice wchars_inverse)

lemma entry_image: "length bs = 551 \<Longrightarrow> entry_bytes (bytes_entry bs) = bs"
  using slice_split [of 535 551 0 bs] slice_split [of 4 16 535 bs] slice_split [of 4 12 539 bs]
  by (simp add: entry_bytes_def bytes_entry_def le_bytes_le_word length_slice info_image)

end
