(* ===== verification/Lz4hc_Match.thy ===== *)
theory Lz4hc_Match
  imports Lz4_Block
begin

text \<open>
  The match finder of \<^verbatim>\<open>3rd/lz4/lib/lz4hc.c\<close>: the hash table and the chains of the positions that have been passed,
  and the search along a chain for the longest match at a position, as \<^verbatim>\<open>LZ4HC_FindLongerMatch\<close> calls it
  (no look-back, with pattern analysis and chain swapping, no dictionary). The source is a list of bytes, pointers
  are positions in it; an index is 32 bits wide and \<^verbatim>\<open>64 KB\<close> ahead of the position, as \<^verbatim>\<open>base\<close> is \<^verbatim>\<open>64 KB\<close> in
  front of the source. The target is little-endian, \<^verbatim>\<open>reg_t\<close> has 64 bits. Reads of the source are not checked here;
  they are below the limit of the search, at the position or at a candidate before it.
\<close>

section \<open>Counting common bytes\<close>

definition LZ4_read16 :: "byte list \<Rightarrow> nat \<Rightarrow> u16" where
  "LZ4_read16 src p = le_word (slice p 2 src)"

definition LZ4_read32 :: "byte list \<Rightarrow> nat \<Rightarrow> u32" where
  "LZ4_read32 src p = le_word (slice p 4 src)"

definition LZ4_read_ARCH :: "byte list \<Rightarrow> nat \<Rightarrow> u64" where
  "LZ4_read_ARCH src p = le_word (slice p 8 src)"

text \<open>The index of the lowest bit that is set, which the compilers' intrinsics find, divided by eight.\<close>

definition bit_scan_forward :: "u64 \<Rightarrow> nat" where
  "bit_scan_forward val = length (takeWhile (\<lambda>i. \<not> bit val i) [0..<64])"

definition LZ4_NbCommonBytes :: "u64 \<Rightarrow> nat" where
  "LZ4_NbCommonBytes val = bit_scan_forward val div 8"

text \<open>The bytes behind the last whole word, and the words; the results are where the count ends.\<close>

definition count_tail :: "byte list \<Rightarrow> nat \<Rightarrow> nat \<Rightarrow> nat \<Rightarrow> nat" where
  "count_tail src pIn pMatch pInLimit =
     (let (pIn, pMatch) = (if pIn + 3 < pInLimit \<and> LZ4_read32 src pMatch = LZ4_read32 src pIn
                           then (pIn + 4, pMatch + 4) else (pIn, pMatch));
          (pIn, pMatch) = (if pIn + 1 < pInLimit \<and> LZ4_read16 src pMatch = LZ4_read16 src pIn
                           then (pIn + 2, pMatch + 2) else (pIn, pMatch))
      in if pIn < pInLimit \<and> src ! pMatch = src ! pIn then pIn + 1 else pIn)"

function count_words :: "byte list \<Rightarrow> nat \<Rightarrow> nat \<Rightarrow> nat \<Rightarrow> nat" where
  "count_words src pIn pMatch pInLimit =
     (if pIn + 7 < pInLimit
      then (let diff = LZ4_read_ARCH src pMatch XOR LZ4_read_ARCH src pIn
            in if diff = 0 then count_words src (pIn + 8) (pMatch + 8) pInLimit
               else pIn + LZ4_NbCommonBytes diff)
      else count_tail src pIn pMatch pInLimit)"
  by pat_completeness auto
termination by (relation "measure (\<lambda>(src, pIn, pMatch, pInLimit). pInLimit - pIn)") auto

definition LZ4_count :: "byte list \<Rightarrow> nat \<Rightarrow> nat \<Rightarrow> nat \<Rightarrow> nat" where
  "LZ4_count src pIn pMatch pInLimit = count_words src pIn pMatch pInLimit - pIn"

section \<open>Counting a pattern\<close>

function pattern_tail :: "byte list \<Rightarrow> nat \<Rightarrow> nat \<Rightarrow> u64 \<Rightarrow> nat" where
  "pattern_tail src ip iEnd patternByte =
     (if ip < iEnd \<and> src ! ip = ucast patternByte then pattern_tail src (ip + 1) iEnd (drop_bit 8 patternByte) else ip)"
  by pat_completeness auto
termination by (relation "measure (\<lambda>(src, ip, iEnd, patternByte). iEnd - ip)") auto

function pattern_words :: "byte list \<Rightarrow> nat \<Rightarrow> nat \<Rightarrow> u64 \<Rightarrow> nat" where
  "pattern_words src ip iEnd pattern =
     (if ip + 7 < iEnd
      then (let diff = LZ4_read_ARCH src ip XOR pattern
            in if diff = 0 then pattern_words src (ip + 8) iEnd pattern
               else ip + LZ4_NbCommonBytes diff)
      else pattern_tail src ip iEnd pattern)"
  by pat_completeness auto
termination by (relation "measure (\<lambda>(src, ip, iEnd, pattern). iEnd - ip)") auto

definition LZ4HC_countPattern :: "byte list \<Rightarrow> nat \<Rightarrow> nat \<Rightarrow> u32 \<Rightarrow> nat" where
  "LZ4HC_countPattern src ip iEnd pattern32 =
     pattern_words src ip iEnd (ucast pattern32 + push_bit 32 (ucast pattern32)) - ip"

function reverse_words :: "byte list \<Rightarrow> nat \<Rightarrow> nat \<Rightarrow> u32 \<Rightarrow> nat" where
  "reverse_words src ip iLow pattern =
     (if iLow + 4 \<le> ip \<and> LZ4_read32 src (ip - 4) = pattern then reverse_words src (ip - 4) iLow pattern else ip)"
  by pat_completeness auto
termination by (relation "measure (\<lambda>(src, ip, iLow, pattern). ip)") auto

text \<open>The bytes of the pattern from its last one on; they are enough, since four more bytes would be a word.\<close>

fun reverse_bytes :: "byte list \<Rightarrow> nat \<Rightarrow> nat \<Rightarrow> byte list \<Rightarrow> nat" where
  "reverse_bytes src ip iLow [] = ip"
| "reverse_bytes src ip iLow (b # bs) =
     (if iLow < ip \<and> src ! (ip - 1) = b then reverse_bytes src (ip - 1) iLow bs else ip)"

definition LZ4HC_reverseCountPattern :: "byte list \<Rightarrow> nat \<Rightarrow> nat \<Rightarrow> u32 \<Rightarrow> nat" where
  "LZ4HC_reverseCountPattern src ip iLow pattern =
     ip - reverse_bytes src (reverse_words src ip iLow pattern) iLow (rev (le_bytes 4 pattern))"

declare count_words.simps [simp del] pattern_tail.simps [simp del] pattern_words.simps [simp del]
  reverse_words.simps [simp del]

section \<open>Tables\<close>

text \<open>
  \<^verbatim>\<open>LZ4HC_CCtx_internal\<close>, without the fields of dictionaries. Of \<^verbatim>\<open>base\<close> and \<^verbatim>\<open>end\<close> the difference is kept;
  \<open>base\<close> itself is as far in front of the source as the first index is large.
\<close>

record LZ4HC_CCtx =
  hc_hashTable :: "u32 \<Rightarrow> u32"
  hc_chainTable :: "u16 \<Rightarrow> u16"
  hc_extent :: u64
  hc_dictLimit :: u32
  hc_lowLimit :: u32
  hc_nextToUpdate :: u32
  hc_compressionLevel :: int
  hc_favorDecSpeed :: bool
  hc_dirty :: bool

definition LZ4HC_clearTables :: "LZ4HC_CCtx \<Rightarrow> LZ4HC_CCtx" where
  "LZ4HC_clearTables hc4 = hc4\<lparr>hc_hashTable := \<lambda>_. 0, hc_chainTable := \<lambda>_. 0xFFFF\<rparr>"

definition LZ4HC_init :: "LZ4HC_CCtx \<Rightarrow> LZ4HC_CCtx" where
  "LZ4HC_init hc4 =
     (let startingOffset = hc_extent hc4;
          (hc4, startingOffset) = (if startingOffset > 0x40000000 then (LZ4HC_clearTables hc4, 0) else (hc4, startingOffset));
          startingOffset = startingOffset + 0x10000
      in hc4\<lparr>hc_nextToUpdate := ucast startingOffset, hc_extent := startingOffset,
             hc_dictLimit := ucast startingOffset, hc_lowLimit := ucast startingOffset\<rparr>)"

text \<open>From a position to its index and back.\<close>

definition index_of :: "nat \<Rightarrow> u32" where
  "index_of p = of_nat (p + 0x10000)"

definition ptr_of :: "u32 \<Rightarrow> nat" where
  "ptr_of i = unat i - 0x10000"

definition LZ4HC_hashPtr :: "byte list \<Rightarrow> nat \<Rightarrow> u32" where
  "LZ4HC_hashPtr src p = drop_bit 17 (LZ4_read32 src p * 2654435761)"

definition DELTANEXTU16 :: "LZ4HC_CCtx \<Rightarrow> u32 \<Rightarrow> u16" where
  "DELTANEXTU16 hc4 pos = hc_chainTable hc4 (ucast pos)"

text \<open>One position of the loop that updates the chains, and the loop.\<close>

definition insert_position :: "byte list \<Rightarrow> u32 \<Rightarrow> LZ4HC_CCtx \<Rightarrow> LZ4HC_CCtx" where
  "insert_position src idx hc4 =
     (let h = LZ4HC_hashPtr src (ptr_of idx);
          delta = idx - hc_hashTable hc4 h;
          delta = (if delta > 65535 then 65535 else delta)
      in hc4\<lparr>hc_chainTable := (hc_chainTable hc4)(ucast idx := ucast delta),
             hc_hashTable := (hc_hashTable hc4)(h := idx)\<rparr>)"

function insert_loop :: "byte list \<Rightarrow> u32 \<Rightarrow> u32 \<Rightarrow> LZ4HC_CCtx \<Rightarrow> LZ4HC_CCtx" where
  "insert_loop src idx target hc4 =
     (if idx < target then insert_loop src (idx + 1) target (insert_position src idx hc4) else hc4)"
  by pat_completeness auto
termination
proof (relation "measure (\<lambda>(src, idx, target, hc4). unat target - unat idx)", simp)
  fix src idx target and hc4 :: LZ4HC_CCtx
  assume "idx < (target :: u32)"
  moreover from this have "unat idx + 1 < 2 ^ 32"
    using unsigned_less [of target, where ?'a = nat] by (simp add: word_less_nat_alt)
  then have "unat (idx + 1) = Suc (unat idx)" by (simp add: unat_word_ariths)
  ultimately show "((src, idx + 1, target, insert_position src idx hc4), src, idx, target, hc4)
      \<in> measure (\<lambda>(src, idx, target, hc4). unat target - unat idx)"
    by (simp add: word_less_nat_alt)
qed

declare insert_loop.simps [simp del]

definition LZ4HC_Insert :: "byte list \<Rightarrow> nat \<Rightarrow> LZ4HC_CCtx \<Rightarrow> LZ4HC_CCtx" where
  "LZ4HC_Insert src ip hc4 =
     (let target = index_of ip
      in (insert_loop src (hc_nextToUpdate hc4) target hc4)\<lparr>hc_nextToUpdate := target\<rparr>)"

section \<open>Searching\<close>

datatype repeat_state_e = rep_untested | rep_not | rep_confirmed

text \<open>The variables of \<^verbatim>\<open>LZ4HC_InsertAndGetWiderMatch\<close>; \<open>se_matchpos\<close> is the index of the longest match so far.\<close>

record search =
  se_matchIndex :: u32
  se_longest :: nat
  se_matchpos :: u32
  se_matchChainPos :: nat
  se_repeat :: repeat_state_e
  se_srcPatternLength :: nat

text \<open>The index, minus a number that is checked or known not to be larger.\<close>

definition go_back :: "u32 \<Rightarrow> search \<Rightarrow> search" where
  "go_back d st = st\<lparr>se_matchIndex := se_matchIndex st - d\<rparr>"

text \<open>How a turn of the loop goes on: with the next turn, or by leaving the loop.\<close>

datatype search_step = Next_match search | Break_search search

text \<open>
  The candidate itself: the length of the match, 0 for none. An index below \<open>dictLimit\<close> would be in a dictionary;
  \<open>lowLimit\<close> equals \<open>dictLimit\<close>, so there is none.
\<close>

definition try_match :: "byte list \<Rightarrow> LZ4HC_CCtx \<Rightarrow> nat \<Rightarrow> nat \<Rightarrow> bool \<Rightarrow> search \<Rightarrow> nat \<times> search" where
  "try_match src hc4 ip iHighLimit favorDecSpeed st =
     (let matchIndex = se_matchIndex st; matchPtr = ptr_of matchIndex; longest = se_longest st
      in if favorDecSpeed \<and> index_of ip - matchIndex < 8 then (0, st)
         else if matchIndex \<ge> hc_dictLimit hc4
           \<and> LZ4_read16 src (ip + longest - 1) = LZ4_read16 src (matchPtr + longest - 1)
           \<and> LZ4_read32 src matchPtr = LZ4_read32 src ip
         then let matchLength = 4 + LZ4_count src (ip + 4) (matchPtr + 4) iHighLimit
              in (matchLength, if matchLength > longest then st\<lparr>se_longest := matchLength, se_matchpos := matchIndex\<rparr> else st)
         else (0, st))"

text \<open>The chain among those of the bytes of the match that goes back farthest.\<close>

definition best_chain :: "LZ4HC_CCtx \<Rightarrow> u32 \<Rightarrow> nat \<Rightarrow> nat \<Rightarrow> u32 \<times> nat" where
  "best_chain hc4 matchIndex longest matchChainPos =
     fold (\<lambda>pos (distanceToNextMatch, matchChainPos).
         let candidateDist = ucast (DELTANEXTU16 hc4 (matchIndex + of_nat pos))
         in if candidateDist > distanceToNextMatch then (candidateDist, pos) else (distanceToNextMatch, matchChainPos))
       [0..<Suc longest - 4] (1, matchChainPos)"

definition swap_chain :: "LZ4HC_CCtx \<Rightarrow> nat \<Rightarrow> nat \<Rightarrow> search \<Rightarrow> search_step + search" where
  "swap_chain hc4 ip matchLength st =
     (let matchIndex = se_matchIndex st; longest = se_longest st
      in if matchLength = longest \<and> matchIndex + of_nat longest \<le> index_of ip
         then (case best_chain hc4 matchIndex longest (se_matchChainPos st) of
                 (distanceToNextMatch, matchChainPos) \<Rightarrow>
                   let st = st\<lparr>se_matchChainPos := matchChainPos\<rparr>
                   in if distanceToNextMatch > 1
                      then (if distanceToNextMatch > matchIndex then Inl (Break_search st)
                            else Inl (Next_match (go_back distanceToNextMatch st)))
                      else Inr st)
         else Inr st)"

text \<open>Whether the four bytes at \<open>ip\<close> are one byte four times, found out once, and how long this goes on.\<close>

definition confirm_repeat :: "byte list \<Rightarrow> nat \<Rightarrow> nat \<Rightarrow> search \<Rightarrow> search" where
  "confirm_repeat src ip iHighLimit st =
     (let pattern = LZ4_read32 src ip
      in if se_repeat st = rep_untested
         then (if pattern AND 0xFFFF = drop_bit 16 pattern \<and> pattern AND 0xFF = drop_bit 24 pattern
               then st\<lparr>se_repeat := rep_confirmed,
                       se_srcPatternLength := LZ4HC_countPattern src (ip + 4) iHighLimit pattern + 4\<rparr>
               else st\<lparr>se_repeat := rep_not\<rparr>)
         else st)"

text \<open>A candidate in a run of the pattern, one byte before the match index.\<close>

definition follow_pattern :: "byte list \<Rightarrow> LZ4HC_CCtx \<Rightarrow> nat \<Rightarrow> nat \<Rightarrow> search \<Rightarrow> search_step" where
  "follow_pattern src hc4 ip iHighLimit st =
     (let pattern = LZ4_read32 src ip;
          matchCandidateIdx = se_matchIndex st - 1;
          matchPtr = ptr_of matchCandidateIdx;
          srcPatternLength = se_srcPatternLength st;
          forwardPatternLength = LZ4HC_countPattern src (matchPtr + 4) iHighLimit pattern + 4;
          lowPrefixPtr = ptr_of (hc_dictLimit hc4);
          lowestMatchPtr = (if lowPrefixPtr + 65535 \<ge> ip then lowPrefixPtr else ip - 65535);
          backLength = LZ4HC_reverseCountPattern src matchPtr lowestMatchPtr pattern;
          currentSegmentLength = backLength + forwardPatternLength
      in if currentSegmentLength \<ge> srcPatternLength \<and> forwardPatternLength \<le> srcPatternLength
         then Next_match (st\<lparr>se_matchIndex := matchCandidateIdx + of_nat forwardPatternLength - of_nat srcPatternLength\<rparr>)
         else let matchIndex = matchCandidateIdx - of_nat backLength;
                  st = st\<lparr>se_matchIndex := matchIndex\<rparr>;
                  maxML = min currentSegmentLength srcPatternLength;
                  distToNextPattern = ucast (DELTANEXTU16 hc4 matchIndex)
              in if se_longest st < maxML \<and> ip - ptr_of matchIndex > 65535 then Break_search st
                 else let st = (if se_longest st < maxML then st\<lparr>se_longest := maxML, se_matchpos := matchIndex\<rparr> else st)
                      in if distToNextPattern > matchIndex then Break_search st
                         else Next_match (go_back distToNextPattern st))"

definition search_turn :: "byte list \<Rightarrow> LZ4HC_CCtx \<Rightarrow> nat \<Rightarrow> nat \<Rightarrow> bool \<Rightarrow> search \<Rightarrow> search_step" where
  "search_turn src hc4 ip iHighLimit favorDecSpeed st =
     (case try_match src hc4 ip iHighLimit favorDecSpeed st of
        (matchLength, st) \<Rightarrow>
          (case swap_chain hc4 ip matchLength st of
             Inl step \<Rightarrow> step
           | Inr st \<Rightarrow>
               let analyse = DELTANEXTU16 hc4 (se_matchIndex st) = 1 \<and> se_matchChainPos st = 0;
                   st = (if analyse then confirm_repeat src ip iHighLimit st else st)
               in if analyse \<and> se_repeat st = rep_confirmed \<and> se_matchIndex st - 1 \<ge> hc_dictLimit hc4
                    \<and> LZ4_read32 src (ptr_of (se_matchIndex st - 1)) = LZ4_read32 src ip
                  then follow_pattern src hc4 ip iHighLimit st
                  else Next_match (go_back
                    (ucast (DELTANEXTU16 hc4 (se_matchIndex st + of_nat (se_matchChainPos st)))) st)))"

fun search_loop :: "byte list \<Rightarrow> LZ4HC_CCtx \<Rightarrow> nat \<Rightarrow> nat \<Rightarrow> bool \<Rightarrow> u32 \<Rightarrow> nat \<Rightarrow> search \<Rightarrow> search" where
  "search_loop src hc4 ip iHighLimit favorDecSpeed lowestMatchIndex 0 st = st"
| "search_loop src hc4 ip iHighLimit favorDecSpeed lowestMatchIndex (Suc nbAttempts) st =
     (if se_matchIndex st \<ge> lowestMatchIndex
      then (case search_turn src hc4 ip iHighLimit favorDecSpeed st of
              Break_search st \<Rightarrow> st
            | Next_match st \<Rightarrow> search_loop src hc4 ip iHighLimit favorDecSpeed lowestMatchIndex nbAttempts st)
      else st)"

definition LZ4HC_InsertAndGetWiderMatch ::
  "byte list \<Rightarrow> LZ4HC_CCtx \<Rightarrow> nat \<Rightarrow> nat \<Rightarrow> nat \<Rightarrow> nat \<Rightarrow> bool \<Rightarrow> (nat \<times> u32) \<times> LZ4HC_CCtx" where
  "LZ4HC_InsertAndGetWiderMatch src hc4 ip iHighLimit longest maxNbAttempts favorDecSpeed =
     (let ipIndex = index_of ip;
          lowestMatchIndex = (if hc_lowLimit hc4 + 0x10000 > ipIndex then hc_lowLimit hc4 else ipIndex - 65535);
          hc4 = LZ4HC_Insert src ip hc4;
          st = search_loop src hc4 ip iHighLimit favorDecSpeed lowestMatchIndex maxNbAttempts
            \<lparr>se_matchIndex = hc_hashTable hc4 (LZ4HC_hashPtr src ip), se_longest = longest, se_matchpos = 0,
             se_matchChainPos = 0, se_repeat = rep_untested, se_srcPatternLength = 0\<rparr>
      in ((se_longest st, se_matchpos st), hc4))"

record LZ4HC_match =
  ma_off :: nat
  ma_len :: nat

definition LZ4HC_FindLongerMatch ::
  "byte list \<Rightarrow> LZ4HC_CCtx \<Rightarrow> nat \<Rightarrow> nat \<Rightarrow> nat \<Rightarrow> nat \<Rightarrow> bool \<Rightarrow> LZ4HC_match \<times> LZ4HC_CCtx" where
  "LZ4HC_FindLongerMatch src ctx ip iHighLimit minLen nbSearches favorDecSpeed =
     (case LZ4HC_InsertAndGetWiderMatch src ctx ip iHighLimit minLen nbSearches favorDecSpeed of
        ((matchLength, matchPtr), ctx) \<Rightarrow>
          if matchLength \<le> minLen then (\<lparr>ma_off = 0, ma_len = 0\<rparr>, ctx)
          else let matchLength = (if favorDecSpeed \<and> matchLength > 18 \<and> matchLength \<le> 36 then 18 else matchLength)
               in (\<lparr>ma_off = ip - ptr_of matchPtr, ma_len = matchLength\<rparr>, ctx))"

end
