(* ===== verification/Lz4hc_Optimal.thy ===== *)
theory Lz4hc_Optimal
  imports Lz4hc_Match
begin

text \<open>
  \<^verbatim>\<open>LZ4_compress_HC\<close> of \<^verbatim>\<open>3rd/lz4/lib/lz4hc.c\<close> at the highest level, as the archive calls it: the optimal parser, which
  prices the ways to encode the next bytes, and the encoder. The output is a buffer and a position in it;
  writing outside of it, or copying from outside the source, is undefined behaviour, \<open>None\<close>, as is a loop
  that does not end. The memory the compressor allocates and the array on its stack start with any contents.
\<close>

section \<open>Encoding a sequence\<close>

record hc_out =
  ho_anchor :: nat
  ho_op :: nat
  ho_dst :: "byte list"

text \<open>The loops that write a length, in steps of 255, for literals and for matches.\<close>

fun put_run :: "nat \<Rightarrow> byte list" where
  "put_run len = (if len \<ge> 255 then 255 # put_run (len - 255) else [of_nat len])"

fun put_match_run :: "nat \<Rightarrow> byte list" where
  "put_match_run len =
     (if len \<ge> 510 then 255 # 255 # put_match_run (len - 510)
      else if len \<ge> 255 then [255, of_nat (len - 255)] else [of_nat len])"

declare put_run.simps [simp del] put_match_run.simps [simp del]

text \<open>The new \<open>ip\<close> and output; the inner \<open>None\<close> is an output that is too small, when it is limited.\<close>

definition LZ4HC_encodeSequence ::
  "byte list \<Rightarrow> bool \<Rightarrow> int \<Rightarrow> nat \<Rightarrow> nat \<Rightarrow> nat \<Rightarrow> hc_out \<Rightarrow> (nat \<times> hc_out) option option" where
  "LZ4HC_encodeSequence src limit oend ip matchLength offset out =
     (let token = ho_op out; op = token + 1; len = ip - ho_anchor out; dst = ho_dst out
      in if limit \<and> int (op + len div 255 + len + 8) > oend then Some None
         else do {
           let lens = (if len \<ge> 15 then put_run (len - 15) else []);
           let high = (if len \<ge> 15 then 0xF0 else of_nat (16 * len) :: byte);
           dst \<leftarrow> store token [high] dst;
           dst \<leftarrow> store op lens dst;
           let op = op + length lens;
           dst \<leftarrow> wildCopy_literals op (drop (ho_anchor out) src) (op + len) dst;
           let op = op + len;
           dst \<leftarrow> store op (le_bytes 2 (of_nat offset :: u16)) dst;
           let op = op + 2;
           let mlen = matchLength - 4;
           if limit \<and> int (op + mlen div 255 + 6) > oend then Some None
           else do {
             let lens = (if mlen \<ge> 15 then put_match_run (mlen - 15) else []);
             dst \<leftarrow> store token [high + (if mlen \<ge> 15 then 15 else of_nat mlen)] dst;
             dst \<leftarrow> store op lens dst;
             Some (Some (ip + matchLength,
               \<lparr>ho_anchor = ip + matchLength, ho_op = op + length lens, ho_dst = dst\<rparr>)) } })"

text \<open>The literals that are left, and the result: the size of the block, 0 when the output is too small.\<close>

definition encode_last_literals :: "byte list \<Rightarrow> bool \<Rightarrow> int \<Rightarrow> hc_out \<Rightarrow> (nat \<times> byte list) option" where
  "encode_last_literals src limit oend out =
     (let op = ho_op out; dst = ho_dst out;
          lastRunSize = length src - ho_anchor out;
          litLength = (lastRunSize + 255 - 15) div 255;
          totalSize = 1 + litLength + lastRunSize
      in if limit \<and> int (op + totalSize) > oend then Some (0, dst)
         else do {
           let run = (if lastRunSize \<ge> 15 then 0xF0 # put_run (lastRunSize - 15) else [of_nat (16 * lastRunSize)]);
           dst \<leftarrow> store op run dst;
           let op = op + length run;
           dst \<leftarrow> store op (drop (ho_anchor out) src) dst;
           Some (op + lastRunSize, dst) })"

section \<open>Prices\<close>

record LZ4HC_optimal =
  o_price :: int
  o_off :: nat
  o_mlen :: nat
  o_litlen :: nat

type_synonym optimal = "nat \<Rightarrow> LZ4HC_optimal"

definition LZ4HC_literalsPrice :: "nat \<Rightarrow> int" where
  "LZ4HC_literalsPrice litlen = int litlen + (if litlen \<ge> 15 then 1 + int ((litlen - 15) div 255) else 0)"

definition LZ4HC_sequencePrice :: "nat \<Rightarrow> nat \<Rightarrow> int" where
  "LZ4HC_sequencePrice litlen mlen =
     3 + LZ4HC_literalsPrice litlen + (if mlen \<ge> 19 then 1 + int ((mlen - 19) div 255) else 0)"

text \<open>The first positions as literals, then as ends of the first match.\<close>

definition first_literals :: "nat \<Rightarrow> optimal \<Rightarrow> optimal" where
  "first_literals llen opt =
     fold (\<lambda>rPos opt. opt(rPos := \<lparr>o_price = LZ4HC_literalsPrice (llen + rPos), o_off = 0, o_mlen = 1, o_litlen = llen + rPos\<rparr>))
       [0..<4] opt"

definition first_match :: "nat \<Rightarrow> LZ4HC_match \<Rightarrow> optimal \<Rightarrow> optimal" where
  "first_match llen m opt =
     fold (\<lambda>mlen opt. opt(mlen := \<lparr>o_price = LZ4HC_sequencePrice llen mlen, o_off = ma_off m, o_mlen = mlen, o_litlen = llen\<rparr>))
       [4..<Suc (ma_len m)] opt"

text \<open>Three literals behind the last match.\<close>

definition trailing_literals :: "nat \<Rightarrow> optimal \<Rightarrow> optimal" where
  "trailing_literals last_match_pos opt =
     fold (\<lambda>addLit opt. opt(last_match_pos + addLit :=
         \<lparr>o_price = o_price (opt last_match_pos) + LZ4HC_literalsPrice addLit, o_off = 0, o_mlen = 1, o_litlen = addLit\<rparr>))
       [1..<4] opt"

text \<open>Literals from a position at which a match was found, where they are cheaper.\<close>

definition literals_before :: "nat \<Rightarrow> optimal \<Rightarrow> optimal" where
  "literals_before cur opt =
     (let baseLitlen = o_litlen (opt cur)
      in fold (\<lambda>litlen opt.
           let price = o_price (opt cur) - LZ4HC_literalsPrice baseLitlen + LZ4HC_literalsPrice (baseLitlen + litlen);
               pos = cur + litlen
           in if price < o_price (opt pos)
              then opt(pos := \<lparr>o_price = price, o_off = 0, o_mlen = 1, o_litlen = baseLitlen + litlen\<rparr>) else opt)
         [1..<4] opt)"

definition price_match :: "bool \<Rightarrow> nat \<Rightarrow> LZ4HC_match \<Rightarrow> nat \<Rightarrow> nat \<times> optimal \<Rightarrow> nat \<times> optimal" where
  "price_match favorDecSpeed cur m ml = (\<lambda>(last_match_pos, opt).
     let pos = cur + ml;
         (ll, price) =
           (if o_mlen (opt cur) = 1
            then (o_litlen (opt cur), (if cur > o_litlen (opt cur) then o_price (opt (cur - o_litlen (opt cur))) else 0)
                   + LZ4HC_sequencePrice (o_litlen (opt cur)) ml)
            else (0, o_price (opt cur) + LZ4HC_sequencePrice 0 ml))
     in if pos > last_match_pos + 3 \<or> price \<le> o_price (opt pos) - (if favorDecSpeed then 1 else 0)
        then (if ml = ma_len m \<and> last_match_pos < pos then pos else last_match_pos,
              opt(pos := \<lparr>o_price = price, o_off = ma_off m, o_mlen = ml, o_litlen = ll\<rparr>))
        else (last_match_pos, opt))"

definition price_matches :: "bool \<Rightarrow> nat \<Rightarrow> LZ4HC_match \<Rightarrow> nat \<times> optimal \<Rightarrow> nat \<times> optimal" where
  "price_matches favorDecSpeed cur m = fold (price_match favorDecSpeed cur m) [4..<Suc (ma_len m)]"

section \<open>Parsing\<close>

text \<open>The arguments that are fixed during a compression.\<close>

record cParams =
  cp_nbSearches :: nat
  cp_sufficient_len :: nat
  cp_fullUpdate :: bool
  cp_favorDecSpeed :: bool

definition skip_position :: "bool \<Rightarrow> nat \<Rightarrow> optimal \<Rightarrow> bool" where
  "skip_position fullUpdate cur opt \<longleftrightarrow>
     o_price (opt (cur + 1)) \<le> o_price (opt cur) \<and> (fullUpdate \<longrightarrow> o_price (opt (cur + 4)) < o_price (opt cur) + 3)"

lemma price_matches_last: "fst (price_matches favor cur m (l, opt)) \<le> max l (cur + ma_len m)"
proof -
  have *: "fst (fold (price_match favor cur m) mls (l, opt)) \<le> max l (cur + ma_len m)"
    if "\<forall>ml\<in>set mls. ml \<le> ma_len m" for mls
    using that
  proof (induction mls arbitrary: l opt)
    case (Cons ml mls)
    obtain l' opt' where p: "price_match favor cur m ml (l, opt) = (l', opt')" by fastforce
    then have "l' \<le> max l (cur + ma_len m)"
      by (auto simp: price_match_def Let_def split: if_splits)
    then show ?case using Cons.IH [of l' opt'] Cons.prems p by (auto simp: max_def split: if_splits)
  qed simp
  show ?thesis unfolding price_matches_def by (rule *) auto
qed

text \<open>
  The loop over the positions \<open>cur\<close> behind \<open>ip\<close>. The result is \<open>cur\<close>, \<open>last_match_pos\<close>, \<open>best_mlen\<close> and \<open>best_off\<close> at
  the label \<^verbatim>\<open>encode\<close>, with the array and the tables.
\<close>

function check_loop ::
  "byte list \<Rightarrow> cParams \<Rightarrow> nat \<Rightarrow> nat \<Rightarrow> nat \<Rightarrow> optimal \<Rightarrow> LZ4HC_CCtx \<Rightarrow> (nat \<times> nat \<times> nat \<times> nat) \<times> optimal \<times> LZ4HC_CCtx" where
  "check_loop src P ip cur last_match_pos opt ctx =
     (if cur < last_match_pos \<and> ip + cur + 12 \<le> length src
      then if skip_position (cp_fullUpdate P) cur opt then check_loop src P ip (cur + 1) last_match_pos opt ctx
      else (case LZ4HC_FindLongerMatch src ctx (ip + cur) (length src - 5)
                   (if cp_fullUpdate P then 3 else last_match_pos - cur) (cp_nbSearches P) (cp_favorDecSpeed P) of
              (newMatch, ctx) \<Rightarrow>
                if ma_len newMatch = 0 then check_loop src P ip (cur + 1) last_match_pos opt ctx
                else if ma_len newMatch > cp_sufficient_len P \<or> ma_len newMatch + cur \<ge> 4096
                then ((cur, cur + 1, ma_len newMatch, ma_off newMatch), opt, ctx)
                else (case price_matches (cp_favorDecSpeed P) cur newMatch (last_match_pos, literals_before cur opt) of
                        (last_match_pos, opt) \<Rightarrow>
                          check_loop src P ip (cur + 1) last_match_pos (trailing_literals last_match_pos opt) ctx))
      else ((last_match_pos - o_mlen (opt last_match_pos), last_match_pos, o_mlen (opt last_match_pos),
             o_off (opt last_match_pos)), opt, ctx))"
  by pat_completeness auto
termination
proof (relation "measure (\<lambda>(src, P, ip, cur, l, opt, ctx). max l 4096 - cur)", simp, fastforce, fastforce)
  fix src P ip cur l opt and ctx ctx' :: LZ4HC_CCtx and m l' opt'
  assume a: "cur < l \<and> ip + cur + 12 \<le> length src" "\<not> (ma_len m > cp_sufficient_len P \<or> 4096 \<le> ma_len m + cur)"
    "(l', opt') = price_matches (cp_favorDecSpeed P) cur m (l, literals_before cur opt)"
  have "l' \<le> max l (cur + ma_len m)"
    using price_matches_last [of "cp_favorDecSpeed P" cur m l "literals_before cur opt"] a(3) by (metis fst_conv)
  then have "max l' 4096 - (cur + 1) < max l 4096 - cur" using a(1,2) by linarith
  then show "((src, P, ip, cur + 1, l', trailing_literals l' opt', ctx'), src, P, ip, cur, l, opt, ctx)
      \<in> measure (\<lambda>(src, P, ip, cur, l, opt, ctx). max l 4096 - cur)" by simp
qed

declare check_loop.simps [simp del]

text \<open>From the end to the beginning: the array becomes the way that was chosen, read forwards.\<close>

partial_function (option) reverse_path :: "nat \<Rightarrow> nat \<Rightarrow> nat \<Rightarrow> optimal \<Rightarrow> optimal option" where
  "reverse_path candidate_pos selected_matchLength selected_offset opt =
     (let next_matchLength = o_mlen (opt candidate_pos);
          next_offset = o_off (opt candidate_pos);
          opt = opt(candidate_pos := (opt candidate_pos)\<lparr>o_mlen := selected_matchLength, o_off := selected_offset\<rparr>)
      in if next_matchLength > candidate_pos then Some opt
         else reverse_path (candidate_pos - next_matchLength) next_matchLength next_offset opt)"

partial_function (option) encode_path ::
  "byte list \<Rightarrow> bool \<Rightarrow> int \<Rightarrow> nat \<Rightarrow> optimal \<Rightarrow> nat \<Rightarrow> nat \<Rightarrow> hc_out \<Rightarrow> (nat \<times> hc_out) option option" where
  "encode_path src limit oend last_match_pos opt rPos ip out =
     (if rPos < last_match_pos
      then if o_mlen (opt rPos) = 1 then encode_path src limit oend last_match_pos opt (rPos + 1) (ip + 1) out
      else (case LZ4HC_encodeSequence src limit oend ip (o_mlen (opt rPos)) (o_off (opt rPos)) out of
              None \<Rightarrow> None
            | Some None \<Rightarrow> Some None
            | Some (Some (ip, out)) \<Rightarrow>
                encode_path src limit oend last_match_pos opt (rPos + o_mlen (opt rPos)) ip out)
      else Some (Some (ip, out)))"

text \<open>One turn of the main loop from a first match that is not encoded at once.\<close>

definition parse_segment ::
  "byte list \<Rightarrow> cParams \<Rightarrow> bool \<Rightarrow> int \<Rightarrow> LZ4HC_match \<Rightarrow> nat \<Rightarrow> optimal \<Rightarrow> LZ4HC_CCtx \<Rightarrow> hc_out
     \<Rightarrow> ((nat \<times> hc_out) option \<times> optimal \<times> LZ4HC_CCtx) option" where
  "parse_segment src P limit oend firstMatch ip opt ctx out =
     (let llen = ip - ho_anchor out;
          opt = trailing_literals (ma_len firstMatch) (first_match llen firstMatch (first_literals llen opt));
          ((cur, last_match_pos, best_mlen, best_off), opt, ctx) = check_loop src P ip 1 (ma_len firstMatch) opt ctx
      in do { opt \<leftarrow> reverse_path cur best_mlen best_off opt;
              r \<leftarrow> encode_path src limit oend last_match_pos opt 0 ip out;
              Some (r, opt, ctx) })"

partial_function (option) main_loop ::
  "byte list \<Rightarrow> cParams \<Rightarrow> bool \<Rightarrow> int \<Rightarrow> nat \<Rightarrow> optimal \<Rightarrow> LZ4HC_CCtx \<Rightarrow> hc_out \<Rightarrow> hc_out option option" where
  "main_loop src P limit oend ip opt ctx out =
     (if ip + 12 \<le> length src
      then (case LZ4HC_FindLongerMatch src ctx ip (length src - 5) 3 (cp_nbSearches P) (cp_favorDecSpeed P) of
              (firstMatch, ctx) \<Rightarrow>
                if ma_len firstMatch = 0 then main_loop src P limit oend (ip + 1) opt ctx out
                else if ma_len firstMatch > cp_sufficient_len P
                then (case LZ4HC_encodeSequence src limit oend ip (ma_len firstMatch) (ma_off firstMatch) out of
                        None \<Rightarrow> None
                      | Some None \<Rightarrow> Some None
                      | Some (Some (ip, out)) \<Rightarrow> main_loop src P limit oend ip opt ctx out)
                else (case parse_segment src P limit oend firstMatch ip opt ctx out of
                        None \<Rightarrow> None
                      | Some (None, opt, ctx) \<Rightarrow> Some None
                      | Some (Some (ip, out), opt, ctx) \<Rightarrow> main_loop src P limit oend ip opt ctx out))
      else Some (Some out))"

declare reverse_path.simps [code] encode_path.simps [code] main_loop.simps [code]

definition LZ4HC_compress_optimal ::
  "byte list \<Rightarrow> byte list \<Rightarrow> int \<Rightarrow> nat \<Rightarrow> nat \<Rightarrow> bool \<Rightarrow> bool \<Rightarrow> bool \<Rightarrow> optimal \<Rightarrow> LZ4HC_CCtx \<Rightarrow> (nat \<times> byte list) option" where
  "LZ4HC_compress_optimal src dst dstCapacity nbSearches sufficient_len limit fullUpdate favorDecSpeed opt ctx =
     (let P = \<lparr>cp_nbSearches = nbSearches, cp_sufficient_len = (if sufficient_len \<ge> 4096 then 4095 else sufficient_len),
               cp_fullUpdate = fullUpdate, cp_favorDecSpeed = favorDecSpeed\<rparr>
      in case main_loop src P limit dstCapacity 0 opt ctx \<lparr>ho_anchor = 0, ho_op = 0, ho_dst = dst\<rparr> of
           None \<Rightarrow> None
         | Some None \<Rightarrow> Some (0, dst)
         | Some (Some out) \<Rightarrow> encode_last_literals src limit dstCapacity out)"

section \<open>The entry points\<close>

definition LZ4_setCompressionLevel :: "int \<Rightarrow> LZ4HC_CCtx \<Rightarrow> LZ4HC_CCtx" where
  "LZ4_setCompressionLevel compressionLevel ctx =
     ctx\<lparr>hc_compressionLevel := (if compressionLevel < 1 then 9 else if compressionLevel > 12 then 12 else compressionLevel)\<rparr>"

definition LZ4_resetStreamHC :: "int \<Rightarrow> LZ4HC_CCtx \<Rightarrow> LZ4HC_CCtx" where
  "LZ4_resetStreamHC compressionLevel ctx =
     LZ4_setCompressionLevel compressionLevel (ctx\<lparr>hc_extent := -1, hc_favorDecSpeed := False, hc_dirty := False\<rparr>)"

definition LZ4_resetStreamHC_fast :: "int \<Rightarrow> LZ4HC_CCtx \<Rightarrow> LZ4HC_CCtx" where
  "LZ4_resetStreamHC_fast compressionLevel ctx =
     (if hc_dirty ctx then LZ4_resetStreamHC compressionLevel ctx else LZ4_setCompressionLevel compressionLevel ctx)"

text \<open>
  \<^verbatim>\<open>LZ4HC_compress_generic_internal\<close> at \<^verbatim>\<open>LZ4HC_CLEVEL_MAX\<close>, the last entry of its table: 16384 searches, a sufficient length of
  \<^verbatim>\<open>LZ4_OPT_NUM\<close> and full updates.
\<close>

definition LZ4HC_compress_generic_internal ::
  "byte list \<Rightarrow> byte list \<Rightarrow> int \<Rightarrow> bool \<Rightarrow> optimal \<Rightarrow> LZ4HC_CCtx \<Rightarrow> (nat \<times> byte list) option" where
  "LZ4HC_compress_generic_internal src dst dstCapacity limit opt ctx =
     (if length src > 0x7E000000 then Some (0, dst)
      else LZ4HC_compress_optimal src dst dstCapacity 16384 4096 limit True (hc_favorDecSpeed ctx) opt
        (ctx\<lparr>hc_extent := hc_extent ctx + of_nat (length src)\<rparr>))"

definition LZ4_compress_HC_extStateHC_fastReset ::
  "byte list \<Rightarrow> byte list \<Rightarrow> int \<Rightarrow> optimal \<Rightarrow> LZ4HC_CCtx \<Rightarrow> (nat \<times> byte list) option" where
  "LZ4_compress_HC_extStateHC_fastReset src dst dstCapacity opt state =
     (let ctx = LZ4HC_init (LZ4_resetStreamHC_fast 12 state);
          limit = dstCapacity < sint (LZ4_compressBound (of_nat (length src)))
      in LZ4HC_compress_generic_internal src dst dstCapacity limit opt ctx)"

definition LZ4_compress_HC_extStateHC ::
  "byte list \<Rightarrow> byte list \<Rightarrow> int \<Rightarrow> optimal \<Rightarrow> LZ4HC_CCtx \<Rightarrow> (nat \<times> byte list) option" where
  "LZ4_compress_HC_extStateHC src dst dstCapacity opt state =
     LZ4_compress_HC_extStateHC_fastReset src dst dstCapacity opt (LZ4_resetStreamHC 12 state)"

text \<open>What the heap and the stack hold before.\<close>

record lz4_memory =
  lm_state :: LZ4HC_CCtx
  lm_opt :: optimal

definition LZ4_compress_HC :: "lz4_memory \<Rightarrow> byte list \<Rightarrow> byte list \<Rightarrow> int \<Rightarrow> (nat \<times> byte list) option" where
  "LZ4_compress_HC mem src dst dstCapacity = LZ4_compress_HC_extStateHC src dst dstCapacity (lm_opt mem) (lm_state mem)"

end
