(* ===== verification/Vfs_Archive.thy ===== *)
theory Vfs_Archive
  imports Archive_Format Vfs_File Crypt_Helper Xxh32 Lz4hc_Optimal
begin

text \<open>
  \<^verbatim>\<open>VFSLib/src/VFSArchive.cpp\<close>: an archive keeps the key, the header, the files by the hash of their name and
  a list of free entries in memory, and everything on disk in blocks, each an entry followed by the stored
  data. All operations of \<^verbatim>\<open>CVFSArchive\<close> are here; what they achieve is in the theories that follow.

  Conventions: a pointer argument is the memory behind it, an operation that would read outside it, use a
  null pointer or divide by zero is \<open>Undefined\<close>; memory allocation succeeds; \<^verbatim>\<open>size_t\<close> has 64 bits. The
  archive is the last owner of its file object, except for the object being passed to \<^verbatim>\<open>Load\<close>, so dropping
  it closes the file. The mutex and the log lines are not modelled.
\<close>

section \<open>Environment and state\<close>

text \<open>
  Besides Windows: what the memory of the compressor and of the cipher objects holds at first.
\<close>

record 'w platform =
  pl_api :: "'w win32"
  pl_lz4 :: lz4_memory
  pl_junk :: memory_junk

record CVFSArchive =
  m_vfsFile :: "CVFSFile option"
  m_archiveKey :: "byte list"
  ar_header :: SArchiveHeader
  ar_files :: "u32 \<Rightarrow> SFileEntry option"
  ar_entries :: "SFileEntry list"

definition KEY_LENGTH :: nat where "KEY_LENGTH = 32"
definition ARCHIVE_MAGIC :: u32 where "ARCHIVE_MAGIC = 0x00003169"

text \<open>The text \<^verbatim>\<open>000102030405060708090A0B0C0D0E0F\<close>.\<close>

definition ARCHIVE_IV :: bstring where
  "ARCHIVE_IV = [0x30, 0x30, 0x30, 0x31, 0x30, 0x32, 0x30, 0x33, 0x30, 0x34, 0x30, 0x35, 0x30, 0x36,
    0x30, 0x37, 0x30, 0x38, 0x30, 0x39, 0x30, 0x41, 0x30, 0x42, 0x30, 0x43, 0x30, 0x44, 0x30, 0x45,
    0x30, 0x46]"

text \<open>The key array is not initialised by the constructor, the rest is empty.\<close>

definition CVFSArchive_new :: "byte list \<Rightarrow> CVFSArchive" where
  "CVFSArchive_new memory = \<lparr>m_vfsFile = None, m_archiveKey = take 32 memory, ar_header = zero_header,
     ar_files = Map.empty, ar_entries = []\<rparr>"

definition ALIGNTO :: "u64 \<Rightarrow> u64 \<Rightarrow> u64" where
  "ALIGNTO x a = x + (a - x mod a)"

section \<open>Loading and creating\<close>

text \<open>\<open>keep\<close> is the file object the caller still holds.\<close>

definition unload_keeping :: "'w win32 \<Rightarrow> CVFSFile option \<Rightarrow> CVFSArchive \<Rightarrow> 'w \<Rightarrow> CVFSArchive \<times> 'w" where
  "unload_keeping api keep a w =
     (a\<lparr>m_archiveKey := replicate 32 0, ar_entries := [], ar_files := Map.empty, ar_header := zero_header,
        m_vfsFile := None\<rparr>,
      case m_vfsFile a of
        None \<Rightarrow> w
      | Some f \<Rightarrow> if keep = Some f then w else snd (CVFSFile_Close api f w))"

definition CVFSArchive_Unload :: "'w win32 \<Rightarrow> CVFSArchive \<Rightarrow> 'w \<Rightarrow> CVFSArchive \<times> 'w" where
  "CVFSArchive_Unload api a w = unload_keeping api None a w"

text \<open>\<^verbatim>\<open>insert\<close> and \<^verbatim>\<open>emplace\<close> keep an element that is there already.\<close>

definition insert_new :: "'k \<Rightarrow> 'v \<Rightarrow> ('k \<Rightarrow> 'v option) \<Rightarrow> 'k \<Rightarrow> 'v option" where
  "insert_new k e m = (if m k = None then m(k \<mapsto> e) else m)"

text \<open>
  The loop over the blocks. It follows the positions the entries state, so it may run for ever; then the
  value is \<open>None\<close>. The local \<^verbatim>\<open>entry\<close> is not initialised: what a short read does not fill is arbitrary.
\<close>

partial_function (option) load_loop ::
  "'w win32 \<Rightarrow> u32 \<Rightarrow> CVFSFile \<Rightarrow> (u32 \<Rightarrow> SFileEntry option) \<Rightarrow> SFileEntry list \<Rightarrow> 'w
     \<Rightarrow> (unit outcome \<times> CVFSFile \<times> (u32 \<Rightarrow> SFileEntry option) \<times> SFileEntry list \<times> 'w) option" where
  "load_loop api bytesPerBlock f files entries w =
     (let (pos, w) = CVFSFile_GetPosition api f w
      in if pos < CVFSFile_GetSize api f w
         then
           let (memory, w) = w_uninitialised api 551 w;
               (r, f, w) = CVFSFile_Read api 551 f w
           in case r of
                Undefined \<Rightarrow> Some (Undefined, f, files, entries, w)
              | Returns bs \<Rightarrow>
                  let entry = bytes_entry (overwrite 0 bs memory);
                      index = fi_index (fe_info entry);
                      entries = (if index = 0 then entries @ [entry] else entries);
                      files = (if index = 0 then files else insert_new index entry files);
                      (f, w) = CVFSFile_SetPosition api
                        (fe_offset entry - 551 + ucast (fe_numBlocks entry * bytesPerBlock)) False f w
                  in load_loop api bytesPerBlock f files entries w
         else Some (Returns (), f, files, entries, w))"

definition CVFSArchive_Load ::
  "'w win32 \<Rightarrow> CVFSFile option \<Rightarrow> byte list option \<Rightarrow> CVFSArchive \<Rightarrow> 'w
     \<Rightarrow> (bool outcome \<times> CVFSArchive \<times> 'w) option" where
  "CVFSArchive_Load api file key a w =
     (let (a, w) = unload_keeping api file a w
      in case file of
           None \<Rightarrow> Some (Returns False, a, w)
         | Some f \<Rightarrow>
             if \<not> CVFSFile_IsReadable f then Some (Returns False, a, w)
             else (case key of
               None \<Rightarrow> Some (Returns False, a, w)
             | Some key \<Rightarrow>
                 if length key < 32 then Some (Undefined, a\<lparr>m_vfsFile := Some f\<rparr>, w)
                 else
                   let a = a\<lparr>m_archiveKey := take 32 key\<rparr>;
                       (f, w) = CVFSFile_SetPosition api 0 False f w;
                       (r, f, w) = CVFSFile_Read api 12 f w;
                       a = a\<lparr>m_vfsFile := Some f\<rparr>
                   in case r of
                        Undefined \<Rightarrow> Some (Undefined, a, w)
                      | Returns bs \<Rightarrow>
                          let a = a\<lparr>ar_header := bytes_header (overwrite 0 bs (header_bytes (ar_header a)))\<rparr>
                          in if length bs \<noteq> 12
                             then Some (Returns False, a\<lparr>m_archiveKey := replicate 32 0\<rparr>, w)
                             else if ah_magic (ar_header a) \<noteq> ARCHIVE_MAGIC
                             then Some (Returns False,
                                        a\<lparr>m_vfsFile := None, m_archiveKey := replicate 32 0\<rparr>, w)
                             else
                               let (f, w) = CVFSFile_SetPosition api (ucast (ah_firstEntry (ar_header a))) False f w
                               in map_option
                                    (\<lambda>(r, f, files, entries, w).
                                       (case r of Undefined \<Rightarrow> Undefined | Returns _ \<Rightarrow> Returns True,
                                        a\<lparr>m_vfsFile := Some f, ar_files := files, ar_entries := entries\<rparr>, w))
                                    (load_loop api (ah_bytesPerBlock (ar_header a)) f Map.empty [] w)))"

text \<open>A file open for writing is the same object after \<^verbatim>\<open>Load\<close>; only the world changes.\<close>

definition CVFSArchive_Create ::
  "'w win32 \<Rightarrow> CVFSFile option \<Rightarrow> byte list option \<Rightarrow> CVFSArchive \<Rightarrow> 'w
     \<Rightarrow> (bool outcome \<times> CVFSArchive \<times> 'w) option" where
  "CVFSArchive_Create api file keydata a w =
     (case file of
        None \<Rightarrow> Some (Returns False, a, w)
      | Some f \<Rightarrow>
          if \<not> CVFSFile_IsWriteable f then Some (Returns False, a, w)
          else (case CVFSArchive_Load api (Some f) keydata a w of
            None \<Rightarrow> None
          | Some (Undefined, a, w) \<Rightarrow> Some (Undefined, a, w)
          | Some (Returns loaded, a, w) \<Rightarrow>
              if loaded then Some (Returns True, a, w)
              else (case keydata of
                None \<Rightarrow> Some (Undefined, a\<lparr>m_vfsFile := Some f\<rparr>, w)
              | Some key \<Rightarrow>
                  if length key < 32 then Some (Undefined, a\<lparr>m_vfsFile := Some f\<rparr>, w)
                  else
                    let bytesPerBlock = (if w_page_size api = 0 then 4096 else w_page_size api);
                        header = \<lparr>ah_magic = ARCHIVE_MAGIC, ah_bytesPerBlock = bytesPerBlock,
                                  ah_firstEntry = ucast (ALIGNTO 12 (ucast bytesPerBlock))\<rparr>;
                        (f, w) = CVFSFile_SetPosition api 0 False f w;
                        (_, f, w) = CVFSFile_Write api (header_bytes header) f w;
                        rest = ucast (ah_firstEntry header) - (12 :: u64);
                        (f, w) =
                          (if rest > 0
                           then let (diff, w) = w_uninitialised api (unat rest) w;
                                    (_, f, w) = CVFSFile_Write api diff f w
                                in (f, w)
                           else (f, w))
                    in Some (Returns True,
                             a\<lparr>m_vfsFile := Some f, m_archiveKey := take 32 key, ar_header := header\<rparr>, w))))"

definition CVFSArchive_GetFileStream :: "CVFSArchive \<Rightarrow> CVFSFile option" where
  "CVFSArchive_GetFileStream a = m_vfsFile a"

section \<open>Names\<close>

text \<open>\<^verbatim>\<open>towlower\<close> in the "C" locale.\<close>

definition towlower :: "u16 \<Rightarrow> u16" where
  "towlower c = (if 65 \<le> c \<and> c \<le> 90 then c + 32 else c)"

definition GenerateNameIndex :: "wstring \<Rightarrow> u32" where
  "GenerateNameIndex filename =
     (let filename = map (\<lambda>c. if c = 0x5C then 0x2F else c) filename;
          filename = map towlower filename
      in XXH32 (wchars_bytes filename) 0)"

definition CVFSArchive_Exists :: "u32 \<Rightarrow> CVFSArchive \<Rightarrow> bool" where
  "CVFSArchive_Exists index a \<longleftrightarrow> ar_files a index \<noteq> None"

definition CVFSArchive_Exists_wide :: "wstring \<Rightarrow> CVFSArchive \<Rightarrow> bool" where
  "CVFSArchive_Exists_wide filename a = CVFSArchive_Exists (GenerateNameIndex filename) a"

text \<open>A (signed) \<^verbatim>\<open>char\<close> becomes a \<^verbatim>\<open>wchar_t\<close> with its sign.\<close>

definition CVFSArchive_Exists_narrow :: "bstring \<Rightarrow> CVFSArchive \<Rightarrow> bool" where
  "CVFSArchive_Exists_narrow filename a = CVFSArchive_Exists (GenerateNameIndex (map scast filename)) a"

section \<open>Reading a file\<close>

text \<open>
  From the stored bytes to the file: decrypt, decompress, compare the hash. \<open>None\<close> is a failure that is
  reported; the pointer of a buffer that was never allocated is null.
\<close>

definition buffer_pointer :: "DataBuffer_Impl \<Rightarrow> byte list option" where
  "buffer_pointer b = (if db_data b = [] then None else Some (db_data b))"

definition decompress_data :: "SFileInformation \<Rightarrow> DataBuffer_Impl \<Rightarrow> DataBuffer_Impl option outcome" where
  "decompress_data info decrypted =
     (if fi_flags info AND FLAG_COMPRESSED_LZ4 \<noteq> 0
      then case LZ4_decompress_fast (buffer_pointer decrypted) (replicate (unat (fi_rawsize info)) 0)
                  (sint (fi_rawsize info)) of
             None \<Rightarrow> Undefined
           | Some (decompressedsize, decompresseddata) \<Rightarrow>
               if (of_int decompressedsize :: u32) \<noteq> fi_compressedsize info then Returns None
               else Returns (Some (DataBuffer_of_data decompresseddata (fi_rawsize info)))
      else Returns (Some decrypted))"

definition unpack_data ::
  "memory_junk \<Rightarrow> byte list \<Rightarrow> SFileInformation \<Rightarrow> byte list \<Rightarrow> DataBuffer_Impl option outcome" where
  "unpack_data j key info rawdata =
     (case (if fi_flags info AND FLAG_CRYPTED_AES256 \<noteq> 0
            then CAes256_Decrypt j rawdata (of_nat (length rawdata)) ARCHIVE_IV key
            else Some (DataBuffer_of_data rawdata (of_nat (length rawdata)))) of
        None \<Rightarrow> Undefined
      | Some decrypted \<Rightarrow>
          (case decompress_data info decrypted of
             Undefined \<Rightarrow> Undefined
           | Returns None \<Rightarrow> Returns None
           | Returns (Some decompressed) \<Rightarrow>
               if XXH32 (contents decompressed) 0 \<noteq> fi_hash info then Returns None
               else Returns (Some decompressed)))"

definition CVFSArchive_Open ::
  "'w platform \<Rightarrow> u32 \<Rightarrow> CVFSArchive \<Rightarrow> 'w \<Rightarrow> CVFSFile option outcome \<times> 'w" where
  "CVFSArchive_Open p index a w =
     (case ar_files a index of
        None \<Rightarrow> (Returns None, w)
      | Some entry \<Rightarrow>
          (case m_vfsFile a of
             None \<Rightarrow> (Undefined, w)
           | Some archive_file \<Rightarrow>
               (case CVFSFile_Open (pl_api p) (CVFSFile_GetFileName archive_file) CVFSFile_new w of
                  (opened, output, w) \<Rightarrow>
                    if \<not> opened then (Returns None, snd (CVFSFile_Close (pl_api p) output w))
                    else
                      let (output, w) = CVFSFile_SetPosition (pl_api p) (fe_offset entry) False output w;
                          (r, output, w) = CVFSFile_Read (pl_api p) (fe_finalSize entry) output w
                      in case r of
                           Undefined \<Rightarrow> (Undefined, w)
                         | Returns rawdata \<Rightarrow>
                             if of_nat (length rawdata) \<noteq> fe_finalSize entry
                             then (Returns None, snd (CVFSFile_Close (pl_api p) output w))
                             else (case unpack_data (pl_junk p) (m_archiveKey a) (fe_info entry) rawdata of
                                 Undefined \<Rightarrow> (Undefined, w)
                               | Returns None \<Rightarrow> (Returns None, snd (CVFSFile_Close (pl_api p) output w))
                               | Returns (Some decompressed) \<Rightarrow>
                                   (case CVFSFile_Assign (pl_api p) (c_str (fi_filename (fe_info entry)))
                                           (buffer_pointer decompressed) (get_size decompressed) True output w of
                                      (Undefined, output, w) \<Rightarrow> (Undefined, w)
                                    | (Returns _, output, w) \<Rightarrow> (Returns (Some output), w))))))"

definition CVFSArchive_Open_name ::
  "'w platform \<Rightarrow> wstring \<Rightarrow> CVFSArchive \<Rightarrow> 'w \<Rightarrow> CVFSFile option outcome \<times> 'w" where
  "CVFSArchive_Open_name p filename a w = CVFSArchive_Open p (GenerateNameIndex filename) a w"

section \<open>Free blocks\<close>

text \<open>The smallest free block that is large enough, the first of several; and its place in the list.\<close>

definition best_fit :: "u32 \<Rightarrow> u32 \<Rightarrow> SFileEntry list \<Rightarrow> SFileEntry \<times> nat option" where
  "best_fit bytesPerBlock size_needed entries =
     fold (\<lambda>(i, x) (entry, idx).
             if fe_numBlocks x < fe_numBlocks entry
                \<and> (ucast (fe_numBlocks x * bytesPerBlock) :: u64) \<ge> ucast size_needed + 551
             then (x, Some i) else (entry, idx))
       (enumerate 0 entries) (zero_entry\<lparr>fe_numBlocks := 0xffffffff\<rparr>, None)"

text \<open>If there is none, blocks are appended to the file; what they contain at first is arbitrary memory.\<close>

definition find_block ::
  "'w win32 \<Rightarrow> u32 \<Rightarrow> u32 \<Rightarrow> SFileEntry list \<Rightarrow> CVFSFile \<Rightarrow> 'w
     \<Rightarrow> (SFileEntry \<times> nat option \<times> CVFSFile \<times> 'w) outcome" where
  "find_block api bytesPerBlock size_needed entries f w =
     (let (entry, idx) = best_fit bytesPerBlock size_needed entries
      in if fe_numBlocks entry = 0xffffffff
         then if bytesPerBlock = 0 then Undefined
              else
                let (f, w) = CVFSFile_SetPosition api (CVFSFile_GetSize api f w) False f w;
                    numBlocks = ucast (ALIGNTO (ucast size_needed + 551) (ucast bytesPerBlock) div ucast bytesPerBlock);
                    (pos, w) = CVFSFile_GetPosition api f w;
                    (mem, w) = w_uninitialised api (unat (numBlocks * bytesPerBlock)) w;
                    (_, f, w) = CVFSFile_Write api mem f w
                in Returns (entry\<lparr>fe_numBlocks := numBlocks, fe_offset := pos + 551\<rparr>, idx, f, w)
         else Returns (entry, idx, f, w))"

definition write_block ::
  "'w win32 \<Rightarrow> SFileEntry \<Rightarrow> byte list \<Rightarrow> CVFSFile \<Rightarrow> 'w \<Rightarrow> CVFSFile \<times> 'w" where
  "write_block api entry data f w =
     (let (f, w) = CVFSFile_SetPosition api (fe_offset entry - 551) False f w;
          (_, f, w) = CVFSFile_Write api (entry_bytes entry) f w;
          (_, f, w) = CVFSFile_Write api data f w
      in (f, w))"

definition erase_at :: "nat option \<Rightarrow> 'a list \<Rightarrow> 'a list" where
  "erase_at idx xs = (case idx of None \<Rightarrow> xs | Some i \<Rightarrow> take i xs @ drop (Suc i) xs)"

section \<open>Writing and deleting\<close>

text \<open>\<^verbatim>\<open>wcscpy_s\<close> into the 255 characters: what is behind the terminator stays, a longer name ends the process.\<close>

definition wcscpy_s :: "wstring \<Rightarrow> wstring \<Rightarrow> wstring outcome" where
  "wcscpy_s dest src = (if length (c_str src) < 255 then Returns (overwrite 0 (c_str src @ [0]) dest) else Undefined)"

definition CVFSArchive_Delete ::
  "'w win32 \<Rightarrow> u32 \<Rightarrow> CVFSArchive \<Rightarrow> 'w \<Rightarrow> bool \<times> CVFSArchive \<times> 'w" where
  "CVFSArchive_Delete api index a w =
     (case m_vfsFile a of
        None \<Rightarrow> (False, a, w)
      | Some f \<Rightarrow>
          if \<not> CVFSFile_IsWriteable f then (False, a, w)
          else (case ar_files a index of
            None \<Rightarrow> (False, a, w)
          | Some entry \<Rightarrow>
              let filename = overwrite 0 [0] (fi_filename (fe_info entry));
                  entry = entry\<lparr>fe_info := zero_info\<lparr>fi_filename := filename\<rparr>, fe_finalSize := 0\<rparr>;
                  (f, w) = CVFSFile_SetPosition api (fe_offset entry - 551) False f w;
                  (_, f, w) = CVFSFile_Write api (entry_bytes entry) f w
              in (True, a\<lparr>m_vfsFile := Some f, ar_files := (ar_files a)(index := None),
                           ar_entries := ar_entries a @ [entry]\<rparr>, w)))"

definition CVFSArchive_Delete_name ::
  "'w win32 \<Rightarrow> wstring \<Rightarrow> CVFSArchive \<Rightarrow> 'w \<Rightarrow> bool \<times> CVFSArchive \<times> 'w" where
  "CVFSArchive_Delete_name api filename a w = CVFSArchive_Delete api (GenerateNameIndex filename) a w"

text \<open>Compression and encryption: the compressed and the stored buffer, and the flags as far as they hold.\<close>

definition compress_data ::
  "'w platform \<Rightarrow> byte list \<Rightarrow> u32 \<Rightarrow> byte \<Rightarrow> (DataBuffer_Impl \<times> byte) outcome" where
  "compress_data p data len flags =
     (let raw = DataBuffer_of_data data len;
          compressedbuffer = DataBuffer_of_size (LZ4_compressBound len);
          room = get_size compressedbuffer
      in if flags AND FLAG_COMPRESSED_LZ4 = 0 then Returns (raw, flags AND NOT FLAG_COMPRESSED_LZ4)
         else (case LZ4_compress_HC (pl_lz4 p) (take (unat len) data) (replicate (unat room) 0) (sint room) of
                 None \<Rightarrow> Undefined
               | Some (n, compressed) \<Rightarrow>
                   let compressedsize = of_nat n :: u32
                   in if compressedsize \<ge> room \<or> compressedsize = 0
                      then Returns (raw, flags AND NOT FLAG_COMPRESSED_LZ4)
                      else Returns (DataBuffer_of_data compressed compressedsize, flags)))"

definition pack_data ::
  "'w platform \<Rightarrow> byte list \<Rightarrow> byte list \<Rightarrow> u32 \<Rightarrow> byte
     \<Rightarrow> (DataBuffer_Impl \<times> DataBuffer_Impl \<times> byte) outcome" where
  "pack_data p key data len flags =
     (case compress_data p data len flags of
        Undefined \<Rightarrow> Undefined
      | Returns (compressedbuffer, flags) \<Rightarrow>
          (case (if flags AND FLAG_CRYPTED_AES256 \<noteq> 0
                 then CAes256_Encrypt (pl_junk p) (db_data compressedbuffer) (get_size compressedbuffer) ARCHIVE_IV key
                 else Some compressedbuffer) of
             None \<Rightarrow> Undefined
           | Some crypted \<Rightarrow> Returns (compressedbuffer, crypted, flags)))"

definition CVFSArchive_Write ::
  "'w platform \<Rightarrow> wstring \<Rightarrow> byte list \<Rightarrow> u32 \<Rightarrow> byte \<Rightarrow> u32 \<Rightarrow> CVFSArchive \<Rightarrow> 'w
     \<Rightarrow> bool outcome \<times> CVFSArchive \<times> 'w" where
  "CVFSArchive_Write p filename data len flags version a w =
     (if (case m_vfsFile a of None \<Rightarrow> True | Some f \<Rightarrow> \<not> CVFSFile_IsWriteable f) then (Returns False, a, w)
      else if length data < unat len then (Undefined, a, w)
      else
        let index = GenerateNameIndex filename;
            hash = XXH32 (take (unat len) data) 0
        in if (case ar_files a index of None \<Rightarrow> False | Some e \<Rightarrow> fi_hash (fe_info e) = hash)
           then (Returns True, a, w)
           else (case pack_data p (m_archiveKey a) data len flags of
               Undefined \<Rightarrow> (Undefined, a, w)
             | Returns (compressedbuffer, crypted, flags) \<Rightarrow>
                 let (_, a, w) = CVFSArchive_Delete (pl_api p) index a w
                 in case find_block (pl_api p) (ah_bytesPerBlock (ar_header a)) (get_size crypted) (ar_entries a)
                          (the (m_vfsFile a)) w of
                      Undefined \<Rightarrow> (Undefined, a, w)
                    | Returns (entry, idx, f, w) \<Rightarrow>
                        (case wcscpy_s (fi_filename (fe_info entry)) filename of
                           Undefined \<Rightarrow> (Undefined, a\<lparr>m_vfsFile := Some f\<rparr>, w)
                         | Returns name \<Rightarrow>
                             let entry = entry\<lparr>fe_info := \<lparr>fi_index = index, fi_hash = hash,
                                     fi_version = version, fi_flags = flags, fi_rawsize = len,
                                     fi_compressedsize = get_size compressedbuffer,
                                     fi_cryptedsize = get_size crypted, fi_filename = name\<rparr>,
                                   fe_finalSize := get_size crypted\<rparr>;
                                 (f, w) = write_block (pl_api p) entry (contents crypted) f w
                             in (Returns True,
                                 a\<lparr>m_vfsFile := Some f, ar_entries := erase_at idx (ar_entries a),
                                   ar_files := insert_new index entry (ar_files a)\<rparr>, w))))"

section \<open>Enumerating and raw data\<close>

text \<open>\<open>order\<close> is the order in which the hash table of the library walks its elements.\<close>

definition EnumerateFiles :: "((u32 \<Rightarrow> SFileEntry option) \<Rightarrow> u32 list) \<Rightarrow> CVFSArchive \<Rightarrow> SFileInformation list" where
  "EnumerateFiles order a = map (\<lambda>index. fe_info (the (ar_files a index))) (order (ar_files a))"

text \<open>The other overload calls a function for each file until it returns false.\<close>

fun enumerate_with ::
  "'w platform \<Rightarrow> (CVFSFile option \<Rightarrow> SFileInformation \<Rightarrow> 'c \<Rightarrow> 'w \<Rightarrow> bool \<times> 'c \<times> 'w) \<Rightarrow> CVFSArchive
     \<Rightarrow> SFileEntry list \<Rightarrow> 'c \<Rightarrow> 'w \<Rightarrow> bool outcome \<times> 'c \<times> 'w" where
  "enumerate_with p pfn a [] c w = (Returns True, c, w)"
| "enumerate_with p pfn a (e # es) c w =
     (case CVFSArchive_Open p (fi_index (fe_info e)) a w of
        (Undefined, w) \<Rightarrow> (Undefined, c, w)
      | (Returns file, w) \<Rightarrow>
          (case pfn file (fe_info e) c w of
             (ok, c, w) \<Rightarrow> if ok then enumerate_with p pfn a es c w else (Returns False, c, w)))"

definition EnumerateFiles_with ::
  "'w platform \<Rightarrow> ((u32 \<Rightarrow> SFileEntry option) \<Rightarrow> u32 list)
     \<Rightarrow> (CVFSFile option \<Rightarrow> SFileInformation \<Rightarrow> 'c \<Rightarrow> 'w \<Rightarrow> bool \<times> 'c \<times> 'w) option \<Rightarrow> CVFSArchive \<Rightarrow> 'c \<Rightarrow> 'w
     \<Rightarrow> bool outcome \<times> 'c \<times> 'w" where
  "EnumerateFiles_with p order pfnEnumFiles a c w =
     (case pfnEnumFiles of
        None \<Rightarrow> (Returns False, c, w)
      | Some pfn \<Rightarrow> enumerate_with p pfn a (map (\<lambda>index. the (ar_files a index)) (order (ar_files a))) c w)"

text \<open>The result and what is written to the buffer; the buffer has room for \<open>maxlength\<close> bytes.\<close>

definition ReadRawData ::
  "'w win32 \<Rightarrow> u32 \<Rightarrow> u32 \<Rightarrow> CVFSArchive \<Rightarrow> 'w \<Rightarrow> (u32 \<times> byte list) outcome \<times> 'w" where
  "ReadRawData api index maxlength a w =
     (case m_vfsFile a of
        None \<Rightarrow> (Returns (0, []), w)
      | Some f \<Rightarrow>
          if \<not> CVFSFile_IsReadable f then (Returns (0, []), w)
          else (case ar_files a index of
            None \<Rightarrow> (Returns (0, []), w)
          | Some entry \<Rightarrow>
              if maxlength > 551
              then (case CVFSFile_Map api (CVFSFile_GetFileName f) (fe_offset entry) (fe_finalSize entry) CVFSFile_new w of
                  (mapped, stream, w) \<Rightarrow>
                    if \<not> mapped then (Returns (0, entry_bytes entry), snd (CVFSFile_Close api stream w))
                    else
                      let sz = ucast (CVFSFile_GetSize api stream w) :: u32;
                          n = unat (min (maxlength - 551) sz);
                          data = the (CVFSFile_GetData stream)
                      in if length data < n then (Undefined, w)
                         else (Returns (551 + sz, entry_bytes entry @ take n data),
                               snd (CVFSFile_Close api stream w)))
              else (Returns (551 + fe_finalSize entry, []), w)))"

definition WriteRawData ::
  "'w win32 \<Rightarrow> byte list \<Rightarrow> CVFSArchive \<Rightarrow> 'w \<Rightarrow> bool outcome \<times> CVFSArchive \<times> 'w" where
  "WriteRawData api buffer a w =
     (if (case m_vfsFile a of None \<Rightarrow> True | Some f \<Rightarrow> \<not> CVFSFile_IsWriteable f) then (Returns False, a, w)
      else if length buffer < 551 then (Undefined, a, w)
      else
        let ent = bytes_entry (take 551 buffer);
            index = fi_index (fe_info ent);
            (_, a, w) = (if ar_files a index \<noteq> None then CVFSArchive_Delete api index a w else (False, a, w))
        in case find_block api (ah_bytesPerBlock (ar_header a)) (fe_finalSize ent) (ar_entries a)
                  (the (m_vfsFile a)) w of
             Undefined \<Rightarrow> (Undefined, a, w)
           | Returns (entry, idx, f, w) \<Rightarrow>
               (case wcscpy_s (fi_filename (fe_info entry)) (fi_filename (fe_info ent)) of
                  Undefined \<Rightarrow> (Undefined, a\<lparr>m_vfsFile := Some f\<rparr>, w)
                | Returns name \<Rightarrow>
                    if length buffer < 551 + unat (fe_finalSize ent) then (Undefined, a\<lparr>m_vfsFile := Some f\<rparr>, w)
                    else
                      let entry = entry\<lparr>fe_info := (fe_info ent)\<lparr>fi_filename := name\<rparr>,
                                        fe_finalSize := fe_finalSize ent\<rparr>;
                          (f, w) = write_block api entry (slice 551 (unat (fe_finalSize ent)) buffer) f w
                      in (Returns True,
                          a\<lparr>m_vfsFile := Some f, ar_entries := erase_at idx (ar_entries a),
                            ar_files := insert_new index entry (ar_files a)\<rparr>, w)))"

text \<open>\<^verbatim>\<open>CopyArchive\<close>: delete the files of the target, then the loop over its files.\<close>

fun delete_all :: "'w win32 \<Rightarrow> SFileInformation list \<Rightarrow> CVFSArchive \<Rightarrow> 'w \<Rightarrow> CVFSArchive \<times> 'w" where
  "delete_all api [] out w = (out, w)"
| "delete_all api (i # is) out w =
     (case CVFSArchive_Delete api (fi_index i) out w of (_, out, w) \<Rightarrow> delete_all api is out w)"

fun copy_all ::
  "'w win32 \<Rightarrow> SFileInformation list \<Rightarrow> CVFSArchive \<Rightarrow> CVFSArchive \<Rightarrow> 'w \<Rightarrow> bool outcome \<times> CVFSArchive \<times> 'w" where
  "copy_all api [] inp out w = (Returns True, out, w)"
| "copy_all api (i # is) inp out w =
     (case ReadRawData api (fi_index i) 0 inp w of
        (Undefined, w) \<Rightarrow> (Undefined, out, w)
      | (Returns (blocksize, _), w) \<Rightarrow>
          if blocksize = 0 then (Returns False, out, w)
          else (case w_uninitialised api (unat blocksize) w of
            (ptr, w) \<Rightarrow>
              (case ReadRawData api (fi_index i) blocksize inp w of
                 (Undefined, w) \<Rightarrow> (Undefined, out, w)
               | (Returns (blocksize, bytes), w) \<Rightarrow>
                   if blocksize = 0 then (Returns False, out, w)
                   else (case WriteRawData api (overwrite 0 bytes ptr) out w of
                       (Returns True, out, w) \<Rightarrow> copy_all api is inp out w
                     | r \<Rightarrow> r))))"

definition CopyArchive ::
  "'w win32 \<Rightarrow> ((u32 \<Rightarrow> SFileEntry option) \<Rightarrow> u32 list) \<Rightarrow> CVFSArchive option \<Rightarrow> CVFSArchive option \<Rightarrow> 'w
     \<Rightarrow> bool outcome \<times> CVFSArchive option \<times> 'w" where
  "CopyArchive api order inp out w =
     (case (inp, out) of
        (Some inp, Some out) \<Rightarrow>
          let (out, w) = delete_all api (EnumerateFiles order out) out w;
              (r, out, w) = copy_all api (EnumerateFiles order out) inp out w
          in (r, Some out, w)
      | _ \<Rightarrow> (Returns False, out, w))"

end
