(* ===== verification/Archive_Layout.thy ===== *)
theory Archive_Layout
  imports Vfs_Archive "HOL-Library.Multiset"
begin

text \<open>
  What an archive file looks like: the header, then from \<^verbatim>\<open>firstEntry\<close> on blocks without gaps, each starting
  with its entry. \<open>layout\<close> says so of the bytes of the file and the entries in the order of the file,
  \<open>archive_ok\<close> relates the in-memory state to them, and \<open>archive_holds\<close> says which file contents are
  stored: the abstract state of an archive is a map from name indices to contents. The lemmas are about
  replacing the contents of one block and appending one.
\<close>

section \<open>Blocks\<close>

definition block_length :: "nat \<Rightarrow> SFileEntry \<Rightarrow> nat" where
  "block_length bpb e = unat (fe_numBlocks e) * bpb"

definition entry_index :: "SFileEntry \<Rightarrow> u32" where
  "entry_index e = fi_index (fe_info e)"

text \<open>Blocks one after another, from a position to another.\<close>

fun chain :: "nat \<Rightarrow> nat \<Rightarrow> SFileEntry list \<Rightarrow> nat \<Rightarrow> bool" where
  "chain bpb pos [] end' \<longleftrightarrow> pos = end'"
| "chain bpb pos (e # es) end' \<longleftrightarrow>
     unat (fe_offset e) = pos + 551 \<and> 0 < block_length bpb e \<and> chain bpb (pos + block_length bpb e) es end'"

text \<open>The entry of a block is its first 551 bytes, and the stored data fit behind it.\<close>

definition entry_at :: "nat \<Rightarrow> byte list \<Rightarrow> SFileEntry \<Rightarrow> bool" where
  "entry_at bpb bs e \<longleftrightarrow> entry_ok e \<and> block_length bpb e < 2 ^ 32
     \<and> 551 + unat (fe_finalSize e) \<le> block_length bpb e
     \<and> slice (unat (fe_offset e) - 551) 551 bs = entry_bytes e"

definition stored :: "SFileEntry \<Rightarrow> byte list \<Rightarrow> byte list" where
  "stored e bs = slice (unat (fe_offset e)) (unat (fe_finalSize e)) bs"

definition layout :: "SArchiveHeader \<Rightarrow> SFileEntry list \<Rightarrow> byte list \<Rightarrow> bool" where
  "layout h es bs \<longleftrightarrow> ah_magic h = ARCHIVE_MAGIC \<and> 0 < unat (ah_bytesPerBlock h)
     \<and> take 12 bs = header_bytes h \<and> 12 \<le> unat (ah_firstEntry h) \<and> length bs < 2 ^ 62
     \<and> chain (unat (ah_bytesPerBlock h)) (unat (ah_firstEntry h)) es (length bs)
     \<and> (\<forall>e\<in>set es. entry_at (unat (ah_bytesPerBlock h)) bs e)"

lemma chain_append: "chain bpb pos (xs @ ys) end' \<longleftrightarrow> (\<exists>m. chain bpb pos xs m \<and> chain bpb m ys end')"
  by (induction xs arbitrary: pos) auto

lemma chain_le: "chain bpb pos es end' \<Longrightarrow> pos \<le> end'"
  by (induction es arbitrary: pos) fastforce+

lemma chain_inside:
  "chain bpb pos es end' \<Longrightarrow> e \<in> set es \<Longrightarrow>
   pos + 551 \<le> unat (fe_offset e) \<and> unat (fe_offset e) - 551 + block_length bpb e \<le> end'"
proof (induction es arbitrary: pos)
  case (Cons x es)
  then show ?case using chain_le [of bpb "pos + block_length bpb x" es end'] by fastforce
qed simp

text \<open>Distinct blocks do not overlap.\<close>

lemma chain_disjoint:
  assumes "chain bpb pos (xs @ e # ys) end'" "f \<in> set xs \<union> set ys"
  shows "unat (fe_offset f) - 551 + block_length bpb f \<le> unat (fe_offset e) - 551
    \<or> unat (fe_offset e) - 551 + block_length bpb e \<le> unat (fe_offset f) - 551"
proof -
  obtain m where m: "chain bpb pos xs m" "unat (fe_offset e) = m + 551"
    "chain bpb (m + block_length bpb e) ys end'"
    using assms(1) by (auto simp: chain_append)
  show ?thesis
    using assms(2) m(2) chain_inside [OF m(1)] chain_inside [OF m(3)] by fastforce
qed

lemma chain_replace:
  "chain bpb pos (xs @ e # ys) end' \<Longrightarrow> fe_offset e' = fe_offset e \<Longrightarrow> fe_numBlocks e' = fe_numBlocks e \<Longrightarrow>
   chain bpb pos (xs @ e' # ys) end'"
  by (auto simp: chain_append block_length_def)

lemma chain_distinct:
  assumes "chain bpb pos (xs @ e # ys) end'"
  shows "e \<notin> set xs \<union> set ys"
proof
  assume e: "e \<in> set xs \<union> set ys"
  have "0 < block_length bpb e" using assms by (auto simp: chain_append)
  then show False using chain_disjoint [OF assms e] by simp
qed

section \<open>Replacing the contents of a block\<close>

lemma slice_overwrite_other:
  "i + n \<le> k \<or> k + length ys \<le> i \<Longrightarrow> k \<le> length bs \<Longrightarrow> slice i n (overwrite k ys bs) = slice i n bs"
  using slice_overwrite_before [of i n k bs ys] slice_overwrite_after [of k ys i bs n] by blast

lemma entry_at_other:
  assumes e: "entry_at bpb bs f" and sep: "unat (fe_offset f) - 551 + block_length bpb f \<le> k \<or> k + length ys \<le> unat (fe_offset f) - 551"
    and k: "k \<le> length bs" and off: "551 \<le> unat (fe_offset f)"
  shows "entry_at bpb (overwrite k ys bs) f" "stored f (overwrite k ys bs) = stored f bs"
proof -
  have len: "551 + unat (fe_finalSize f) \<le> block_length bpb f" using e by (simp add: entry_at_def)
  then have "unat (fe_offset f) - 551 + 551 \<le> k \<or> k + length ys \<le> unat (fe_offset f) - 551"
    "unat (fe_offset f) + unat (fe_finalSize f) \<le> k \<or> k + length ys \<le> unat (fe_offset f)"
    using sep off by auto
  then show "entry_at bpb (overwrite k ys bs) f" "stored f (overwrite k ys bs) = stored f bs"
    using e k by (simp_all add: entry_at_def stored_def slice_overwrite_other)
qed

text \<open>The first \<open>length ys\<close> bytes of the block of \<open>e\<close> become \<open>ys\<close>, which start with the new entry.\<close>

lemma layout_replace:
  assumes l: "layout h (xs @ e # ys) bs" and bpb: "bpb = unat (ah_bytesPerBlock h)"
    and e': "fe_offset e' = fe_offset e" "fe_numBlocks e' = fe_numBlocks e" "entry_ok e'"
    and data: "551 + unat (fe_finalSize e') \<le> block_length bpb e" "length data \<le> unat (fe_finalSize e')"
  shows "layout h (xs @ e' # ys) (overwrite (unat (fe_offset e) - 551) (entry_bytes e' @ data) bs)"
    and "\<And>f. f \<in> set xs \<union> set ys \<Longrightarrow>
      stored f (overwrite (unat (fe_offset e) - 551) (entry_bytes e' @ data) bs) = stored f bs"
    and "length data = unat (fe_finalSize e') \<Longrightarrow>
      stored e' (overwrite (unat (fe_offset e) - 551) (entry_bytes e' @ data) bs) = data"
    and "length (overwrite (unat (fe_offset e) - 551) (entry_bytes e' @ data) bs) = length bs"
proof -
  let ?k = "unat (fe_offset e) - 551"
  let ?new = "entry_bytes e' @ data"
  let ?bs = "overwrite ?k ?new bs"
  have chain: "chain bpb (unat (ah_firstEntry h)) (xs @ e # ys) (length bs)"
    and at: "\<And>f. f \<in> set (xs @ e # ys) \<Longrightarrow> entry_at bpb bs f"
    using l by (auto simp: layout_def bpb)
  have inside: "unat (ah_firstEntry h) + 551 \<le> unat (fe_offset e)" "?k + block_length bpb e \<le> length bs"
    using chain_inside [OF chain, of e] by auto
  have len: "length ?new \<le> block_length bpb e" using data e'(3) by simp
  show length: "length ?bs = length bs" using inside len by (intro length_overwrite) linarith
  have other: "entry_at bpb ?bs f" "stored f ?bs = stored f bs" if f: "f \<in> set xs \<union> set ys" for f
  proof -
    have "unat (fe_offset f) - 551 + block_length bpb f \<le> ?k \<or> ?k + length ?new \<le> unat (fe_offset f) - 551"
      using chain_disjoint [OF chain f] len by linarith
    moreover have "551 \<le> unat (fe_offset f)" using chain_inside [OF chain, of f] f by auto
    ultimately show "entry_at bpb ?bs f" "stored f ?bs = stored f bs"
      using entry_at_other [of bpb bs f ?k ?new] at [of f] f inside by auto
  qed
  then show "\<And>f. f \<in> set xs \<union> set ys \<Longrightarrow> stored f ?bs = stored f bs" by blast
  have k: "?k \<le> length bs" using inside by linarith
  have new: "slice ?k (551 + length data) ?bs = ?new" using k e'(3) by (simp add: slice_overwrite_same)
  have "slice ?k 551 ?bs = slice 0 551 (slice ?k (551 + length data) ?bs)"
    using e'(3) by (subst slice_slice) simp_all
  then have "slice ?k 551 ?bs = entry_bytes e'" using e'(3) by (simp add: new)
  then have "entry_at bpb ?bs e'"
    using at [of e] data e' by (simp add: entry_at_def block_length_def)
  moreover have "take 12 ?bs = take 12 bs"
  proof -
    have "12 \<le> unat (ah_firstEntry h)" using l by (simp add: layout_def)
    then have "12 \<le> ?k" using inside(1) by linarith
    then show ?thesis using k by (simp add: overwrite_def min_def)
  qed
  ultimately show "layout h (xs @ e' # ys) ?bs"
    using l chain_replace [OF chain e'(1,2)] other(1) length by (auto simp: layout_def bpb)
  show "stored e' ?bs = data" if "length data = unat (fe_finalSize e')"
  proof -
    have "stored e' ?bs = slice (?k + 551) (length data) ?bs"
      using that e'(1) inside by (simp add: stored_def)
    also have "\<dots> = slice 551 (length data) (slice ?k (551 + length data) ?bs)"
      using e'(3) by (subst slice_slice) simp_all
    also have "\<dots> = data" using e'(3) by (simp add: new slice_append_right)
    finally show ?thesis .
  qed
qed

text \<open>A new block at the end, whose first bytes are an entry and its data.\<close>

lemma layout_append:
  assumes l: "layout h es bs" and bpb: "bpb = unat (ah_bytesPerBlock h)"
    and e: "entry_ok e" "unat (fe_offset e) = length bs + 551" "0 < block_length bpb e" "block_length bpb e < 2 ^ 32"
    and data: "length (entry_bytes e @ data) \<le> block_length bpb e" "length data = unat (fe_finalSize e)"
    and mem: "length mem = block_length bpb e" and small: "length bs + block_length bpb e < 2 ^ 62"
  shows "layout h (es @ [e]) (overwrite (length bs) (entry_bytes e @ data) (bs @ mem))"
    and "\<And>f. f \<in> set es \<Longrightarrow> stored f (overwrite (length bs) (entry_bytes e @ data) (bs @ mem)) = stored f bs"
    and "stored e (overwrite (length bs) (entry_bytes e @ data) (bs @ mem)) = data"
    and "length (overwrite (length bs) (entry_bytes e @ data) (bs @ mem)) = length bs + block_length bpb e"
proof -
  let ?new = "entry_bytes e @ data"
  let ?bs = "overwrite (length bs) ?new (bs @ mem)"
  have chain: "chain bpb (unat (ah_firstEntry h)) es (length bs)"
    and at: "\<And>f. f \<in> set es \<Longrightarrow> entry_at bpb bs f"
    using l by (auto simp: layout_def bpb)
  have bs: "?bs = bs @ ?new @ drop (length ?new) mem" by (simp add: overwrite_def)
  show length: "length ?bs = length bs + block_length bpb e" using data(1) mem by (simp add: bs)
  have other: "entry_at bpb ?bs f" "stored f ?bs = stored f bs" if f: "f \<in> set es" for f
  proof -
    have in': "551 \<le> unat (fe_offset f)" "unat (fe_offset f) - 551 + block_length bpb f \<le> length bs"
      using chain_inside [OF chain f] by auto
    moreover have "551 + unat (fe_finalSize f) \<le> block_length bpb f" using at [OF f] by (simp add: entry_at_def)
    ultimately show "entry_at bpb ?bs f" "stored f ?bs = stored f bs"
      using at [OF f] unfolding bs by (simp_all add: entry_at_def stored_def slice_append_left)
  qed
  then show "\<And>f. f \<in> set es \<Longrightarrow> stored f ?bs = stored f bs" by blast
  have "entry_at bpb ?bs e"
    using data e by (simp add: entry_at_def bs slice_append_right)
  moreover have "12 \<le> length bs" using chain_le [OF chain] l by (auto simp: layout_def)
  ultimately show "layout h (es @ [e]) ?bs"
    using l chain other(1) length small e unfolding layout_def
    by (simp add: chain_append bs flip: bpb)
  show "stored e ?bs = data"
    using e data(2) by (simp add: stored_def bs slice_append_right)
qed

section \<open>The state of an archive\<close>

definition archive_ok :: "CVFSArchive \<Rightarrow> SFileEntry list \<Rightarrow> byte list \<Rightarrow> bool" where
  "archive_ok a es bs \<longleftrightarrow> layout (ar_header a) es bs \<and> length (m_archiveKey a) = 32
     \<and> (\<forall>i e. ar_files a i = Some e \<longleftrightarrow> i \<noteq> 0 \<and> e \<in> set es \<and> entry_index e = i)
     \<and> mset (ar_entries a) = filter_mset (\<lambda>e. entry_index e = 0) (mset es)"

text \<open>
  \<open>raw\<close> is a stored form of \<open>d\<close>, whatever memory the cipher objects find; the map \<open>M\<close> from name indices to
  contents is what the archive holds.
\<close>

definition packs :: "byte list \<Rightarrow> SFileInformation \<Rightarrow> byte list \<Rightarrow> byte list \<Rightarrow> bool" where
  "packs key info raw d \<longleftrightarrow> fi_hash info = XXH32 d 0
     \<and> (\<forall>j. junk_ok j \<longrightarrow> (\<exists>b. unpack_data j key info raw = Returns (Some b) \<and> buffer_ok b \<and> contents b = d))"

definition archive_holds :: "CVFSArchive \<Rightarrow> SFileEntry list \<Rightarrow> byte list \<Rightarrow> (u32 \<Rightarrow> byte list option) \<Rightarrow> bool" where
  "archive_holds a es bs M \<longleftrightarrow> archive_ok a es bs \<and> dom M = dom (ar_files a)
     \<and> (\<forall>i e d. ar_files a i = Some e \<longrightarrow> M i = Some d \<longrightarrow> packs (m_archiveKey a) (fe_info e) (stored e bs) d)"

lemma archive_holds_iff: "archive_holds a es bs M \<Longrightarrow> M i = None \<longleftrightarrow> ar_files a i = None"
  unfolding archive_holds_def by (metis domIff)

lemma archive_holds_packs:
  "archive_holds a es bs M \<Longrightarrow> ar_files a i = Some e \<Longrightarrow> M i = Some d \<Longrightarrow>
   packs (m_archiveKey a) (fe_info e) (stored e bs) d"
  by (simp add: archive_holds_def)

lemma archive_block:
  assumes "archive_ok a es bs" "ar_files a i = Some e \<or> e \<in> set (ar_entries a)"
  shows "e \<in> set es"
proof -
  have "set (ar_entries a) = set_mset (filter_mset (\<lambda>e. entry_index e = 0) (mset es))"
    using assms(1) unfolding archive_ok_def by (metis set_mset_mset)
  then show ?thesis using assms by (auto simp: archive_ok_def)
qed

text \<open>The other blocks of a split list are other entries, with other indices if they are in use.\<close>

lemma archive_split:
  assumes ok: "archive_ok a es bs" and es: "es = xs @ e # ys" and f: "f \<in> set xs \<union> set ys"
  shows "f \<noteq> e" "entry_index e = 0 \<or> entry_index f \<noteq> entry_index e"
proof -
  have "chain (unat (ah_bytesPerBlock (ar_header a))) (unat (ah_firstEntry (ar_header a))) (xs @ e # ys) (length bs)"
    using ok es by (simp add: archive_ok_def layout_def)
  from chain_distinct [OF this] show "f \<noteq> e" using f by auto
  have "f \<in> set es" "e \<in> set es" using f es by auto
  then show "entry_index e = 0 \<or> entry_index f \<noteq> entry_index e"
    using ok \<open>f \<noteq> e\<close> unfolding archive_ok_def by (metis option.inject)
qed

end
