(* ===== verification/File_Session.thy ===== *)
theory File_Session
  imports File_Lifecycle
begin

text \<open>
  Disk files from the client's side: what each operation on an open file does to the file and that it leaves
  everything else alone, derived from the stream interface, and a whole session, in which a file is created, written and
  closed and then opened and read by another object.
\<close>

section \<open>Operations on an open file\<close>

text \<open>The other files and the other handles are as before, and so are mappings and access rights.\<close>

definition others :: "'w file_view \<Rightarrow> wstring \<Rightarrow> nat \<Rightarrow> 'w \<Rightarrow> 'w \<Rightarrow> bool" where
  "others v path h w w' \<longleftrightarrow> (\<forall>p. p \<noteq> path \<longrightarrow> fv_disk v w' p = fv_disk v w p)
     \<and> (fv_open v w')(h := None) = (fv_open v w)(h := None) \<and> fv_rest v w' = fv_rest v w"

lemma others_refl [simp]: "others v path h w w"
  by (simp add: others_def)

lemma others_trans: "others v path h w1 w2 \<Longrightarrow> others v path h w2 w3 \<Longrightarrow> others v path h w1 w3"
  by (simp add: others_def)

abbreviation handle :: "CVFSFile \<Rightarrow> nat" where
  "handle f \<equiv> the (m_fileHandle f)"

lemma stream_step:
  assumes at: "stream_at (api, v) (f', w') wr pos' bs'" and rest: "stream_rest (api, v) (f', w') = stream_rest (api, v) (f, w)"
    and f: "file_at v f w path wr pos bs"
  shows "f' = f \<and> file_at v f w' path wr pos' bs' \<and> others v path (handle f) w w'"
proof -
  have "f' = f \<and> stream_path (api, v) (f', w') = stream_path (api, v) (f, w)
      \<and> (\<lambda>p. if Some p = stream_path (api, v) (f', w') then None else fv_disk v w' p)
        = (\<lambda>p. if Some p = stream_path (api, v) (f, w) then None else fv_disk v w p)
      \<and> (fv_open v w')(handle f' := None) = (fv_open v w)(handle f := None) \<and> fv_rest v w' = fv_rest v w"
    using rest unfolding stream_rest_def prod.inject fst_conv snd_conv .
  then have f': "f' = f" and p: "stream_path (api, v) (f', w') = stream_path (api, v) (f, w)"
    and d: "(\<lambda>p. if Some p = stream_path (api, v) (f', w') then None else fv_disk v w' p)
      = (\<lambda>p. if Some p = stream_path (api, v) (f, w) then None else fv_disk v w p)"
    and o': "(fv_open v w')(handle f' := None) = (fv_open v w)(handle f := None)" "fv_rest v w' = fv_rest v w"
    by blast+
  have path: "stream_path (api, v) (f, w) = Some path" using f by (simp add: stream_path_def file_at_def)
  obtain path' where at': "file_at v f w' path' wr pos' bs'" using at f' by (auto simp: stream_at_def)
  have "stream_path (api, v) (f, w') = Some path'" using at' by (simp add: stream_path_def file_at_def)
  then have "path' = path" using p path f' by simp
  moreover have "fv_disk v w' q = fv_disk v w q" if "q \<noteq> path" for q
    using fun_cong [OF d, of q] path p that by simp
  ultimately show ?thesis using f' at' o' by (simp add: others_def)
qed

lemma stream_envI: "win32_files api v \<Longrightarrow> stream_env (api, v)"
  by (simp add: stream_env_def)

lemma stream_atI: "file_at v f w path wr pos bs \<Longrightarrow> stream_at (api, v) (f, w) wr pos bs"
  by (auto simp: stream_at_def)

lemma file_seek:
  assumes "win32_files api v" "file_at v f w path wr pos bs" "unat off < 2 ^ 63"
  obtains w' where "CVFSFile_SetPosition api off False f w = (f, w')"
    "file_at v f w' path wr (unat off) bs" "others v path (handle f) w w'"
proof -
  obtain f' w' where r: "CVFSFile_SetPosition api off False f w = (f', w')"
    by (cases "CVFSFile_SetPosition api off False f w") auto
  have "stream_at (api, v) (f', w') wr (unat off) bs \<and> stream_rest (api, v) (f', w') = stream_rest (api, v) (f, w)"
    using disk.seek_law [OF stream_envI [OF assms(1)] stream_atI [OF assms(2)] assms(3)] r
    by (simp add: stream_seek_def)
  then show ?thesis using stream_step [OF _ _ assms(2), of api f' w'] r that by auto
qed

lemma file_write:
  assumes "win32_files api v" "file_at v f w path True pos bs" "length xs < 2 ^ 32"
  obtains n w' where "CVFSFile_Write api xs f w = (n, f, w')"
    "file_at v f w' path True (pos + length xs) (write_bytes pos xs bs)" "others v path (handle f) w w'"
proof -
  obtain n f' w' where r: "CVFSFile_Write api xs f w = (n, f', w')"
    by (cases "CVFSFile_Write api xs f w") auto
  have "stream_at (api, v) (f', w') True (pos + length xs) (write_bytes pos xs bs)
      \<and> stream_rest (api, v) (f', w') = stream_rest (api, v) (f, w)"
    using disk.write_law [OF stream_envI [OF assms(1)] stream_atI [OF assms(2)] assms(3)] r
    by (simp add: stream_write_def)
  then show ?thesis using stream_step [OF _ _ assms(2), of api f' w'] r that by auto
qed

lemma file_read:
  assumes "win32_files api v" "file_at v f w path wr pos bs"
  obtains w' where "CVFSFile_Read api n f w = (Returns (slice pos (unat n) bs), f, w')"
    "file_at v f w' path wr (pos + length (slice pos (unat n) bs)) bs" "others v path (handle f) w w'"
proof -
  obtain r f' w' where r: "CVFSFile_Read api n f w = (r, f', w')"
    by (cases "CVFSFile_Read api n f w") auto
  have "r = Returns (slice pos (unat n) bs) \<and> stream_at (api, v) (f', w') wr (pos + length (slice pos (unat n) bs)) bs
      \<and> stream_rest (api, v) (f', w') = stream_rest (api, v) (f, w)"
    using disk.read_law [OF stream_envI [OF assms(1)] stream_atI [OF assms(2)], of n] r
    by (simp add: stream_read_def)
  then show ?thesis using stream_step [OF _ _ assms(2), of api f' w'] r that by auto
qed

lemma file_tell:
  assumes "win32_files api v" "file_at v f w path wr pos bs" "pos < 2 ^ 63"
  obtains w' where "CVFSFile_GetPosition api f w = (of_nat pos, w')"
    "file_at v f w' path wr pos bs" "others v path (handle f) w w'"
proof -
  obtain p w' where r: "CVFSFile_GetPosition api f w = (p, w')"
    by (cases "CVFSFile_GetPosition api f w") auto
  have "p = of_nat pos \<and> stream_at (api, v) (f, w') wr pos bs
      \<and> stream_rest (api, v) (f, w') = stream_rest (api, v) (f, w)"
    using disk.tell_law [OF stream_envI [OF assms(1)] stream_atI [OF assms(2)] assms(3)] r
    by (simp add: stream_tell_def)
  then show ?thesis using stream_step [OF _ _ assms(2), of api f w'] r that by auto
qed

lemma file_size:
  "win32_files api v \<Longrightarrow> file_at v f w path wr pos bs \<Longrightarrow> CVFSFile_GetSize api f w = of_nat (length bs)"
  using disk.size_law [OF stream_envI stream_atI] by (simp add: stream_size_def)

lemma file_memory:
  assumes "win32_files api v" "file_at v f w path wr pos bs"
  obtains mem w' where "w_uninitialised api n w = (mem, w')" "length mem = n"
    "file_at v f w' path wr pos bs" "others v path (handle f) w w'"
proof -
  obtain mem w' where r: "w_uninitialised api n w = (mem, w')" by (cases "w_uninitialised api n w") auto
  have "law_memory api v" using assms(1) by (simp add: win32_files_def)
  from this [unfolded law_memory_def, rule_format, of n w]
  have "length mem = n" "fv_disk v w' = fv_disk v w" "fv_open v w' = fv_open v w" "fv_rest v w' = fv_rest v w"
    using r by auto
  then show ?thesis using assms(2) r that [of mem w'] by (simp add: file_at_def others_def fv_rest_def)
qed

lemma c_str_c_str [simp]: "c_str (c_str s) = c_str s"
  by (auto simp: c_str_def takeWhile_eq_all_conv dest: set_takeWhileD)

lemma c_str_GetAbsolutePath: "c_str (GetAbsolutePath api path w) = GetAbsolutePath api path w"
proof -
  have "c_str [] = []" by (simp add: c_str_def)
  then show ?thesis by (simp add: GetAbsolutePath_def split: option.split)
qed

lemma closed_again: "others v path hn w w' \<Longrightarrow> fv_open v w hn = None \<Longrightarrow> (fv_open v w')(hn := None) = fv_open v w"
  by (auto simp: others_def fun_upd_idem)

section \<open>A whole session\<close>

fun write_all :: "'w win32 \<Rightarrow> byte list list \<Rightarrow> CVFSFile \<Rightarrow> 'w \<Rightarrow> CVFSFile \<times> 'w" where
  "write_all api [] f w = (f, w)"
| "write_all api (xs # xss) f w = (case CVFSFile_Write api xs f w of (_, f, w) \<Rightarrow> write_all api xss f w)"

lemma write_bytes_next: "write_bytes (length pre) xs (overwrite 0 pre old) = overwrite 0 (pre @ xs) old"
  by (simp add: write_bytes_def overwrite_def add.commute)

lemma write_all_at:
  assumes "win32_files api v" "file_at v f w path True (length pre) (overwrite 0 pre old)" "\<forall>xs\<in>set xss. length xs < 2 ^ 32"
  shows "\<exists>w'. write_all api xss f w = (f, w') \<and> others v path (handle f) w w'
    \<and> file_at v f w' path True (length (pre @ concat xss)) (overwrite 0 (pre @ concat xss) old)"
  using assms(2,3)
proof (induction xss arbitrary: pre w)
  case (Cons xs xss)
  obtain n w1 where w: "CVFSFile_Write api xs f w = (n, f, w1)" "others v path (handle f) w w1"
    "file_at v f w1 path True (length (pre @ xs)) (overwrite 0 (pre @ xs) old)"
    by (rule file_write [OF assms(1) Cons.prems(1), of xs]) (use Cons.prems(2) in \<open>auto simp: write_bytes_next\<close>)
  obtain w' where "write_all api xss f w1 = (f, w')" "others v path (handle f) w1 w'"
    "file_at v f w' path True (length (pre @ concat (xs # xss))) (overwrite 0 (pre @ concat (xs # xss)) old)"
    using Cons.IH [OF w(3)] Cons.prems(2) by auto
  then show ?case using w(1,2) others_trans by fastforce
qed simp

lemma read_all_at:
  assumes "win32_files api v"
  shows "file_at v f w path wr pos bs \<Longrightarrow> read_all api ns f w = map Returns (chop ns (drop pos bs))"
proof (induction ns arbitrary: w pos)
  case (Cons n ns)
  obtain w' where r: "CVFSFile_Read api n f w = (Returns (slice pos (unat n) bs), f, w')"
    "file_at v f w' path wr (pos + length (slice pos (unat n) bs)) bs"
    by (rule file_read [OF assms Cons.prems])
  have "drop (pos + length (slice pos (unat n) bs)) bs = drop (unat n) (drop pos bs)"
    by (simp add: length_slice add.commute min_def)
  then show ?case using Cons.IH [OF r(2)] r(1) by (simp add: slice_def)
qed simp

text \<open>
  C35. A file that is created, written in any pieces and closed is, opened by another object and read with any
  sizes, the old contents overwritten from the start by the pieces in order: \<^verbatim>\<open>append\<close> keeps the old contents but
  does not position at their end, and without it they are dropped. While the first object is open, nobody else opens the file.
\<close>

theorem written_file_reads_back:
  assumes "win32_files api v" "path = GetAbsolutePath api name w" "can_create v w path" "fv_grants v w path False"
    and "\<forall>xs\<in>set xss. length xs < 2 ^ 32"
    and "old = (case fv_disk v w path of None \<Rightarrow> [] | Some bs \<Rightarrow> if app then bs else [])"
  shows "case CVFSFile_Create api name app CVFSFile_new w of (created, f, w1) \<Rightarrow>
    case write_all api xss f w1 of (f, w2) \<Rightarrow>
    case CVFSFile_Close api f w2 of (_, w3) \<Rightarrow>
    case CVFSFile_Open api path CVFSFile_new w3 of (opened, g, w4) \<Rightarrow>
      created \<and> \<not> fst (CVFSFile_Open api path CVFSFile_new w2) \<and> opened
      \<and> read_all api ns g w4 = map Returns (chop ns (overwrite 0 (concat xss) old))"
proof -
  have c: "c_str path = path" unfolding assms(2) by (rule c_str_GetAbsolutePath)
  obtain ok f w1 where r1: "CVFSFile_Create api name app CVFSFile_new w = (ok, f, w1)"
    by (cases "CVFSFile_Create api name app CVFSFile_new w") auto
  have f: "ok" "file_at v f w1 path True 0 old" "fv_open v w (handle f) = None" "fv_rest v w1 = fv_rest v w"
    "fv_open v w1 = (fv_open v w)(handle f \<mapsto> (path, True, 0))"
    using Create_outcome [OF assms(1,2), where app = app] r1 can_create_open [OF assms(3), of "if app then OPEN_ALWAYS else CREATE_ALWAYS"] assms(6)
    by (auto split: if_splits)
  obtain w2 where r2: "write_all api xss f w1 = (f, w2)" "others v path (handle f) w1 w2"
    "file_at v f w2 path True (length (concat xss)) (overwrite 0 (concat xss) old)"
    using write_all_at [OF assms(1), of f w1 path "[]" old xss] f(2) assms(5) by auto
  have "share_denied v w2 path False" using r2(3) by (auto simp: share_denied_def file_at_def)
  then have early: "\<not> fst (CVFSFile_Open api path CVFSFile_new w2)"
    using Open_outcome [OF assms(1), where name = path and w = w2] c by (auto simp: can_read_def)
  have h: "file_ok f \<and> holds v w f w1" by (rule run_Create [OF assms(1) holds_new [OF refl refl] r1])
  obtain hn where hn: "m_fileHandle f = Some hn" "m_mapHandle f = None" "m_mappedData f = None"
    using disk_handle [of v w f w1] h f(2) by (auto simp: file_at_def)
  obtain f' w3 where r3: "CVFSFile_Close api f w2 = (f', w3)" by (cases "CVFSFile_Close api f w2") auto
  note close = Close_disk [OF assms(1) hn(2,1), of w2, unfolded r3 snd_conv]
  have rest: "fv_rest v w3 = fv_rest v w"
    using close(3) hn f(4) r2(2,3) by (simp add: others_def file_at_def)
  have "fv_open v w3 = fv_open v w"
    using r2(2) f hn(1) close(2) by (auto simp: others_def fun_upd_idem)
  then have "can_read v w3 path"
    using assms(3,4) rest by (auto simp: can_read_def can_create_def share_denied_def fv_rest_def)
  moreover have "fv_disk v w3 path = Some (overwrite 0 (concat xss) old)" using r2(3) close(1) by (simp add: file_at_def)
  moreover obtain opened g w4 where r4: "CVFSFile_Open api path CVFSFile_new w3 = (opened, g, w4)"
    by (cases "CVFSFile_Open api path CVFSFile_new w3") auto
  ultimately have "opened" "file_at v g w4 path False 0 (overwrite 0 (concat xss) old)"
    using Open_outcome [OF assms(1), where name = path and w = w3] c by auto
  then show ?thesis using r1 r2(1) r3 r4 f(1) early read_all_at [OF assms(1)] by simp
qed

text \<open>A file of four bytes is opened for appending; the new bytes replace its first ones.\<close>

theorem written_file_reads_back_witness:
  "case CVFSFile_Create disk_api [97] True CVFSFile_new (disk_with [97] [1, 2, 3, 4]) of (created, f, w1) \<Rightarrow>
    case write_all disk_api [[7], [8, 9]] f w1 of (f, w2) \<Rightarrow>
    case CVFSFile_Close disk_api f w2 of (_, w3) \<Rightarrow>
    case CVFSFile_Open disk_api [97] CVFSFile_new w3 of (opened, g, w4) \<Rightarrow>
      created \<and> \<not> fst (CVFSFile_Open disk_api [97] CVFSFile_new w2) \<and> opened
      \<and> read_all disk_api [3, 3] g w4 = [Returns [7, 8, 9], Returns [4]]"
  using written_file_reads_back [OF disk_api_files, where path = "[97]" and name = "[97]" and app = True
      and w = "disk_with [97] [1, 2, 3, 4]" and xss = "[[7], [8, 9]]" and old = "[1, 2, 3, 4]" and ns = "[3, 3]"]
  by (simp add: GetAbsolutePath_def disk_api_simps c_str_def can_create_def share_denied_def path_mapped_def overwrite_def
      del: read_all.simps write_all.simps)

end
