(* ===== verification/Archive_Store.thy ===== *)
theory Archive_Store
  imports Archive_Layout File_Session Lz4_Correct
begin

text \<open>
  Writing and deleting in an archive that is open for writing: what each operation does to the file, the
  layout and the map of contents. The file operations are used through the stream interface of disk files.
\<close>

section \<open>Operations on the archive file\<close>

text \<open>Writing an entry and data over a region of the file.\<close>

lemma write_bytes_inside: "pos + length xs \<le> length bs \<Longrightarrow> write_bytes pos xs bs = overwrite pos xs bs"
  by (simp add: write_bytes_def)

lemma overwrite_twice:
  "k + length xs + length ys \<le> length bs \<Longrightarrow>
   overwrite (k + length xs) ys (overwrite k xs bs) = overwrite k (xs @ ys) bs"
  by (cases xs) (auto simp: overwrite_def min_def ac_simps)

lemma write_entry:
  assumes "win32_files api v" "file_at v f w path True pos bs" "entry_ok e"
    and "551 \<le> unat (fe_offset e)" "unat (fe_offset e) - 551 + length (entry_bytes e @ data) \<le> length bs"
    and "length bs < 2 ^ 62" "length data < 2 ^ 32"
  obtains w' pos' where "write_block api e data f w = (f, w')"
    "file_at v f w' path True pos' (overwrite (unat (fe_offset e) - 551) (entry_bytes e @ data) bs)"
    "others v path (handle f) w w'"
proof -
  let ?k = "unat (fe_offset e) - 551"
  have off: "unat (fe_offset e - 551) = ?k" using assms(4) by (simp add: unat_sub word_le_nat_alt)
  obtain w1 where w1: "CVFSFile_SetPosition api (fe_offset e - 551) False f w = (f, w1)"
    "file_at v f w1 path True ?k bs" "others v path (handle f) w w1"
    by (rule file_seek [OF assms(1,2), of "fe_offset e - 551"]) (use assms(5,6) off in auto)
  have len: "?k + length (entry_bytes e) + length data \<le> length bs" using assms(5) by simp
  obtain n2 w2 where w2: "CVFSFile_Write api (entry_bytes e) f w1 = (n2, f, w2)"
    "file_at v f w2 path True (?k + length (entry_bytes e)) (write_bytes ?k (entry_bytes e) bs)"
    "others v path (handle f) w1 w2"
    by (rule file_write [OF assms(1) w1(2), of "entry_bytes e"]) (use assms(3) in auto)
  obtain n3 w3 where w3: "CVFSFile_Write api data f w2 = (n3, f, w3)"
    "file_at v f w3 path True (?k + length (entry_bytes e) + length data)
      (write_bytes (?k + length (entry_bytes e)) data (write_bytes ?k (entry_bytes e) bs))"
    "others v path (handle f) w2 w3"
    by (rule file_write [OF assms(1) w2(2) assms(7)])
  have "write_bytes (?k + length (entry_bytes e)) data (write_bytes ?k (entry_bytes e) bs)
      = overwrite ?k (entry_bytes e @ data) bs"
    using len by (simp add: write_bytes_inside length_overwrite overwrite_twice)
  moreover have "write_block api e data f w = (f, w3)"
    using w1(1) w2(1) w3(1) by (simp add: write_block_def)
  moreover have "others v path (handle f) w w3" by (blast intro: others_trans w1(3) w2(3) w3(3))
  ultimately show ?thesis using that [of w3] w3(2) by metis
qed

section \<open>Deleting\<close>

definition archive_at ::
  "'w file_view \<Rightarrow> CVFSArchive \<Rightarrow> 'w \<Rightarrow> wstring \<Rightarrow> bool \<Rightarrow> SFileEntry list \<Rightarrow> byte list \<Rightarrow> (u32 \<Rightarrow> byte list option) \<Rightarrow> bool" where
  "archive_at v a w path wr es bs M \<longleftrightarrow> archive_holds a es bs M
     \<and> (\<exists>f pos. m_vfsFile a = Some f \<and> file_at v f w path wr pos bs \<and> c_str (m_fileName f) = path)"

text \<open>The in-memory state after the block of \<open>e\<close> has got the entry \<open>e'\<close>.\<close>

lemma archive_files_other:
  assumes ok: "archive_ok a es bs" and es: "es = xs @ e # ys" and j: "entry_index e = 0 \<or> j \<noteq> entry_index e"
  shows "ar_files a j = Some f \<longleftrightarrow> j \<noteq> 0 \<and> f \<in> set xs \<union> set ys \<and> entry_index f = j"
proof -
  have "ar_files a j = Some f \<longleftrightarrow> j \<noteq> 0 \<and> f \<in> set es \<and> entry_index f = j"
    using ok by (simp add: archive_ok_def)
  moreover have "f \<noteq> e" if "j \<noteq> 0" "entry_index f = j" using that j by auto
  ultimately show ?thesis using es by auto
qed

lemma entry_ok_length: "entry_ok e \<Longrightarrow> length (entry_bytes e @ data) = 551 + length data"
  by simp

lemma layout_block:
  assumes "layout h (xs @ e # ys) bs" "bpb = unat (ah_bytesPerBlock h)"
  shows "551 \<le> unat (fe_offset e)" "unat (fe_offset e) - 551 + block_length bpb e \<le> length bs"
    "entry_at bpb bs e" "length bs < 2 ^ 62" "block_length bpb e < 2 ^ 32"
proof -
  have "chain bpb (unat (ah_firstEntry h)) (xs @ e # ys) (length bs)" using assms by (simp add: layout_def)
  from chain_inside [OF this, of e]
  show "551 \<le> unat (fe_offset e)" "unat (fe_offset e) - 551 + block_length bpb e \<le> length bs" by auto
  show "entry_at bpb bs e" "length bs < 2 ^ 62" "block_length bpb e < 2 ^ 32"
    using assms by (auto simp: layout_def entry_at_def)
qed

lemma deleted_entry_ok:
  "entry_ok e \<Longrightarrow> entry_ok (e\<lparr>fe_info := zero_info\<lparr>fi_filename := overwrite 0 [0] (fi_filename (fe_info e))\<rparr>, fe_finalSize := 0\<rparr>)"
  by (simp add: entry_ok_def length_overwrite)

lemma Delete_correct:
  assumes api: "win32_files api v" and at: "archive_at v a w path True es bs M" and i: "ar_files a i = Some e"
  obtains a' w' es' bs' where "CVFSArchive_Delete api i a w = (True, a', w')"
    "archive_at v a' w' path True es' bs' (M(i := None))" "ar_files a' = (ar_files a)(i := None)"
    "m_vfsFile a' = m_vfsFile a" "ar_header a' = ar_header a" "m_archiveKey a' = m_archiveKey a"
    "length bs' = length bs" "others v path (handle (the (m_vfsFile a))) w w'"
proof -
  let ?e = "e\<lparr>fe_info := zero_info\<lparr>fi_filename := overwrite 0 [0] (fi_filename (fe_info e))\<rparr>, fe_finalSize := 0\<rparr>"
  let ?bpb = "unat (ah_bytesPerBlock (ar_header a))"
  let ?bs = "overwrite (unat (fe_offset e) - 551) (entry_bytes ?e) bs"
  have holds: "archive_holds a es bs M" and ok: "archive_ok a es bs"
    using at by (auto simp: archive_at_def archive_holds_def)
  obtain f pos where f: "m_vfsFile a = Some f" "file_at v f w path True pos bs" "c_str (m_fileName f) = path"
    using at by (auto simp: archive_at_def)
  have e: "e \<in> set es" "entry_index e = i" "i \<noteq> 0" using ok i by (auto simp: archive_ok_def)
  obtain xs ys where es: "es = xs @ e # ys" using e(1) by (meson split_list)
  have lay: "layout (ar_header a) (xs @ e # ys) bs" using ok es by (simp add: archive_ok_def)
  note block = layout_block [OF lay refl]
  have eok: "entry_ok e" using block(3) by (simp add: entry_at_def)
  have ok': "entry_ok ?e" by (rule deleted_entry_ok [OF eok])
  have fit: "unat (fe_offset e) - 551 + 551 \<le> length bs" "551 \<le> block_length ?bpb e"
    using block(2,3) by (auto simp: entry_at_def)
  have off: "unat (fe_offset e - 551) = unat (fe_offset e) - 551"
    using block(1) by (simp add: unat_sub word_le_nat_alt)
  obtain w1 where w1: "CVFSFile_SetPosition api (fe_offset e - 551) False f w = (f, w1)"
    "file_at v f w1 path True (unat (fe_offset e) - 551) bs" "others v path (handle f) w w1"
    by (rule file_seek [OF api f(2), of "fe_offset e - 551"]) (use block(4) fit off in auto)
  obtain n w2 where w2: "CVFSFile_Write api (entry_bytes ?e) f w1 = (n, f, w2)"
    "file_at v f w2 path True (unat (fe_offset e) - 551 + length (entry_bytes ?e))
      (write_bytes (unat (fe_offset e) - 551) (entry_bytes ?e) bs)" "others v path (handle f) w1 w2"
    by (rule file_write [OF api w1(2), of "entry_bytes ?e"]) (use ok' in auto)
  have bs': "write_bytes (unat (fe_offset e) - 551) (entry_bytes ?e) bs = ?bs"
    using fit ok' by (simp add: write_bytes_inside)
  define a' where "a' = a\<lparr>m_vfsFile := Some f, ar_files := (ar_files a)(i := None), ar_entries := ar_entries a @ [?e]\<rparr>"
  have del: "CVFSArchive_Delete api i a w = (True, a', w2)"
    using f i w1(1) w2(1) file_at_valid [OF f(2)] by (simp add: CVFSArchive_Delete_def a'_def Let_def)
  note rep = layout_replace [OF lay refl _ _ ok', of "[]", simplified]
  have lay': "layout (ar_header a) (xs @ ?e # ys) ?bs" and len': "length ?bs = length bs"
    and st': "\<And>g. g \<in> set xs \<union> set ys \<Longrightarrow> stored g ?bs = stored g bs"
    using rep fit by auto
  have idx': "entry_index ?e = 0" by (simp add: entry_index_def zero_info_def)
  have other: "ar_files a j = Some g \<longleftrightarrow> j \<noteq> 0 \<and> g \<in> set xs \<union> set ys \<and> entry_index g = j" if "j \<noteq> i" for j g
    by (rule archive_files_other [OF ok es]) (use that e in auto)
  have noti: "entry_index g \<noteq> i" if "g \<in> set xs \<union> set ys" for g
    using archive_split(2) [OF ok es that] e by auto
  have files': "ar_files a' j = Some g \<longleftrightarrow> j \<noteq> 0 \<and> g \<in> set (xs @ ?e # ys) \<and> entry_index g = j" for j g
    using other [of j g] noti [of g] idx' by (auto simp: a'_def)
  have "mset (ar_entries a) = filter_mset (\<lambda>e. entry_index e = 0) (mset (xs @ e # ys))"
    using ok es by (simp add: archive_ok_def)
  then have "mset (ar_entries a') = filter_mset (\<lambda>e. entry_index e = 0) (mset (xs @ ?e # ys))"
    using e idx' by (simp add: a'_def)
  then have ok_a': "archive_ok a' (xs @ ?e # ys) ?bs"
    using lay' ok files' by (simp add: archive_ok_def a'_def)
  have "archive_holds a' (xs @ ?e # ys) ?bs (M(i := None))"
    unfolding archive_holds_def
  proof (intro conjI allI impI)
    show "archive_ok a' (xs @ ?e # ys) ?bs" by (rule ok_a')
    show "dom (M(i := None)) = dom (ar_files a')" using holds by (simp add: archive_holds_def a'_def)
    fix j g d assume g: "ar_files a' j = Some g" "(M(i := None)) j = Some d"
    then have "j \<noteq> i" "ar_files a j = Some g" "M j = Some d" by (auto simp: a'_def split: if_splits)
    then show "packs (m_archiveKey a') (fe_info g) (stored g ?bs) d"
      using holds st' [of g] other [of j g] by (auto simp: archive_holds_def a'_def)
  qed
  then have at': "archive_at v a' w2 path True (xs @ ?e # ys) ?bs (M(i := None))"
    using w2(2) f(3) unfolding archive_at_def bs' by (auto simp: a'_def)
  show ?thesis
    by (rule that [OF del at']) (use f w1(3) w2(3) len' in \<open>auto simp: a'_def intro: others_trans\<close>)
qed

end
