(* ===== verification/Lz4hc_Search.thy ===== *)
theory Lz4hc_Search
  imports Lz4hc_Match
begin

text \<open>
  What the match finder of \<open>Lz4hc_Match\<close> reports is a match: at most 65535 bytes back, within the limit, and equal
  byte by byte. The counts are shown to count equal bytes; that they stop only at the first difference is not
  needed. Along a search the index only goes back, and the tables hold only positions that have been passed.
\<close>

section \<open>Words of the source\<close>

definition agree :: "byte list \<Rightarrow> nat \<Rightarrow> nat \<Rightarrow> nat \<Rightarrow> bool" where
  "agree src m p n \<longleftrightarrow> (\<forall>k<n. src ! (m + k) = src ! (p + k))"

lemma agree_0 [simp]: "agree src m p 0"
  by (simp add: agree_def)

lemma agree_add: "agree src m p (a + b) \<longleftrightarrow> agree src m p a \<and> agree src (m + a) (p + a) b"
proof
  assume l: "agree src m p a \<and> agree src (m + a) (p + a) b"
  show "agree src m p (a + b)"
    unfolding agree_def
  proof (intro allI impI)
    fix k assume "k < a + b"
    then show "src ! (m + k) = src ! (p + k)"
      using l [unfolded agree_def] by (cases "k < a") (force dest: spec [of _ "k - a"])+
  qed
qed (auto simp: agree_def add.assoc)

lemma agree_le: "agree src m p n \<Longrightarrow> k \<le> n \<Longrightarrow> agree src m p k"
  by (auto simp: agree_def)

lemma agree_slice: "m + n \<le> length src \<Longrightarrow> p + n \<le> length src \<Longrightarrow> agree src m p n \<longleftrightarrow> slice m n src = slice p n src"
  by (auto simp: agree_def slice_def list_eq_iff_nth_eq)

lemma le_word_inject:
  assumes "le_word xs = (le_word ys :: 'a::len word)" "length xs = n" "length ys = n" "8 * n \<le> LENGTH('a)"
  shows "xs = ys"
  using le_bytes_le_word [OF assms(2,4)] le_bytes_le_word [OF assms(3,4)] assms(1) by metis

lemma read_agree:
  assumes "m + n \<le> length src" "p + n \<le> length src" "8 * n \<le> LENGTH('a::len)"
    and "(le_word (slice m n src) :: 'a word) = le_word (slice p n src)"
  shows "agree src m p n"
  using le_word_inject [OF assms(4) _ _ assms(3)] assms(1,2) by (simp add: agree_slice length_slice)

lemma xor_0_iff: "x XOR y = 0 \<longleftrightarrow> x = (y :: 'a::len word)"
proof
  assume 0: "x XOR y = 0"
  have "x = (x XOR y) XOR y" by (simp only: xor.assoc) simp
  then show "x = y" using 0 by simp
qed simp

text \<open>How many of the low bytes are zero.\<close>

lemma bit_scan_forward:
  shows "bit_scan_forward x \<le> 64" "i < bit_scan_forward x \<Longrightarrow> \<not> bit x i"
    and "bit_scan_forward x < 64 \<Longrightarrow> bit x (bit_scan_forward x)"
proof -
  let ?t = "takeWhile (\<lambda>i. \<not> bit x i) [0..<64]"
  have len: "length ?t \<le> 64" using length_takeWhile_le [of "\<lambda>i. \<not> bit x i" "[0..<64]"] by simp
  then show "bit_scan_forward x \<le> 64" by (simp add: bit_scan_forward_def)
  show "\<not> bit x i" if "i < bit_scan_forward x"
  proof -
    have i: "i < length ?t" using that by (simp add: bit_scan_forward_def)
    then have "?t ! i = i" using len takeWhile_nth [OF i] by simp
    then show ?thesis using set_takeWhileD [OF nth_mem [OF i]] by simp
  qed
  show "bit x (bit_scan_forward x)" if "bit_scan_forward x < 64"
    using nth_length_takeWhile [of "\<lambda>i. \<not> bit x i" "[0..<64]"] that by (simp add: bit_scan_forward_def)
qed

lemma NbCommonBytes_bytes: "LZ4_NbCommonBytes x = length (takeWhile (\<lambda>b. b = 0) (le_bytes 8 x))"
proof -
  let ?n = "bit_scan_forward x div 8"
  have n: "?n \<le> 8" using bit_scan_forward(1) [of x] by linarith
  have bits: "le_bytes 8 x ! i = 0 \<longleftrightarrow> (\<forall>k<8. \<not> bit x (8 * i + k))" if "i < 8" for i
    using that by (auto simp: le_bytes_def bit_eq_iff bit_ucast_iff bit_drop_bit_eq add.commute)
  have "takeWhile (\<lambda>b. b = 0) (le_bytes 8 x) = take ?n (le_bytes 8 x)"
  proof (rule takeWhile_eq_take_P_nth)
    fix i assume i: "i < ?n" "i < length (le_bytes 8 x)"
    have "8 * i + k < bit_scan_forward x" if "k < 8" for k using i(1) that by linarith
    then show "le_bytes 8 x ! i = 0" using i(2) bit_scan_forward(2) by (simp add: bits)
  next
    assume "?n < length (le_bytes 8 x)"
    then have l: "?n < 8" "bit_scan_forward x < 64" by auto
    have "bit x (8 * ?n + bit_scan_forward x mod 8)" using bit_scan_forward(3) [OF l(2)] by simp
    then show "le_bytes 8 x ! ?n \<noteq> 0" unfolding bits [OF l(1)] by (metis mod_less_divisor zero_less_numeral)
  qed
  then show ?thesis using n by (simp add: LZ4_NbCommonBytes_def)
qed

lemma NbCommonBytes_le: "LZ4_NbCommonBytes x \<le> 8"
  using length_takeWhile_le [of "\<lambda>b. b = 0" "le_bytes 8 x"] by (simp add: NbCommonBytes_bytes)

lemma nth_le_bytes: "k < n \<Longrightarrow> le_bytes n x ! k = ucast (drop_bit (8 * k) x)"
  by (simp add: le_bytes_def)

lemma NbCommonBytes_equal:
  assumes "k < LZ4_NbCommonBytes (x XOR y)"
  shows "le_bytes 8 x ! k = le_bytes 8 y ! k"
proof -
  have k: "k < 8" using assms NbCommonBytes_le [of "x XOR y"] by linarith
  have "k < length (takeWhile (\<lambda>b. b = 0) (le_bytes 8 (x XOR y)))" using assms by (simp add: NbCommonBytes_bytes)
  then have "le_bytes 8 (x XOR y) ! k = 0"
    using nth_mem set_takeWhileD takeWhile_nth by (metis (mono_tags, lifting))
  then have "le_bytes 8 x ! k XOR le_bytes 8 y ! k = 0"
    using k by (simp add: nth_le_bytes drop_bit_xor unsigned_xor_eq)
  then show ?thesis by (simp only: xor_0_iff)
qed

lemma bytes_read_ARCH: "p + 8 \<le> length src \<Longrightarrow> k < 8 \<Longrightarrow> le_bytes 8 (LZ4_read_ARCH src p) ! k = src ! (p + k)"
  by (simp add: LZ4_read_ARCH_def le_bytes_le_word length_slice) (simp add: slice_def)

lemma common_agree:
  assumes "m + 8 \<le> length src" "p + 8 \<le> length src"
  shows "agree src m p (LZ4_NbCommonBytes (LZ4_read_ARCH src m XOR LZ4_read_ARCH src p))"
  unfolding agree_def
proof (intro allI impI)
  fix k assume k: "k < LZ4_NbCommonBytes (LZ4_read_ARCH src m XOR LZ4_read_ARCH src p)"
  then have "k < 8" using NbCommonBytes_le order_less_le_trans by blast
  then show "src ! (m + k) = src ! (p + k)"
    using NbCommonBytes_equal [OF k] assms by (simp add: bytes_read_ARCH)
qed

section \<open>Counting\<close>

lemma agree_extend:
  assumes "agree src m p a" "agree src (m + a) (p + a) b"
  shows "agree src m p (a + b)"
  using assms by (simp add: agree_add)

lemma count_tail_agree:
  assumes "m < p" "p \<le> lim" "lim \<le> length src"
  shows "p \<le> count_tail src p m lim \<and> count_tail src p m lim \<le> lim \<and> agree src m p (count_tail src p m lim - p)"
proof -
  define a where "a = (if p + 3 < lim \<and> LZ4_read32 src m = LZ4_read32 src p then 4 else 0 :: nat)"
  define b where "b = (if p + a + 1 < lim \<and> LZ4_read16 src (m + a) = LZ4_read16 src (p + a) then 2 else 0 :: nat)"
  define c where "c = (if p + a + b < lim \<and> src ! (m + a + b) = src ! (p + a + b) then 1 else 0 :: nat)"
  have a: "agree src m p a" "p + a \<le> lim"
    using read_agree [where 'a = 32, of m 4 src p] assms by (simp_all add: LZ4_read32_def a_def)
  have b: "agree src (m + a) (p + a) b" "p + a + b \<le> lim"
    using read_agree [where 'a = 16, of "m + a" 2 src "p + a"] assms a(2) by (simp_all add: LZ4_read16_def b_def)
  have c: "agree src (m + a + b) (p + a + b) c" "p + a + b + c \<le> lim"
    using b(2) by (simp_all add: agree_def c_def)
  have "agree src m p (a + b + c)"
    using agree_extend [OF agree_extend [OF a(1) b(1)]] c(1) by (simp add: add.assoc)
  moreover have "count_tail src p m lim = p + (a + b + c)"
  proof -
    have "(if p + 3 < lim \<and> LZ4_read32 src m = LZ4_read32 src p then (p + 4, m + 4) else (p, m)) = (p + a, m + a)"
      by (simp add: a_def)
    moreover have "(if p + a + 1 < lim \<and> LZ4_read16 src (m + a) = LZ4_read16 src (p + a)
        then (p + a + 2, m + a + 2) else (p + a, m + a)) = (p + a + b, m + a + b)"
      by (simp add: b_def)
    ultimately show ?thesis
      unfolding count_tail_def Let_def by (simp only: prod.case) (simp add: c_def)
  qed
  ultimately show ?thesis using c(2) by (metis add.assoc diff_add_inverse le_add1)
qed


lemma count_words_agree:
  assumes "m < p" "p \<le> lim" "lim \<le> length src"
  shows "p \<le> count_words src p m lim \<and> count_words src p m lim \<le> lim \<and> agree src m p (count_words src p m lim - p)"
  using assms
proof (induction src p m lim rule: count_words.induct)
  case (1 src p m lim)
  let ?d = "LZ4_read_ARCH src m XOR LZ4_read_ARCH src p"
  consider (tail) "\<not> p + 7 < lim" | (diff) "p + 7 < lim" "?d \<noteq> 0" | (word) "p + 7 < lim" "?d = 0" by blast
  then show ?case
  proof cases
    case tail
    then show ?thesis using count_tail_agree 1(2-4) by (simp add: count_words.simps)
  next
    case diff
    then show ?thesis
      using common_agree [of m src p] NbCommonBytes_le [of ?d] 1(2-4) by (simp add: count_words.simps)
  next
    case word
    have "agree src m p 8"
      using read_agree [where 'a = 64, of m 8 src p] word 1(2-4) by (simp add: LZ4_read_ARCH_def xor_0_iff)
    moreover have "p + 8 \<le> count_words src (p + 8) (m + 8) lim \<and> count_words src (p + 8) (m + 8) lim \<le> lim
        \<and> agree src (m + 8) (p + 8) (count_words src (p + 8) (m + 8) lim - (p + 8))"
      using 1(1) [OF word(1) refl word(2)] 1(2-4) word(1) by simp
    moreover have "count_words src p m lim = count_words src (p + 8) (m + 8) lim"
      using word by (simp add: count_words.simps [of src p])
    ultimately show ?thesis
      using agree_extend [of src m p 8 "count_words src (p + 8) (m + 8) lim - (p + 8)"] by simp
  qed
qed

lemma count_agree:
  assumes "m < p" "p \<le> lim" "lim \<le> length src"
  shows "p + LZ4_count src p m lim \<le> lim" "agree src m p (LZ4_count src p m lim)"
  using count_words_agree [OF assms] by (simp_all add: LZ4_count_def)

section \<open>Runs of one byte\<close>

definition run_of :: "byte \<Rightarrow> byte list \<Rightarrow> nat \<Rightarrow> nat \<Rightarrow> bool" where
  "run_of b src p n \<longleftrightarrow> (\<forall>k<n. src ! (p + k) = b)"

lemma run_of_add: "run_of b src p (m + n) \<longleftrightarrow> run_of b src p m \<and> run_of b src (p + m) n"
proof
  assume l: "run_of b src p m \<and> run_of b src (p + m) n"
  show "run_of b src p (m + n)"
    unfolding run_of_def
  proof (intro allI impI)
    fix k assume "k < m + n"
    then show "src ! (p + k) = b"
      using l [unfolded run_of_def] by (cases "k < m") (force dest: spec [of _ "k - m"])+
  qed
qed (auto simp: run_of_def add.assoc)

lemma run_of_join:
  assumes "run_of b src p (q - p)" "run_of b src q (r - q)" "p \<le> q" "q \<le> r"
  shows "run_of b src p (r - p)"
  using run_of_add [of b src p "q - p" "r - q"] assms by simp

lemma run_of_agree: "run_of b src m n \<Longrightarrow> run_of b src p n' \<Longrightarrow> k \<le> n \<Longrightarrow> k \<le> n' \<Longrightarrow> agree src m p k"
  by (simp add: run_of_def agree_def)

text \<open>A word whose first \<open>n\<close> bytes are one byte.\<close>

definition byte_word :: "nat \<Rightarrow> byte \<Rightarrow> 'a::len word \<Rightarrow> bool" where
  "byte_word n b w \<longleftrightarrow> (\<forall>k<8 * n. bit w k = bit b (k mod 8))"

lemma byte_word_low:
  assumes "byte_word n b w" "0 < n"
  shows "ucast w = b"
proof (rule bit_word_eqI)
  fix k assume "k < LENGTH(8)"
  then have k: "k < 8" "k < 8 * n" using assms(2) by simp_all
  then show "bit (ucast w :: byte) k = bit b k"
    using assms(1) by (simp add: byte_word_def bit_ucast_iff)
qed

lemma byte_word_shift:
  assumes "byte_word (Suc n) b w"
  shows "byte_word n b (drop_bit 8 w)"
  using assms by (simp add: byte_word_def bit_drop_bit_eq)

lemma byte_word_le_bytes: "byte_word n b w \<Longrightarrow> k < n \<Longrightarrow> le_bytes n w ! k = b"
proof -
  assume w: "byte_word n b w" and k: "k < n"
  have "ucast (drop_bit (8 * k) w) = b"
  proof (rule bit_word_eqI)
    fix j assume "j < LENGTH(8)"
    then have "j < 8" "8 * k + j < 8 * n" using k by auto
    then show "bit (ucast (drop_bit (8 * k) w) :: byte) j = bit b j"
      using w by (simp add: byte_word_def bit_ucast_iff bit_drop_bit_eq)
  qed
  then show ?thesis using k by (simp add: nth_le_bytes)
qed

text \<open>The test of the code for four equal bytes.\<close>

lemma repeat_test:
  assumes "w AND 0xFFFF = drop_bit 16 w" "w AND 0xFF = drop_bit 24 (w :: u32)"
  shows "byte_word 4 (ucast w) w"
proof -
  have m: "(0xFFFF :: u32) = mask 16" "(0xFF :: u32) = mask 8" by (simp_all add: mask_eq_exp_minus_1)
  have 16: "bit w k = bit w (k + 16)" if "k < 16" for k
    using arg_cong [OF assms(1), of "\<lambda>x. bit x k"] that by (simp add: m bit_and_iff bit_mask_iff bit_drop_bit_eq add.commute)
  have 24: "bit w k = bit w (k + 24)" if "k < 8" for k
    using arg_cong [OF assms(2), of "\<lambda>x. bit x k"] that by (simp add: m bit_and_iff bit_mask_iff bit_drop_bit_eq add.commute)
  have eq: "bit w k = bit w (k mod 8)" if k: "k < 32" for k
  proof -
    define j where "j = k mod 8"
    have j: "j < 8" by (simp add: j_def)
    have "k div 8 < 4" using k by auto
    then have "k div 8 \<in> {0, 1, 2, 3}" by auto
    moreover have "k = 8 * (k div 8) + j" by (simp add: j_def)
    ultimately have "k \<in> {j, j + 8, j + 16, j + 24}"
      by (elim insertE emptyE) simp_all
    then show ?thesis
      using 16 [of j] 16 [of "j + 8"] 24 [of j] j by (auto simp: j_def [symmetric] add.assoc)
  qed
  show ?thesis
    unfolding byte_word_def
  proof (intro allI impI)
    fix k :: nat assume k: "k < 8 * 4"
    have "k mod 8 < 8" by simp
    then show "bit w k = bit (ucast w :: byte) (k mod 8)"
      using eq [of k] k by (simp add: bit_ucast_iff)
  qed
qed

lemma byte_word_double:
  assumes "byte_word 4 b (w :: u32)"
  shows "byte_word 8 b (ucast w + push_bit 32 (ucast w) :: u64)"
proof -
  have "(ucast w :: u64) AND push_bit 32 (ucast w) = 0"
    by (rule bit_word_eqI) (auto simp: bit_and_iff bit_push_bit_iff bit_ucast_iff dest: bit_imp_le_length)
  then have sum: "(ucast w + push_bit 32 (ucast w) :: u64) = ucast w OR push_bit 32 (ucast w)"
    by (rule disjunctive_add_eq_or)
  show ?thesis
    unfolding byte_word_def sum
  proof (intro allI impI)
    fix k :: nat assume k: "k < 8 * 8"
    show "bit (ucast w OR push_bit 32 (ucast w) :: u64) k = bit b (k mod 8)"
    proof (cases "k < 32")
      case True
      then show ?thesis using assms k by (simp add: byte_word_def bit_or_iff bit_push_bit_iff bit_ucast_iff)
    next
      case False
      define j where "j = k - 32"
      then have "k = j + 32" "j < 32" using False k by simp_all
      moreover have "(j + 32) mod 8 = j mod 8" using mod_mult_self2 [of j 8 4] by simp
      ultimately show ?thesis
        using assms by (auto simp: byte_word_def bit_or_iff bit_push_bit_iff bit_ucast_iff dest: bit_imp_le_length)
    qed
  qed
qed

lemma pattern_tail_run:
  "byte_word n b w \<Longrightarrow> iEnd - ip \<le> n \<Longrightarrow> ip \<le> iEnd \<Longrightarrow>
   ip \<le> pattern_tail src ip iEnd w \<and> pattern_tail src ip iEnd w \<le> iEnd \<and> run_of b src ip (pattern_tail src ip iEnd w - ip)"
proof (induction src ip iEnd w arbitrary: n rule: pattern_tail.induct)
  case (1 src ip iEnd w)
  show ?case
  proof (cases "ip < iEnd \<and> src ! ip = ucast w")
    case True
    then obtain n' where n: "n = Suc n'" using 1(3) by (cases n) auto
    let ?r = "pattern_tail src (ip + 1) iEnd (drop_bit 8 w)"
    have IH: "ip + 1 \<le> ?r \<and> ?r \<le> iEnd \<and> run_of b src (ip + 1) (?r - (ip + 1))"
      using 1(1) [OF True byte_word_shift] 1(2-4) True n by auto
    have "run_of b src ip (ip + 1 - ip)" using True byte_word_low [OF 1(2)] n by (simp add: run_of_def)
    then have "run_of b src ip (?r - ip)" by (rule run_of_join [where q = "ip + 1"]) (use IH in simp_all)
    moreover have "pattern_tail src ip iEnd w = ?r" using True by (subst pattern_tail.simps) simp
    ultimately show ?thesis using IH by simp
  qed (use 1(4) in \<open>auto simp: pattern_tail.simps [of src ip] run_of_def\<close>)
qed

lemma common_run:
  assumes "byte_word 8 b w" "p + 8 \<le> length src"
  shows "run_of b src p (LZ4_NbCommonBytes (LZ4_read_ARCH src p XOR w))"
  unfolding run_of_def
proof (intro allI impI)
  fix k assume k: "k < LZ4_NbCommonBytes (LZ4_read_ARCH src p XOR w)"
  then have "k < 8" using NbCommonBytes_le order_less_le_trans by blast
  then show "src ! (p + k) = b"
    using NbCommonBytes_equal [OF k] byte_word_le_bytes [OF assms(1)] assms(2) by (simp add: bytes_read_ARCH)
qed

lemma word_run:
  assumes "byte_word 8 b w" "p + 8 \<le> length src" "LZ4_read_ARCH src p = w"
  shows "run_of b src p 8"
  using byte_word_le_bytes [OF assms(1)] bytes_read_ARCH [OF assms(2)] assms(3) by (auto simp: run_of_def)

lemma pattern_words_run:
  "byte_word 8 b w \<Longrightarrow> ip \<le> iEnd \<Longrightarrow> iEnd \<le> length src \<Longrightarrow>
   ip \<le> pattern_words src ip iEnd w \<and> pattern_words src ip iEnd w \<le> iEnd \<and> run_of b src ip (pattern_words src ip iEnd w - ip)"
proof (induction src ip iEnd w rule: pattern_words.induct)
  case (1 src ip iEnd w)
  let ?d = "LZ4_read_ARCH src ip XOR w"
  consider (tail) "\<not> ip + 7 < iEnd" | (diff) "ip + 7 < iEnd" "?d \<noteq> 0" | (word) "ip + 7 < iEnd" "?d = 0" by blast
  then show ?case
  proof cases
    case tail
    then show ?thesis using pattern_tail_run [OF 1(2)] 1(3) by (simp add: pattern_words.simps)
  next
    case diff
    then show ?thesis
      using common_run [OF 1(2), of ip src] NbCommonBytes_le [of ?d] 1(4) by (simp add: pattern_words.simps)
  next
    case word
    let ?r = "pattern_words src (ip + 8) iEnd w"
    have "run_of b src ip 8" using word_run [OF 1(2), of ip src] word 1(4) by (simp add: xor_0_iff)
    moreover have "ip + 8 \<le> ?r \<and> ?r \<le> iEnd \<and> run_of b src (ip + 8) (?r - (ip + 8))"
      using 1(1) [OF word(1) refl word(2) 1(2)] 1(4) word(1) by simp
    ultimately show ?thesis
      using word run_of_add [of b src ip 8 "?r - (ip + 8)"] by (simp add: pattern_words.simps [of src ip])
  qed
qed

lemma countPattern_run:
  assumes "byte_word 4 b pattern" "ip \<le> iEnd" "iEnd \<le> length src"
  shows "ip + LZ4HC_countPattern src ip iEnd pattern \<le> iEnd" "run_of b src ip (LZ4HC_countPattern src ip iEnd pattern)"
  using pattern_words_run [OF byte_word_double [OF assms(1)] assms(2,3)] by (simp_all add: LZ4HC_countPattern_def)

lemma read32_run:
  assumes "byte_word 4 b w" "p + 4 \<le> length src" "LZ4_read32 src p = w"
  shows "run_of b src p 4"
proof -
  have "le_bytes 4 w = slice p 4 src"
    using assms(2,3) by (auto simp: LZ4_read32_def le_bytes_le_word length_slice)
  then have "slice p 4 src ! k = b" if "k < 4" for k
    using byte_word_le_bytes [OF assms(1) that] by simp
  then show ?thesis using assms(2) by (simp add: run_of_def slice_def)
qed

lemma reverse_words_run:
  "byte_word 4 b w \<Longrightarrow> iLow \<le> ip \<Longrightarrow> ip \<le> length src \<Longrightarrow>
   iLow \<le> reverse_words src ip iLow w \<and> reverse_words src ip iLow w \<le> ip
     \<and> run_of b src (reverse_words src ip iLow w) (ip - reverse_words src ip iLow w)"
proof (induction src ip iLow w rule: reverse_words.induct)
  case (1 src ip iLow w)
  show ?case
  proof (cases "iLow + 4 \<le> ip \<and> LZ4_read32 src (ip - 4) = w")
    case True
    let ?r = "reverse_words src (ip - 4) iLow w"
    have "iLow + 4 \<le> ip" using True by blast
    then have pre: "iLow \<le> ip - 4" "ip - 4 \<le> length src" using 1(4) by linarith+
    have IH: "iLow \<le> ?r \<and> ?r \<le> ip - 4 \<and> run_of b src ?r (ip - 4 - ?r)"
      by (rule 1(1) [OF True 1(2) pre])
    have "run_of b src (ip - 4) (ip - (ip - 4))" using read32_run [OF 1(2), of "ip - 4" src] True 1(4) by simp
    then have "run_of b src ?r (ip - ?r)" by (rule run_of_join [rotated]) (use IH in simp_all)
    moreover have "reverse_words src ip iLow w = ?r"
      using True by (subst reverse_words.simps) simp
    moreover have "?r \<le> ip" using IH by linarith
    ultimately show ?thesis using IH by argo
  qed (use 1(3) in \<open>auto simp: reverse_words.simps [of src ip] run_of_def\<close>)
qed

lemma reverse_bytes_run:
  "\<forall>c\<in>set bs. c = b \<Longrightarrow> iLow \<le> ip \<Longrightarrow>
   iLow \<le> reverse_bytes src ip iLow bs \<and> reverse_bytes src ip iLow bs \<le> ip
     \<and> run_of b src (reverse_bytes src ip iLow bs) (ip - reverse_bytes src ip iLow bs)"
proof (induction src ip iLow bs rule: reverse_bytes.induct)
  case (2 src ip iLow c bs)
  show ?case
  proof (cases "iLow < ip \<and> src ! (ip - 1) = c")
    case True
    let ?r = "reverse_bytes src (ip - 1) iLow bs"
    have IH: "iLow \<le> ?r \<and> ?r \<le> ip - 1 \<and> run_of b src ?r (ip - 1 - ?r)"
      using 2(1) [OF True] 2(2) True by auto
    have "run_of b src (ip - 1) (ip - (ip - 1))" using True 2(2) by (simp add: run_of_def)
    then have "run_of b src ?r (ip - ?r)" by (rule run_of_join [rotated]) (use IH True in simp_all)
    moreover have "reverse_bytes src ip iLow (c # bs) = ?r" using True by simp
    moreover have "?r \<le> ip" using IH by linarith
    ultimately show ?thesis using IH by argo
  qed (use 2(3) in \<open>auto simp: run_of_def\<close>)
qed (simp add: run_of_def)

lemma reverseCountPattern_run:
  assumes "byte_word 4 b pattern" "iLow \<le> ip" "ip \<le> length src"
  shows "iLow + LZ4HC_reverseCountPattern src ip iLow pattern \<le> ip"
    "run_of b src (ip - LZ4HC_reverseCountPattern src ip iLow pattern) (LZ4HC_reverseCountPattern src ip iLow pattern)"
proof -
  let ?w = "reverse_words src ip iLow pattern"
  let ?r = "reverse_bytes src ?w iLow (rev (le_bytes 4 pattern))"
  have w: "iLow \<le> ?w" "?w \<le> ip" "run_of b src ?w (ip - ?w)" using reverse_words_run [OF assms] by simp_all
  have "\<forall>c\<in>set (rev (le_bytes 4 pattern)). c = b"
    using byte_word_le_bytes [OF assms(1)] by (auto simp: in_set_conv_nth)
  from reverse_bytes_run [OF this w(1)]
  have r: "iLow \<le> ?r" "?r \<le> ?w" "run_of b src ?r (?w - ?r)" by simp_all
  then have "run_of b src ?r (ip - ?r)" using run_of_add [of b src ?r "?w - ?r" "ip - ?w"] w by simp
  then show "iLow + LZ4HC_reverseCountPattern src ip iLow pattern \<le> ip"
    "run_of b src (ip - LZ4HC_reverseCountPattern src ip iLow pattern) (LZ4HC_reverseCountPattern src ip iLow pattern)"
    using r w by (simp_all add: LZ4HC_reverseCountPattern_def)
qed

section \<open>Tables\<close>

definition tables_at :: "LZ4HC_CCtx \<Rightarrow> nat \<Rightarrow> bool" where
  "tables_at hc4 p \<longleftrightarrow> hc_dictLimit hc4 = 0x10000 \<and> hc_lowLimit hc4 = 0x10000
     \<and> unat (hc_nextToUpdate hc4) \<le> p + 0x10000 \<and> (\<forall>h. unat (hc_hashTable hc4 h) < p + 0x10000)"

lemma tables_at_mono: "tables_at hc4 p \<Longrightarrow> p \<le> q \<Longrightarrow> tables_at hc4 q"
  unfolding tables_at_def by (meson add_le_mono1 dual_order.trans order_less_le_trans)

lemma unat_index_of: "p < 2 ^ 31 \<Longrightarrow> unat (index_of p) = p + 0x10000"
  unfolding index_of_def by (simp only: unsigned_of_nat take_bit_nat_eq_self_iff) (simp add: take_bit_nat_eq_self)

lemma insert_loop_tables:
  "\<forall>h. unat (hc_hashTable hc4 h) < unat target \<Longrightarrow>
   (\<forall>h. unat (hc_hashTable (insert_loop src idx target hc4) h) < unat target)
     \<and> hc_dictLimit (insert_loop src idx target hc4) = hc_dictLimit hc4
     \<and> hc_lowLimit (insert_loop src idx target hc4) = hc_lowLimit hc4"
proof (induction src idx target hc4 rule: insert_loop.induct)
  case (1 src idx target hc4)
  show ?case
  proof (cases "idx < target")
    case True
    have "\<forall>h. unat (hc_hashTable (insert_position src idx hc4) h) < unat target"
      using 1(2) True by (simp add: insert_position_def Let_def word_less_nat_alt)
    note 1(1) [OF True this]
    moreover have "insert_loop src idx target hc4 = insert_loop src (idx + 1) target (insert_position src idx hc4)"
      using True by (simp add: insert_loop.simps [of src idx])
    ultimately show ?thesis by (simp add: insert_position_def Let_def)
  qed (use 1(2) in \<open>simp add: insert_loop.simps\<close>)
qed

lemma Insert_tables:
  assumes "tables_at hc4 p" "p \<le> ip" "ip < 2 ^ 31"
  shows "tables_at (LZ4HC_Insert src ip hc4) ip"
proof -
  have "\<forall>h. unat (hc_hashTable hc4 h) < unat (index_of ip)"
    using tables_at_mono [OF assms(1,2)] assms(3) by (simp add: tables_at_def unat_index_of)
  from insert_loop_tables [OF this] show ?thesis
    using assms(1,3) by (simp add: LZ4HC_Insert_def tables_at_def Let_def unat_index_of)
qed

section \<open>The search\<close>

definition match_found :: "byte list \<Rightarrow> nat \<Rightarrow> nat \<Rightarrow> nat \<Rightarrow> nat \<Rightarrow> bool" where
  "match_found src ip lim m n \<longleftrightarrow> m < ip \<and> ip - m \<le> 65535 \<and> 4 \<le> n \<and> ip + n \<le> lim \<and> agree src m ip n"

definition search_ok :: "byte list \<Rightarrow> nat \<Rightarrow> nat \<Rightarrow> nat \<Rightarrow> search \<Rightarrow> bool" where
  "search_ok src ip lim minLen st \<longleftrightarrow>
     unat (se_matchIndex st) < ip + 0x10000
     \<and> minLen \<le> se_longest st \<and> (minLen < se_longest st \<longrightarrow> match_found src ip lim (ptr_of (se_matchpos st)) (se_longest st))
     \<and> (se_repeat st = rep_confirmed \<longrightarrow> (\<exists>b. byte_word 4 b (LZ4_read32 src ip)
          \<and> run_of b src ip (se_srcPatternLength st) \<and> ip + se_srcPatternLength st \<le> lim \<and> 4 \<le> se_srcPatternLength st))"

definition in_window :: "nat \<Rightarrow> u32 \<Rightarrow> bool" where
  "in_window ip i \<longleftrightarrow> 0x10000 \<le> unat i \<and> ip + 0x10000 - unat i \<le> 65535"

lemma go_back_ok:
  assumes "search_ok src ip lim minLen st" "d \<le> se_matchIndex st"
  shows "search_ok src ip lim minLen (go_back d st)"
proof -
  have "unat (se_matchIndex st - d) \<le> unat (se_matchIndex st)" using assms(2) by (simp add: unat_sub)
  then show ?thesis using assms(1) unfolding search_ok_def go_back_def by (simp add: order_le_less_trans)
qed

lemma lowest_window:
  assumes "ip < 2 ^ 31" "(if 0x10000 + 0x10000 > index_of ip then 0x10000 else index_of ip - 65535) \<le> i"
  shows "in_window ip i"
proof (cases "0x10000 + 0x10000 > index_of ip")
  case True
  then show ?thesis using assms by (simp add: in_window_def word_le_nat_alt word_less_nat_alt unat_index_of)
next
  case False
  then have big: "65536 \<le> ip" using assms(1) by (simp add: word_less_nat_alt unat_index_of)
  have "unat (index_of ip - 65535) = ip + 0x10000 - 65535"
    using unat_sub [of 65535 "index_of ip"] assms(1) by (simp add: word_le_nat_alt unat_index_of)
  then show ?thesis using assms False big by (simp add: in_window_def word_le_nat_alt)
qed

lemma try_match_ok:
  assumes st: "search_ok src ip lim minLen st" "in_window ip (se_matchIndex st)"
    and lim: "ip + 4 \<le> lim" "lim \<le> length src"
    and r: "try_match src hc4 ip lim favor st = (ml, st')"
  shows "search_ok src ip lim minLen st'" "se_matchIndex st' = se_matchIndex st"
    "se_matchChainPos st' = se_matchChainPos st"
proof -
  let ?m = "ptr_of (se_matchIndex st)"
  have m: "?m < ip" "ip - ?m \<le> 65535"
    using st lim by (auto simp: search_ok_def in_window_def ptr_of_def)
  have f: "match_found src ip lim ?m (4 + LZ4_count src (ip + 4) (?m + 4) lim)" if "LZ4_read32 src ?m = LZ4_read32 src ip"
  proof -
    have "agree src ?m ip 4"
      using read_agree [where 'a = 32, of ?m 4 src ip] that m lim by (simp add: LZ4_read32_def)
    moreover have "agree src (?m + 4) (ip + 4) (LZ4_count src (ip + 4) (?m + 4) lim)"
      "ip + 4 + LZ4_count src (ip + 4) (?m + 4) lim \<le> lim"
      using count_agree [of "?m + 4" "ip + 4" lim src] m lim by simp_all
    ultimately show ?thesis using m agree_extend by (simp add: match_found_def)
  qed
  show "search_ok src ip lim minLen st'"
    using r st(1) f by (auto simp: try_match_def Let_def search_ok_def split: if_splits)
  show "se_matchIndex st' = se_matchIndex st" "se_matchChainPos st' = se_matchChainPos st"
    using r by (auto simp: try_match_def Let_def split: if_splits)
qed

lemma reverseCountPattern_low: "ip < iLow \<Longrightarrow> LZ4HC_reverseCountPattern src ip iLow pattern = 0"
proof -
  assume low: "ip < iLow"
  have "reverse_words src ip iLow pattern = ip" using low by (subst reverse_words.simps) simp
  moreover have "reverse_bytes src ip iLow bs = ip" for bs using low by (cases bs) simp_all
  ultimately show ?thesis by (simp add: LZ4HC_reverseCountPattern_def)
qed

lemma swap_chain_ok:
  assumes "search_ok src ip lim minLen st"
  shows "case swap_chain hc4 ip ml st of
      Inl (Break_search st') \<Rightarrow> search_ok src ip lim minLen st'
    | Inl (Next_match st') \<Rightarrow> search_ok src ip lim minLen st'
    | Inr st' \<Rightarrow> search_ok src ip lim minLen st' \<and> se_matchIndex st' = se_matchIndex st"
proof -
  have st: "search_ok src ip lim minLen (st\<lparr>se_matchChainPos := c\<rparr>)" for c
    using assms by (simp add: search_ok_def)
  show ?thesis
    using st assms go_back_ok [OF st]
    by (auto simp: swap_chain_def Let_def not_less split: prod.split)
qed

lemma confirm_repeat_ok:
  assumes "search_ok src ip lim minLen st" "ip + 4 \<le> lim" "lim \<le> length src"
  shows "search_ok src ip lim minLen (confirm_repeat src ip lim st)"
    "se_matchIndex (confirm_repeat src ip lim st) = se_matchIndex st"
proof -
  let ?p = "LZ4_read32 src ip" and ?n = "LZ4HC_countPattern src (ip + 4) lim (LZ4_read32 src ip)"
  have "\<exists>b. byte_word 4 b ?p \<and> run_of b src ip (?n + 4) \<and> ip + (?n + 4) \<le> lim"
    if "?p AND 0xFFFF = drop_bit 16 ?p" "?p AND 0xFF = drop_bit 24 ?p"
  proof -
    have w: "byte_word 4 (ucast ?p) ?p" by (rule repeat_test [OF that])
    have "run_of (ucast ?p) src ip 4" by (rule read32_run [OF w]) (use assms in simp_all)
    then have "run_of (ucast ?p) src ip (4 + ?n)"
      using countPattern_run(2) [OF w assms(2,3)] by (simp add: run_of_add)
    then show ?thesis
      using w countPattern_run(1) [OF w assms(2,3)] by (intro exI [of _ "ucast ?p"]) (simp add: add.commute)
  qed
  then show "search_ok src ip lim minLen (confirm_repeat src ip lim st)"
    using assms(1) by (simp add: confirm_repeat_def Let_def search_ok_def)
  show "se_matchIndex (confirm_repeat src ip lim st) = se_matchIndex st"
    by (simp add: confirm_repeat_def Let_def)
qed

lemma follow_pattern_ok:
  assumes st: "search_ok src ip lim minLen st" "se_repeat st = rep_confirmed" and hc4: "hc_dictLimit hc4 = 0x10000"
    and cand: "0x10000 \<le> se_matchIndex st - 1" "0x10000 \<le> unat (se_matchIndex st)"
      "LZ4_read32 src (ptr_of (se_matchIndex st - 1)) = LZ4_read32 src ip"
    and lim: "ip + 4 \<le> lim" "lim \<le> length src" "length src < 2 ^ 31"
  shows "case follow_pattern src hc4 ip lim st of
      Break_search st' \<Rightarrow> search_ok src ip lim minLen st' | Next_match st' \<Rightarrow> search_ok src ip lim minLen st'"
proof -
  let ?p = "LZ4_read32 src ip" and ?i = "se_matchIndex st - 1" and ?s = "se_srcPatternLength st"
  define q where "q = ptr_of ?i"
  define fwd where "fwd = LZ4HC_countPattern src (q + 4) lim ?p + 4"
  define low where "low = (if 65535 \<ge> ip then 0 else ip - 65535)"
  define bk where "bk = LZ4HC_reverseCountPattern src q low ?p"
  define j where "j = ?i - of_nat bk"
  obtain b where b: "byte_word 4 b ?p" "run_of b src ip ?s" "ip + ?s \<le> lim" "4 \<le> ?s"
    using st by (auto simp: search_ok_def)
  have "1 \<le> se_matchIndex st" using cand(2) by (simp add: word_le_nat_alt)
  then have i: "unat ?i = unat (se_matchIndex st) - 1" by (simp add: unat_sub)
  have q: "unat ?i = q + 0x10000" "q < ip"
    using cand(1,2) i st(1) by (auto simp: q_def ptr_of_def search_ok_def word_le_nat_alt)
  have fwd: "run_of b src q fwd" "q + fwd \<le> lim" "4 \<le> fwd"
  proof -
    have pre: "q + 4 \<le> lim" using q lim by simp
    have "run_of b src q 4" by (rule read32_run [OF b(1)]) (use q lim cand(3) in \<open>simp_all add: q_def\<close>)
    then have "run_of b src q (4 + LZ4HC_countPattern src (q + 4) lim ?p)"
      using countPattern_run(2) [OF b(1) pre lim(2)] run_of_add by blast
    then show "run_of b src q fwd" by (simp add: fwd_def add.commute)
    show "q + fwd \<le> lim" "4 \<le> fwd"
      using countPattern_run(1) [OF b(1) pre lim(2)] by (simp_all add: fwd_def)
  qed
  have bk: "bk \<le> q" "run_of b src (q - bk) bk"
    using reverseCountPattern_run [OF b(1), of low q src] reverseCountPattern_low [of q low src ?p] q lim
    by (cases "low \<le> q"; simp add: bk_def run_of_def)+
  have seg: "run_of b src (q - bk) (bk + fwd)" using fwd(1) bk by (simp add: run_of_add)
  have small: "unat (of_nat n :: u32) = n" if "n < 2 ^ 32" for n
    using that by (simp add: unsigned_of_nat take_bit_nat_eq_self)
  have j: "unat j = q - bk + 0x10000"
    using q bk lim by (simp add: j_def unat_sub small word_le_nat_alt)
  have jp: "ptr_of j = q - bk" by (simp add: ptr_of_def j)
  let ?c1 = "bk + fwd \<ge> ?s \<and> fwd \<le> ?s"
  let ?st = "st\<lparr>se_matchIndex := j\<rparr>" and ?ml = "min (bk + fwd) ?s"
  have st': "search_ok src ip lim minLen ?st"
    using st(1) j q by (auto simp: search_ok_def)
  have st'': "search_ok src ip lim minLen (?st\<lparr>se_longest := ?ml, se_matchpos := j\<rparr>)"
    if "se_longest st < ?ml" "\<not> ip - (q - bk) > 65535"
  proof -
    have "agree src (q - bk) ip ?ml" by (rule run_of_agree [OF seg b(2)]) simp_all
    moreover have "q - bk < ip" "ip + ?ml \<le> lim" "4 \<le> ?ml" using q(2) b(3,4) fwd(3) by linarith+
    ultimately have "match_found src ip lim (ptr_of j) ?ml" using that by (simp add: match_found_def jp)
    then show ?thesis using st' that by (simp add: search_ok_def)
  qed
  have r: "follow_pattern src hc4 ip lim st =
      (if ?c1 then Next_match (st\<lparr>se_matchIndex := ?i + of_nat fwd - of_nat ?s\<rparr>)
       else if se_longest st < ?ml \<and> ip - (q - bk) > 65535 then Break_search ?st
       else let st' = (if se_longest st < ?ml then ?st\<lparr>se_longest := ?ml, se_matchpos := j\<rparr> else ?st)
            in if ucast (DELTANEXTU16 hc4 j) > j then Break_search st'
               else Next_match (go_back (ucast (DELTANEXTU16 hc4 j)) st'))"
  proof -
    have low': "(if ptr_of (hc_dictLimit hc4) + 65535 \<ge> ip then ptr_of (hc_dictLimit hc4) else ip - 65535) = low"
      by (simp add: hc4 ptr_of_def low_def)
    show ?thesis
      unfolding follow_pattern_def Let_def low' q_def [symmetric] fwd_def [symmetric] bk_def [symmetric]
        j_def [symmetric] by (simp add: jp add.commute)
  qed
  show ?thesis
  proof (cases ?c1)
    case True
    have "unat (?i + of_nat fwd) = q + 0x10000 + fwd"
      using q fwd lim by (simp add: unat_word_ariths small)
    moreover have "?s \<le> q + 0x10000 + fwd" using True bk by simp
    ultimately have "unat (?i + of_nat fwd - of_nat ?s) = q + 0x10000 + fwd - ?s"
      using b lim by (simp add: unat_sub small word_le_nat_alt)
    then show ?thesis using True st(1) q r by (auto simp: search_ok_def)
  next
    case False
    then show ?thesis
      using r st' st'' go_back_ok [OF st'] go_back_ok [OF st'']
      by (auto simp: Let_def not_less)
  qed
qed

lemma follow_chain_ok:
  assumes "search_ok src ip lim minLen st" "0x10000 \<le> unat (se_matchIndex st)"
  shows "search_ok src ip lim minLen (go_back (ucast (d :: u16)) st)"
proof (rule go_back_ok [OF assms(1)])
  have "unat (ucast d :: u32) < 2 ^ 16"
    using unsigned_less [of d, where ?'a = nat] by (simp add: unsigned_ucast_eq take_bit_nat_eq_self)
  then show "ucast d \<le> se_matchIndex st" using assms(2) by (simp add: word_le_nat_alt)
qed

lemma search_turn_ok:
  assumes st: "search_ok src ip lim minLen st" "in_window ip (se_matchIndex st)" and hc4: "hc_dictLimit hc4 = 0x10000"
    and lim: "ip + 4 \<le> lim" "lim \<le> length src" "length src < 2 ^ 31"
  shows "case search_turn src hc4 ip lim favor st of
      Break_search st' \<Rightarrow> search_ok src ip lim minLen st' | Next_match st' \<Rightarrow> search_ok src ip lim minLen st'"
proof -
  obtain ml st1 where t: "try_match src hc4 ip lim favor st = (ml, st1)" by fastforce
  note t1 = try_match_ok [OF st lim(1,2) t]
  note s = swap_chain_ok [OF t1(1), of hc4 ml]
  show ?thesis
  proof (cases "swap_chain hc4 ip ml st1")
    case (Inl step)
    then show ?thesis using s t by (cases step) (simp_all add: search_turn_def)
  next
    case (Inr st2)
    let ?a = "DELTANEXTU16 hc4 (se_matchIndex st2) = 1 \<and> se_matchChainPos st2 = 0"
    define st3 where "st3 = (if ?a then confirm_repeat src ip lim st2 else st2)"
    have ok: "search_ok src ip lim minLen st3" "se_matchIndex st3 = se_matchIndex st"
      using s Inr t1(2) confirm_repeat_ok [OF _ lim(1,2), of minLen st2] by (auto simp: st3_def)
    have low: "0x10000 \<le> unat (se_matchIndex st3)" using st(2) ok(2) by (simp add: in_window_def)
    have r: "search_turn src hc4 ip lim favor st =
        (if ?a \<and> se_repeat st3 = rep_confirmed \<and> se_matchIndex st3 - 1 \<ge> hc_dictLimit hc4
            \<and> LZ4_read32 src (ptr_of (se_matchIndex st3 - 1)) = LZ4_read32 src ip
         then follow_pattern src hc4 ip lim st3
         else Next_match (go_back (ucast (DELTANEXTU16 hc4 (se_matchIndex st3 + of_nat (se_matchChainPos st3)))) st3))"
      by (simp only: search_turn_def t Inr Let_def sum.case prod.case st3_def)
    show ?thesis
      using follow_pattern_ok [OF ok(1) _ hc4 _ low _ lim] follow_chain_ok [OF ok(1) low] hc4
      by (auto simp: r)
  qed
qed

lemma search_loop_ok:
  assumes "ip < 2 ^ 31" "hc_dictLimit hc4 = 0x10000" "ip + 4 \<le> lim" "lim \<le> length src" "length src < 2 ^ 31"
    and "lowest = (if 0x10000 + 0x10000 > index_of ip then 0x10000 else index_of ip - 65535)"
  shows "search_ok src ip lim minLen st \<Longrightarrow> search_ok src ip lim minLen (search_loop src hc4 ip lim favor lowest n st)"
proof (induction n arbitrary: st)
  case (Suc n)
  show ?case
  proof (cases "lowest \<le> se_matchIndex st")
    case True
    then have "in_window ip (se_matchIndex st)" using lowest_window [OF assms(1)] assms(6) by simp
    from search_turn_ok [OF Suc.prems this assms(2-5), of favor] show ?thesis
      using True Suc.IH by (auto split: search_step.splits)
  qed (use Suc.prems in simp)
qed simp

text \<open>The match finder at a position that is not before the last one.\<close>

lemma FindLongerMatch_ok:
  assumes hc4: "tables_at ctx p" "p \<le> ip" and lim: "ip + 4 \<le> lim" "lim \<le> length src" "length src < 2 ^ 31"
    and r: "LZ4HC_FindLongerMatch src ctx ip lim minLen n favor = (ma, ctx')"
  shows "tables_at ctx' ip" "ma_len ma = 0 \<or> match_found src ip lim (ip - ma_off ma) (ma_len ma) \<and> 0 < ma_off ma \<and> ma_off ma \<le> ip"
proof -
  let ?ctx = "LZ4HC_Insert src ip ctx"
  have ip: "ip < 2 ^ 31" using lim by simp
  note t = Insert_tables [OF hc4 ip, of src]
  define lowest where "lowest = (if 0x10000 + 0x10000 > index_of ip then 0x10000 else index_of ip - 65535)"
  let ?st = "\<lparr>se_matchIndex = hc_hashTable ?ctx (LZ4HC_hashPtr src ip), se_longest = minLen, se_matchpos = 0,
             se_matchChainPos = 0, se_repeat = rep_untested, se_srcPatternLength = 0\<rparr>"
  define st' where "st' = search_loop src ?ctx ip lim favor lowest n ?st"
  have d: "hc_dictLimit ?ctx = 0x10000" using t by (simp add: tables_at_def)
  have "search_ok src ip lim minLen ?st" using t by (simp add: search_ok_def tables_at_def)
  then have st': "search_ok src ip lim minLen st'"
    unfolding st'_def by (rule search_loop_ok [OF ip d lim lowest_def])
  have w: "LZ4HC_InsertAndGetWiderMatch src ctx ip lim minLen n favor = ((se_longest st', se_matchpos st'), ?ctx)"
    using hc4(1) by (simp add: LZ4HC_InsertAndGetWiderMatch_def Let_def tables_at_def st'_def lowest_def)
  have ctx': "ctx' = ?ctx" using r w by (auto simp: LZ4HC_FindLongerMatch_def Let_def split: if_splits)
  then show "tables_at ctx' ip" using t by simp
  show "ma_len ma = 0 \<or> match_found src ip lim (ip - ma_off ma) (ma_len ma) \<and> 0 < ma_off ma \<and> ma_off ma \<le> ip"
  proof (cases "se_longest st' \<le> minLen")
    case True
    then show ?thesis using r w by (auto simp: LZ4HC_FindLongerMatch_def Let_def)
  next
    case False
    let ?m = "ptr_of (se_matchpos st')" and ?len = "if favor \<and> se_longest st' > 18 \<and> se_longest st' \<le> 36 then 18 else se_longest st'"
    have "match_found src ip lim ?m (se_longest st')" using st' False by (simp add: search_ok_def)
    then have f: "match_found src ip lim ?m ?len" by (auto simp: match_found_def elim: agree_le)
    have ma: "ma = \<lparr>ma_off = ip - ?m, ma_len = ?len\<rparr>"
      using r w False by (simp add: LZ4HC_FindLongerMatch_def Let_def split: if_splits)
    have "?m < ip" using f by (simp add: match_found_def)
    then show ?thesis using f by (simp add: ma)
  qed
qed

end
