(* ===== verification/Lz4hc_Encode.thy ===== *)
theory Lz4hc_Encode
  imports Lz4hc_Optimal Lz4hc_Search Lz4_Correct
begin

text \<open>
  Encoding a sequence appends its encoding in the block format to the output and stays within the buffer: when the
  output is not limited because of a bound on what has been written, by 256 bytes for 255 of the source, otherwise
  because of the tests of the code. The 8-byte copies of literals may write beyond their end, and that is covered.
\<close>

section \<open>Lengths and tokens\<close>

lemma put_run_eq: "put_run n = replicate (n div 255) 255 @ [of_nat (n mod 255)]"
proof (induction n rule: put_run.induct)
  case (1 n)
  show ?case
  proof (cases "n \<ge> 255")
    case True
    then have "n div 255 = Suc ((n - 255) div 255)" "n mod 255 = (n - 255) mod 255"
      by (simp_all add: le_div_geq le_mod_geq)
    then show ?thesis using 1 [OF True] True by (subst put_run.simps) simp
  qed (subst put_run.simps, simp)
qed

lemma put_match_run_eq: "put_match_run n = put_run n"
proof (induction n rule: put_match_run.induct)
  case (1 n)
  consider (two) "n \<ge> 510" | (one) "n < 510" "n \<ge> 255" | (none) "n < 255" by linarith
  then show ?case
  proof cases
    case two
    then have "put_run n = 255 # 255 # put_run (n - 510)"
      by (subst put_run.simps, subst put_run.simps) simp
    then show ?thesis using 1 [OF two] two by (subst put_match_run.simps) simp
  next
    case one
    then have "put_run n = [255, of_nat (n - 255)]"
      by (subst put_run.simps, subst put_run.simps) (simp del: of_nat_diff)
    then show ?thesis using one by (subst put_match_run.simps) (simp del: of_nat_diff)
  next
    case none
    then show ?thesis by (subst put_match_run.simps, subst put_run.simps) simp
  qed
qed

lemma put_run_length: "(if n \<ge> 15 then put_run (n - 15) else []) = encode_length n"
  unfolding encode_length_def put_run_eq by auto

lemma put_match_run_length: "(if n \<ge> 15 then put_match_run (n - 15) else []) = encode_length n"
  unfolding put_match_run_eq by (rule put_run_length)

lemma token_sum:
  "(if l \<ge> 15 then 0xF0 else of_nat (16 * l)) + (if m \<ge> 15 then 15 else of_nat m) = encode_token l m"
proof -
  have "(if l \<ge> 15 then 0xF0 else of_nat (16 * l) :: byte) = of_nat (16 * min 15 l)"
    "(if m \<ge> 15 then 15 else of_nat m :: byte) = of_nat (min 15 m)"
    by (simp_all add: min_def)
  then show ?thesis unfolding encode_token_def by (simp only: of_nat_add)
qed

lemma length_encode_length: "length (encode_length n) = (if n \<ge> 15 then 1 + (n - 15) div 255 else 0)"
  by (simp add: encode_length_def)

lemma encode_length_bound: "length (encode_length n) \<le> n div 255 + 1" "n < 15 \<Longrightarrow> encode_length n = []"
  using div_le_mono [of "n - 15" n 255] by (simp_all add: length_encode_length encode_length_def)

lemma encode_length_255: "255 * length (encode_length n) \<le> (if n \<ge> 15 then n + 240 else 0)"
proof (cases "n \<ge> 15")
  case True
  have "255 * ((n - 15) div 255) \<le> n - 15" by (rule times_div_less_eq_dividend)
  then show ?thesis using True by (simp add: length_encode_length)
qed (simp add: length_encode_length)

section \<open>Copies\<close>

lemma wildCopy_literals_strict:
  "d < e \<Longrightarrow> e + 7 \<le> length b \<Longrightarrow> e - d + 7 \<le> length s \<Longrightarrow>
   \<exists>b'. wildCopy_literals d s e b = Some b' \<and> length b' = length b \<and> take e b' = take d b @ take (e - d) s"
proof (induction d s e b rule: wildCopy_literals.induct)
  case (1 d s e b)
  let ?b = "overwrite d (take 8 s) b"
  have p: "peek 8 s = Some (take 8 s)" "store d (take 8 s) b = Some ?b" "length (take 8 s) = 8"
    using 1(2-4) by (simp_all add: peek_def store_def)
  have t: "take (d + 8) ?b = take d b @ take 8 s"
    using take_overwrite [of d b "take 8 s"] p(3) 1(2,3) by simp
  have len: "length ?b = length b" using 1(2-4) by (intro length_overwrite) simp
  show ?case
  proof (cases "d + 8 < e")
    case True
    have "e + 7 \<le> length ?b" "e - (d + 8) + 7 \<le> length (drop 8 s)" using 1(3,4) True len by simp_all
    from 1(1) [OF p(1,2) True True this]
    obtain b' where "wildCopy_literals (d + 8) (drop 8 s) e ?b = Some b'" "length b' = length ?b"
      "take e b' = take (d + 8) ?b @ take (e - (d + 8)) (drop 8 s)" by auto
    moreover have "take (e - d) s = take 8 s @ take (e - (d + 8)) (drop 8 s)"
      using True take_add [of 8 "e - (d + 8)" s] by simp
    ultimately show ?thesis using p t len True by (simp add: wildCopy_literals.simps [of d])
  next
    case False
    have "take e ?b = take e (take (d + 8) ?b)" using False by simp
    also have "\<dots> = take d b @ take (e - d) s"
    proof -
      have "e - d \<le> 8" using False by simp
      then show ?thesis using t 1(2,3) by (simp add: min_def)
    qed
    finally show ?thesis using p len False by (simp add: wildCopy_literals.simps [of d])
  qed
qed

text \<open>The whole copy, with room as the compressor has it.\<close>

lemma copy_literals:
  assumes "d + 8 \<le> length b" "n = 0 \<or> d + n + 7 \<le> length b" "n + 8 \<le> length s"
  shows "\<exists>b'. wildCopy_literals d s (d + n) b = Some b' \<and> length b' = length b \<and> take (d + n) b' = take d b @ take n s"
proof (cases "n = 0")
  case True
  then show ?thesis using wildCopy_literals_state [of d d b s] assms by simp
next
  case False
  then show ?thesis using wildCopy_literals_strict [of d "d + n" b s] assms by simp
qed

section \<open>What has been encoded\<close>

lemma spec_decode_snoc: "spec_decode (seqs @ [(lits, off, n)]) out = spec_match off n (spec_decode seqs out @ lits)"
  by (induction seqs out rule: spec_decode.induct) auto

lemma seqs_ok_snoc:
  "seqs_ok (seqs @ [(lits, off, n)]) (length out) \<longleftrightarrow> seqs_ok seqs (length out)
     \<and> 0 < off \<and> off < 65536 \<and> off \<le> length (spec_decode seqs out) + length lits \<and> 4 \<le> n"
proof (induction seqs out rule: spec_decode.induct)
  case (2 lits' off' n' seqs out)
  have "length out + length lits' + n' = length (spec_match off' n' (out @ lits'))"
    by (simp add: length_spec_match)
  then show ?case using 2 by simp
qed auto

lemma end_ok_snoc: "end_ok (seqs @ [(lits, off, n)]) last' \<longleftrightarrow> 12 \<le> n + length last' \<and> 5 \<le> length last'"
proof (induction seqs)
  case (Cons s seqs)
  then show ?case by (cases "seqs @ [(lits, off, n)]") auto
qed simp

lemma spec_match_source:
  "agree src (ip - off) ip n \<Longrightarrow> 0 < off \<Longrightarrow> off \<le> ip \<Longrightarrow> ip + n \<le> length src \<Longrightarrow>
   spec_match off n (take ip src) = take (ip + n) src"
proof (induction n arbitrary: ip)
  case (Suc n)
  have "src ! (ip - off) = src ! ip" using Suc.prems(1) by (auto simp: agree_def dest: spec [of _ 0])
  then have "take ip src @ [take ip src ! (length (take ip src) - off)] = take (Suc ip) src"
    using Suc.prems(2-4) by (simp add: take_Suc_conv_app_nth min_def)
  moreover have "agree src (Suc ip - off) (Suc ip) n"
    using Suc.prems(1,3) agree_add [of src "ip - off" ip 1 n] by (simp add: Suc_diff_le)
  ultimately show ?case using Suc.IH [of "Suc ip"] Suc.prems(2-4) by simp
qed simp

text \<open>Whether the buffer is large enough, or where its limit is.\<close>

definition room_ok :: "byte list \<Rightarrow> bool \<Rightarrow> int \<Rightarrow> nat \<Rightarrow> bool" where
  "room_ok src limit oend cap \<longleftrightarrow> (if limit then oend \<le> int cap else length src + length src div 255 + 16 \<le> cap)"

definition out_ok :: "byte list \<Rightarrow> bool \<Rightarrow> nat \<Rightarrow> hc_out \<Rightarrow> bool" where
  "out_ok src limit cap out \<longleftrightarrow>
     length (ho_dst out) = cap \<and> ho_op out \<le> cap \<and> ho_anchor out \<le> length src
     \<and> (\<not> limit \<longrightarrow> 255 * ho_op out \<le> 256 * ho_anchor out)
     \<and> (\<exists>seqs. take (ho_op out) (ho_dst out) = concat (map encode_seq seqs) \<and> seqs_ok seqs 0
          \<and> end_ok seqs (drop (ho_anchor out) src) \<and> spec_decode seqs [] = take (ho_anchor out) src)"

lemma overwrite_token:
  assumes "take k b = xs @ c # ys" "k \<le> length b" "op = length xs"
  shows "take k (overwrite op [c'] b) = xs @ c' # ys" "length (overwrite op [c'] b) = length b"
proof -
  have k: "k = length (xs @ c' # ys)" using arg_cong [OF assms(1), of length] assms(2) by simp
  have "b = xs @ c # ys @ drop k b" using assms append_take_drop_id [of k b] by simp
  then have "overwrite op [c'] b = overwrite op [c'] (xs @ c # ys @ drop k b)" by simp
  also have "\<dots> = (xs @ c' # ys) @ drop k b" by (simp add: overwrite_def assms(3))
  finally have "overwrite op [c'] b = (xs @ c' # ys) @ drop k b" .
  then show "take k (overwrite op [c'] b) = xs @ c' # ys" by (simp only: append_eq_conv_conj [symmetric] k take_append) simp
  show "length (overwrite op [c'] b) = length b" using k assms(2,3) by (intro length_overwrite) simp
qed

text \<open>The stores one after another, with what is needed of the room for each.\<close>

lemma store_take:
  assumes "op \<le> length b" "op + length xs \<le> length b"
  shows "\<exists>b'. store op xs b = Some b' \<and> length b' = length b \<and> take (op + length xs) b' = take op b @ xs"
  using assms by (auto simp: store_def length_overwrite take_overwrite)

lemma bound_255: "255 * x \<le> 256 * n + 255 * 16 \<Longrightarrow> x \<le> n + n div 255 + (16 :: nat)"
  using div_mult_mod_eq [of n 255] mod_less_divisor [of 255 n] by linarith

lemma encode_room:
  fixes op anchor l ml :: nat
  assumes room: "room_ok src limit oend cap" and op: "\<not> limit \<longrightarrow> 255 * op \<le> 256 * anchor"
    and src: "anchor + l + 12 \<le> length src" "anchor + l + ml + 5 \<le> length src" "4 \<le> ml"
    and test: "limit \<Longrightarrow> int (op + 1 + l div 255 + l + 8) \<le> oend"
  defines "lits \<equiv> op + 1 + length (encode_length l)"
  defines "offset \<equiv> lits + l"
  shows "lits + 8 \<le> cap" "l = 0 \<or> lits + l + 7 \<le> cap" "offset + 2 \<le> cap"
    "(limit \<Longrightarrow> int (offset + 2 + (ml - 4) div 255 + 6) \<le> oend) \<Longrightarrow> offset + 2 + length (encode_length (ml - 4)) \<le> cap"
    "\<not> limit \<Longrightarrow> 255 * (offset + 2 + length (encode_length (ml - 4))) \<le> 256 * (anchor + l + ml)"
proof -
  note e = encode_length_bound [of l] encode_length_bound [of "ml - 4"]
  have e1: "255 * length (encode_length l) \<le> (if l \<ge> 15 then l + 240 else 0)" by (rule encode_length_255)
  have e2: "255 * length (encode_length (ml - 4)) \<le> (if ml - 4 \<ge> 15 then ml - 4 + 240 else 0)" by (rule encode_length_255)
  show last': "255 * (offset + 2 + length (encode_length (ml - 4))) \<le> 256 * (anchor + l + ml)" if "\<not> limit"
  proof -
    have "255 * op \<le> 256 * anchor" using op that by simp
    moreover have "255 * (3 + length (encode_length l) + length (encode_length (ml - 4))) \<le> l + 256 * ml"
      using e1 e2 src(3) by (auto split: if_splits)
    ultimately show ?thesis by (simp add: lits_def offset_def)
  qed
  have free: "255 * (lits + l + 8) \<le> 256 * length src" if "\<not> limit"
  proof -
    have "255 * op \<le> 256 * anchor" using op that by simp
    moreover have "255 * length (encode_length l) \<le> l + 240" using e1 by (auto split: if_splits)
    ultimately show ?thesis using src(1) by (simp add: lits_def)
  qed
  have lim: "lits + l + 7 \<le> cap \<and> lits + 8 \<le> cap \<or> lits + l + 8 \<le> cap" if "limit"
  proof -
    have c: "op + 1 + l div 255 + l + 8 \<le> cap" using test [OF that] room that by (simp add: room_ok_def)
    show ?thesis using c e(1,2) by (cases "l < 15") (simp_all add: lits_def)
  qed
  have nolim: "lits + l + 8 \<le> cap" if "\<not> limit"
    using bound_255 [of "lits + l + 8" "length src"] free [OF that] room that by (simp add: room_ok_def)
  show "lits + 8 \<le> cap" "l = 0 \<or> lits + l + 7 \<le> cap" "offset + 2 \<le> cap"
    using lim nolim by (cases limit; auto simp: offset_def)+
  show "offset + 2 + length (encode_length (ml - 4)) \<le> cap"
    if t: "limit \<Longrightarrow> int (offset + 2 + (ml - 4) div 255 + 6) \<le> oend"
  proof (cases limit)
    case True
    then show ?thesis using t room e(3) by (simp add: room_ok_def)
  next
    case False
    have "255 * (offset + 2 + length (encode_length (ml - 4))) \<le> 256 * length src"
      by (rule order_trans [OF last' [OF False]]) (use src(2) in simp)
    then show ?thesis using bound_255 [of "offset + 2 + length (encode_length (ml - 4))" "length src"] False room
      by (simp add: room_ok_def)
  qed
qed

lemma encodeSequence_ok:
  assumes room: "room_ok src limit oend cap" and out: "out_ok src limit cap out"
    and ip: "ho_anchor out \<le> ip" "ip + 12 \<le> length src"
    and m: "match_found src ip (length src - 5) (ip - off) ml" "0 < off" "off \<le> ip"
  shows "\<exists>r. LZ4HC_encodeSequence src limit oend ip ml off out = Some r
    \<and> (case r of None \<Rightarrow> limit | Some (ip', out') \<Rightarrow> ip' = ip + ml \<and> ho_anchor out' = ip + ml \<and> out_ok src limit cap out')"
proof -
  let ?l = "ip - ho_anchor out" and ?op = "ho_op out" and ?m = "ml - 4"
  let ?lits = "take ?l (drop (ho_anchor out) src)" and ?offs = "le_bytes 2 (of_nat off :: u16)"
  let ?high = "if ?l \<ge> 15 then 0xF0 else of_nat (16 * ?l) :: byte"
  obtain seqs where o: "length (ho_dst out) = cap" "?op \<le> cap" "ho_anchor out \<le> length src"
    "\<not> limit \<longrightarrow> 255 * ?op \<le> 256 * ho_anchor out" "take ?op (ho_dst out) = concat (map encode_seq seqs)"
    "seqs_ok seqs 0" "spec_decode seqs [] = take (ho_anchor out) src"
    using out by (auto simp: out_ok_def)
  have ml: "4 \<le> ml" "ip + ml + 5 \<le> length src" "agree src (ip - off) ip ml" "off < 65536"
    using m ip(2) by (auto simp: match_found_def)
  have len: "length ?lits = ?l" using ip by simp
  show ?thesis
  proof (cases "limit \<and> int (?op + 1 + ?l div 255 + ?l + 8) > oend")
    case True
    then show ?thesis by (simp add: LZ4HC_encodeSequence_def Let_def)
  next
    case False
    have pre: "ho_anchor out + ?l + 12 \<le> length src" "ho_anchor out + ?l + ml + 5 \<le> length src"
      using ip ml by simp_all
    have test: "int (?op + 1 + ?l div 255 + ?l + 8) \<le> oend" if "limit" using False that by simp
    note r = encode_room [OF room o(4) pre ml(1) test]
    let ?lits_at = "?op + 1 + length (encode_length ?l)"
    let ?offs_at = "?lits_at + ?l"
    obtain b1 where b1: "store ?op [?high] (ho_dst out) = Some b1" "length b1 = cap" "take (?op + 1) b1 = take ?op (ho_dst out) @ [?high]"
      using store_take [of ?op "ho_dst out" "[?high]"] r(1) o(1,2) by auto
    obtain b2 where b2: "store (?op + 1) (encode_length ?l) b1 = Some b2" "length b2 = cap"
      "take ?lits_at b2 = take ?op (ho_dst out) @ ?high # encode_length ?l"
      using store_take [of "?op + 1" b1 "encode_length ?l"] r(1) b1(2,3) by auto
    have c: "?lits_at + 8 \<le> length b2" "?l = 0 \<or> ?lits_at + ?l + 7 \<le> length b2" "?l + 8 \<le> length (drop (ho_anchor out) src)"
      using r(1,2) b2(2) ip by simp_all
    obtain b3 where b3: "wildCopy_literals ?lits_at (drop (ho_anchor out) src) ?offs_at b2 = Some b3" "length b3 = cap"
      "take ?offs_at b3 = take ?op (ho_dst out) @ ?high # encode_length ?l @ ?lits"
      using copy_literals [OF c] b2(2,3) by auto
    obtain b4 where b4: "store ?offs_at ?offs b3 = Some b4" "length b4 = cap"
      "take (?offs_at + 2) b4 = take ?op (ho_dst out) @ ?high # encode_length ?l @ ?lits @ ?offs"
      using store_take [of ?offs_at b3 ?offs] r(3) b3(2,3) by auto
    note steps = b1(1) b2(1) b3(1) b4(1) Option.bind.bind_lunit put_run_length put_match_run_length
    show ?thesis
    proof (cases "limit \<and> int (?offs_at + 2 + ?m div 255 + 6) > oend")
      case True
      have "LZ4HC_encodeSequence src limit oend ip ml off out = Some None"
        unfolding LZ4HC_encodeSequence_def Let_def if_not_P [OF False] by (simp only: steps if_P [OF True])
      then show ?thesis using True by simp
    next
      case False2: False
      let ?tok = "?high + (if ?m \<ge> 15 then 15 else of_nat ?m)"
      have tok: "?tok = encode_token ?l ?m" by (rule token_sum)
      have b5: "store ?op [?tok] b4 = Some (overwrite ?op [?tok] b4)" using r(3) b4(2) by (simp add: store_def)
      have t5: "take (?offs_at + 2) (overwrite ?op [?tok] b4) = take ?op (ho_dst out) @ ?tok # encode_length ?l @ ?lits @ ?offs"
        "length (overwrite ?op [?tok] b4) = cap"
        using overwrite_token [OF b4(3), of ?op ?tok] r(3) b4(2) o(1,2) by simp_all
      obtain b6 where b6: "store (?offs_at + 2) (encode_length ?m) (overwrite ?op [?tok] b4) = Some b6" "length b6 = cap"
        "take (?offs_at + 2 + length (encode_length ?m)) b6
           = take ?op (ho_dst out) @ ?tok # encode_length ?l @ ?lits @ ?offs @ encode_length ?m"
        using store_take [of "?offs_at + 2" "overwrite ?op [?tok] b4" "encode_length ?m"] r(4) t5 False2 by auto
      let ?out = "\<lparr>ho_anchor = ip + ml, ho_op = ?offs_at + 2 + length (encode_length ?m), ho_dst = b6\<rparr>"
      have res: "LZ4HC_encodeSequence src limit oend ip ml off out = Some (Some (ip + ml, ?out))"
        unfolding LZ4HC_encodeSequence_def Let_def if_not_P [OF False]
        by (simp only: steps b5 b6(1) if_not_P [OF False2])
      let ?seqs = "seqs @ [(?lits, off, ml)]"
      have "take (ho_op ?out) (ho_dst ?out) = concat (map encode_seq ?seqs)"
        using b6(3) o(5) len tok by (simp add: encode_seq_def)
      moreover have "seqs_ok ?seqs 0"
        using seqs_ok_snoc [of seqs ?lits off ml "[]"] o(3,6,7) m(2,3) ml len ip by (simp add: min_def)
      moreover have "end_ok ?seqs (drop (ip + ml) src)"
        unfolding end_ok_snoc length_drop using ip(2) ml(2) by linarith
      moreover have "spec_decode ?seqs [] = take (ip + ml) src"
      proof -
        have "take (ho_anchor out) src @ ?lits = take ip src" using ip(1) take_add [of "ho_anchor out" ?l src] by simp
        then show ?thesis using spec_match_source [OF ml(3) m(2,3)] ml(2) o(7) by (simp add: spec_decode_snoc)
      qed
      ultimately have seqs: "\<exists>seqs. take (ho_op ?out) (ho_dst ?out) = concat (map encode_seq seqs) \<and> seqs_ok seqs 0
          \<and> end_ok seqs (drop (ho_anchor ?out) src) \<and> spec_decode seqs [] = take (ho_anchor ?out) src"
        by (intro exI [of _ ?seqs]) simp
      have "ho_anchor out + ?l + ml = ip + ml" using ip(1) by simp
      then have "ho_op ?out \<le> cap" "\<not> limit \<longrightarrow> 255 * ho_op ?out \<le> 256 * ho_anchor ?out" "length (ho_dst ?out) = cap"
        "ho_anchor ?out \<le> length src"
        using r(4,5) b6(2) False2 ml(2) by (simp_all only: hc_out.simps) auto
      then have "out_ok src limit cap ?out" using seqs unfolding out_ok_def by blast
      then show ?thesis using res by simp
    qed
  qed
qed

text \<open>The rest of the source as literals ends the block.\<close>

lemma encode_last_literals_ok:
  assumes room: "room_ok src limit oend cap" and out: "out_ok src limit cap out"
  shows "\<exists>n dst. encode_last_literals src limit oend out = Some (n, dst)
    \<and> (n = 0 \<and> limit \<or> lz4_block (take n dst) src \<and> n \<le> cap \<and> length dst = cap)"
proof -
  let ?l = "length src - ho_anchor out" and ?op = "ho_op out" and ?lits = "drop (ho_anchor out) src"
  let ?run = "encode_token ?l 0 # encode_length ?l"
  obtain seqs where o: "length (ho_dst out) = cap" "?op \<le> cap" "ho_anchor out \<le> length src"
    "\<not> limit \<longrightarrow> 255 * ?op \<le> 256 * ho_anchor out" "take ?op (ho_dst out) = concat (map encode_seq seqs)"
    "seqs_ok seqs 0" "end_ok seqs ?lits" "spec_decode seqs [] = take (ho_anchor out) src"
    using out by (auto simp: out_ok_def)
  have run: "(if ?l \<ge> 15 then 0xF0 # put_run (?l - 15) else [of_nat (16 * ?l)]) = ?run"
    by (simp add: encode_token_def encode_length_def put_run_eq)
  have litLength: "(?l + 255 - 15) div 255 = length (encode_length ?l)"
  proof (cases "?l \<ge> 15")
    case True
    then have "?l + 255 - 15 = ?l - 15 + 255" by simp
    then show ?thesis using True by (simp only: length_encode_length if_True) simp
  qed (simp add: length_encode_length)
  show ?thesis
  proof (cases "limit \<and> int (?op + (1 + length (encode_length ?l) + ?l)) > oend")
    case True
    have "encode_last_literals src limit oend out = Some (0, ho_dst out)"
      unfolding encode_last_literals_def Let_def litLength if_P [OF True] ..
    then show ?thesis using True by simp
  next
    case False
    have fits: "?op + (1 + length (encode_length ?l)) + ?l \<le> cap"
    proof (cases limit)
      case True
      then show ?thesis using False room by (simp add: room_ok_def)
    next
      case False
      have "255 * length (encode_length ?l) \<le> ?l + 240" using encode_length_255 [of ?l] by (auto split: if_splits)
      then have "255 * (?op + (1 + length (encode_length ?l)) + ?l) \<le> 256 * length src + 255 * 16"
        using o(3,4) False by simp
      then show ?thesis using bound_255 room False by (auto simp: room_ok_def intro: order_trans)
    qed
    obtain b1 where b1: "store ?op ?run (ho_dst out) = Some b1" "length b1 = cap"
      "take (?op + length ?run) b1 = take ?op (ho_dst out) @ ?run"
      using store_take [of ?op "ho_dst out" ?run] fits o(1,2) by auto
    obtain b2 where b2: "store (?op + length ?run) ?lits b1 = Some b2" "length b2 = cap"
      "take (?op + length ?run + ?l) b2 = (take ?op (ho_dst out) @ ?run) @ ?lits"
      using store_take [of "?op + length ?run" b1 ?lits] fits b1(2,3) by auto
    have "encode_last_literals src limit oend out = Some (?op + length ?run + ?l, b2)"
      unfolding encode_last_literals_def Let_def litLength if_not_P [OF False] run
      by (simp only: b1(1) b2(1) Option.bind.bind_lunit)
    moreover have "lz4_block (take (?op + length ?run + ?l) b2) src"
      unfolding lz4_block_def
      by (intro exI [of _ seqs] exI [of _ ?lits]) (use o(5-8) b2(3) in \<open>simp add: encode_last_def\<close>)
    ultimately show ?thesis using fits b2(2) by auto
  qed
qed

end
