(* ===== verification/Lz4hc_Correct.thy ===== *)
theory Lz4hc_Correct
  imports Lz4hc_Encode
begin

text \<open>
  The optimal parser encodes the source, whatever it finds cheapest: every entry of its array is a literal or the end
  of a match that is there, so the way back from the last position ends at the first one, and the way forwards is
  a list of sequences. The compressor of the archive therefore ends with a valid block of its input; the prices decide
  only which. The tables are used at increasing positions.
\<close>

section \<open>The array of the parser\<close>

definition valid_match :: "byte list \<Rightarrow> nat \<Rightarrow> nat \<Rightarrow> nat \<Rightarrow> bool" where
  "valid_match src p off m \<longleftrightarrow>
     p + 12 \<le> length src \<and> match_found src p (length src - 5) (p - off) m \<and> 0 < off \<and> off \<le> p"

definition step_ok :: "byte list \<Rightarrow> nat \<Rightarrow> nat \<Rightarrow> nat \<Rightarrow> bool" where
  "step_ok src p m off \<longleftrightarrow> m = 1 \<or> valid_match src p off m"

definition opt_entry_ok :: "byte list \<Rightarrow> nat \<Rightarrow> nat \<Rightarrow> LZ4HC_optimal \<Rightarrow> bool" where
  "opt_entry_ok src ip pos o' \<longleftrightarrow> o_mlen o' \<le> pos \<and> step_ok src (ip + (pos - o_mlen o')) (o_mlen o') (o_off o')"

definition opt_table_ok :: "byte list \<Rightarrow> nat \<Rightarrow> nat \<Rightarrow> optimal \<Rightarrow> bool" where
  "opt_table_ok src ip l opt \<longleftrightarrow> o_mlen (opt 0) = 1 \<and> (\<forall>pos. 1 \<le> pos \<and> pos \<le> l \<longrightarrow> opt_entry_ok src ip pos (opt pos))"

lemma valid_match_shorter: "valid_match src p off m \<Longrightarrow> 4 \<le> k \<Longrightarrow> k \<le> m \<Longrightarrow> valid_match src p off k"
  by (auto simp: valid_match_def match_found_def elim: agree_le)

lemma valid_match_bounds: "valid_match src p off m \<Longrightarrow> 4 \<le> m \<and> p + m + 5 \<le> length src"
  by (auto simp: valid_match_def match_found_def)

lemma step_ok_pos: "step_ok src p m off \<Longrightarrow> 1 \<le> m"
  by (auto simp: step_ok_def dest: valid_match_bounds)

lemma opt_entry_literal: "1 \<le> pos \<Longrightarrow> o_mlen o' = 1 \<Longrightarrow> opt_entry_ok src ip pos o'"
  by (simp add: opt_entry_ok_def step_ok_def)

lemma opt_entry_match: "valid_match src (ip + cur) (o_off o') (o_mlen o') \<Longrightarrow> opt_entry_ok src ip (cur + o_mlen o') o'"
  by (simp add: opt_entry_ok_def step_ok_def)

lemma table_ok_mono: "opt_table_ok src ip l opt \<Longrightarrow> l' \<le> l \<Longrightarrow> opt_table_ok src ip l' opt"
  by (auto simp: opt_table_ok_def)

lemma table_ok_upd:
  "opt_table_ok src ip l opt \<Longrightarrow> 1 \<le> pos \<Longrightarrow> l' \<le> l \<or> l' \<le> pos \<and> pos \<le> Suc l \<Longrightarrow> opt_entry_ok src ip pos o' \<Longrightarrow>
   opt_table_ok src ip l' (opt(pos := o'))"
  unfolding opt_table_ok_def by (auto simp: le_Suc_eq)

lemma first_table:
  assumes "valid_match src ip (ma_off m) (ma_len m)"
  shows "opt_table_ok src ip (ma_len m) (first_match llen m (first_literals llen opt))"
proof -
  have lits: "opt_table_ok src ip 3 (first_literals llen opt)"
    by (auto simp: first_literals_def opt_table_ok_def eval_nat_numeral upt_rec intro!: opt_entry_literal)
  define e where "e = (\<lambda>mlen. \<lparr>o_price = LZ4HC_sequencePrice llen mlen, o_off = ma_off m, o_mlen = mlen, o_litlen = llen\<rparr>)"
  have "n \<le> ma_len m \<Longrightarrow>
    opt_table_ok src ip (max 3 n) (fold (\<lambda>mlen opt. opt(mlen := e mlen)) [4..<Suc n] (first_literals llen opt))" for n
  proof (induction n)
    case (Suc n)
    show ?case
    proof (cases "4 \<le> Suc n")
      case True
      have "valid_match src ip (ma_off m) (Suc n)" by (rule valid_match_shorter [OF assms True Suc.prems])
      then have "opt_entry_ok src ip (Suc n) (e (Suc n))" by (simp add: opt_entry_ok_def step_ok_def e_def)
      moreover have "[4..<Suc (Suc n)] = [4..<Suc n] @ [Suc n]" using True by (simp only: upt_Suc_append)
      ultimately show ?thesis
        using table_ok_upd [OF Suc.IH, of "Suc n" "max 3 (Suc n)" "e (Suc n)"] Suc.prems True by (simp del: upt_Suc add: fun_upd_def)
    next
      case False
      then show ?thesis using lits by simp
    qed
  qed (use lits in simp)
  from table_ok_mono [OF this [of "ma_len m"], of "ma_len m"] show ?thesis
    unfolding first_match_def e_def by simp
qed

lemma trailing_table:
  assumes "opt_table_ok src ip l opt"
  shows "opt_table_ok src ip (l + 3) (trailing_literals l opt)"
proof -
  have upt: "[1..<4] = [1, 2, 3 :: nat]" by (simp add: upt_rec)
  show ?thesis
    unfolding trailing_literals_def upt fold_simps comp_def
    by (rule table_ok_upd [where l = "l + 2"], rule table_ok_upd [where l = "l + 1"], rule table_ok_upd [OF assms])
      (auto intro: opt_entry_literal)
qed

lemma fold_table:
  assumes "opt_table_ok src ip l opt" "\<And>x opt. x \<in> set xs \<Longrightarrow> opt_table_ok src ip l opt \<Longrightarrow> opt_table_ok src ip l (f x opt)"
  shows "opt_table_ok src ip l (fold f xs opt)"
  using assms by (induction xs arbitrary: opt) simp_all

lemma literals_before_table:
  assumes "opt_table_ok src ip l opt"
  shows "opt_table_ok src ip l (literals_before cur opt)"
  unfolding literals_before_def Let_def
  by (rule fold_table [OF assms]) (auto intro!: table_ok_upd [where l = l] opt_entry_literal)

lemma price_match_cases:
  obtains (priced) p ll where "price_match favor cur m ml (l, opt) =
      (if ml = ma_len m \<and> l < cur + ml then cur + ml else l,
       opt(cur + ml := \<lparr>o_price = p, o_off = ma_off m, o_mlen = ml, o_litlen = ll\<rparr>))"
  | (kept) "\<not> cur + ml > l + 3" "price_match favor cur m ml (l, opt) = (l, opt)"
proof -
  define lp where "lp = (if o_mlen (opt cur) = 1
      then (o_litlen (opt cur), (if cur > o_litlen (opt cur) then o_price (opt (cur - o_litlen (opt cur))) else 0)
              + LZ4HC_sequencePrice (o_litlen (opt cur)) ml)
      else (0, o_price (opt cur) + LZ4HC_sequencePrice 0 ml))"
  obtain ll p where lp: "lp = (ll, p)" by fastforce
  have "price_match favor cur m ml (l, opt) =
      (if cur + ml > l + 3 \<or> p \<le> o_price (opt (cur + ml)) - (if favor then 1 else 0)
       then (if ml = ma_len m \<and> l < cur + ml then cur + ml else l,
             opt(cur + ml := \<lparr>o_price = p, o_off = ma_off m, o_mlen = ml, o_litlen = ll\<rparr>))
       else (l, opt))"
    by (simp only: price_match_def Let_def prod.case lp_def [symmetric] lp)
  then show thesis using priced kept
    by (cases "cur + ml > l + 3 \<or> p \<le> o_price (opt (cur + ml)) - (if favor then 1 else 0)") simp_all
qed

text \<open>The prices of a match at \<open>cur\<close>, up to the length \<open>k\<close>.\<close>

lemma price_matches_upto:
  assumes m: "valid_match src (ip + cur) (ma_off m) (ma_len m)" and t: "opt_table_ok src ip (l + 3) opt"
    and cur: "cur \<le> l"
  shows "k \<le> ma_len m \<Longrightarrow> \<exists>l' opt'. fold (price_match favor cur m) [4..<Suc k] (l, opt) = (l', opt')
    \<and> opt_table_ok src ip (max (l + 3) (cur + k)) opt' \<and> (l' = l \<or> k = ma_len m \<and> l < cur + k \<and> l' = cur + k)
    \<and> (k = ma_len m \<and> l + 3 < cur + k \<longrightarrow> l' = cur + k)"
proof (induction k)
  case 0
  then show ?case using t cur valid_match_bounds [OF m] by (auto simp: max_absorb1)
next
  case (Suc k)
  then obtain l' opt' where IH: "fold (price_match favor cur m) [4..<Suc k] (l, opt) = (l', opt')"
    "opt_table_ok src ip (max (l + 3) (cur + k)) opt'" "l' = l"
    by fastforce
  show ?case
  proof (cases "4 \<le> Suc k")
    case True
    define e where "e = (\<lambda>p ll. \<lparr>o_price = p, o_off = ma_off m, o_mlen = Suc k, o_litlen = ll\<rparr>)"
    have "valid_match src (ip + cur) (ma_off m) (Suc k)" by (rule valid_match_shorter [OF m True Suc.prems])
    then have "opt_entry_ok src ip (cur + Suc k) (e p ll)" for p ll
      using opt_entry_match [of src ip cur "e p ll"] by (simp add: e_def)
    then have upd: "opt_table_ok src ip (max (l + 3) (cur + Suc k)) (opt'(cur + Suc k := e p ll))" for p ll
      by (intro table_ok_upd [OF IH(2)]) auto
    have keep: "opt_table_ok src ip (max (l + 3) (cur + Suc k)) opt'" if "\<not> cur + Suc k > l + 3"
    proof -
      have "max (l + 3) (cur + k) = l + 3" "max (l + 3) (cur + Suc k) = l + 3" using that by linarith+
      then show ?thesis using IH(2) by (simp only:)
    qed
    have "[4..<Suc (Suc k)] = [4..<Suc k] @ [Suc k]" using True by (simp only: upt_Suc_append)
    then have "fold (price_match favor cur m) [4..<Suc (Suc k)] (l, opt) = price_match favor cur m (Suc k) (l, opt')"
      using IH(1,3) by (simp del: upt_Suc)
    moreover have "\<exists>l'' opt''. price_match favor cur m (Suc k) (l, opt') = (l'', opt'')
        \<and> opt_table_ok src ip (max (l + 3) (cur + Suc k)) opt'' \<and> (l'' = l \<or> Suc k = ma_len m \<and> l < cur + Suc k \<and> l'' = cur + Suc k)
        \<and> (Suc k = ma_len m \<and> l + 3 < cur + Suc k \<longrightarrow> l'' = cur + Suc k)"
      by (cases rule: price_match_cases [of favor cur m "Suc k" l opt']) (use upd keep in \<open>auto simp: e_def\<close>)
    ultimately show ?thesis by simp
  next
    case False
    have "valid_match src (ip + cur) (ma_off m) (ma_len m)" by (rule m)
    then have "Suc k \<noteq> ma_len m" using False valid_match_bounds by fastforce
    moreover have "opt_table_ok src ip (max (l + 3) (cur + Suc k)) opt"
      using t cur False by (simp add: max_absorb1)
    ultimately show ?thesis using False by simp
  qed
qed

lemma price_matches_table:
  assumes m: "valid_match src (ip + cur) (ma_off m) (ma_len m)" and t: "opt_table_ok src ip (l + 3) opt" "cur \<le> l"
    and r: "price_matches favor cur m (l, opt) = (l', opt')"
  shows "opt_table_ok src ip l' opt'" "l \<le> l'" "l' = l \<or> l' = cur + ma_len m"
  using price_matches_upto [OF m t order_refl, of favor] r by (auto simp: price_matches_def elim: table_ok_mono)

section \<open>The way that is chosen\<close>

lemma FindLongerMatch_valid:
  assumes "tables_at ctx p" "p \<le> ip" "ip + 12 \<le> length src" "length src < 2 ^ 31"
    and "LZ4HC_FindLongerMatch src ctx ip (length src - 5) minLen n favor = (m, ctx')"
  shows "tables_at ctx' ip" "ma_len m = 0 \<or> valid_match src ip (ma_off m) (ma_len m)"
proof -
  have lim: "ip + 4 \<le> length src - 5" "length src - 5 \<le> length src" using assms(3) by simp_all
  show "tables_at ctx' ip" "ma_len m = 0 \<or> valid_match src ip (ma_off m) (ma_len m)"
    using FindLongerMatch_ok [OF assms(1,2) lim assms(4,5)] assms(3) by (auto simp: valid_match_def)
qed

text \<open>The last step, from \<open>c\<close> over \<open>m\<close> bytes, to the end of the segment or beyond.\<close>

definition choice_ok :: "byte list \<Rightarrow> nat \<Rightarrow> nat \<Rightarrow> nat \<Rightarrow> nat \<Rightarrow> nat \<Rightarrow> bool" where
  "choice_ok src ip c l m off \<longleftrightarrow> c < l \<and> l \<le> c + m \<and> l < 4096 \<and> step_ok src (ip + c) m off \<and> ip + c + m + 5 \<le> length src"

lemma check_loop_ok:
  assumes src: "length src < 2 ^ 31"
  shows "opt_table_ok src ip (l + 3) opt \<Longrightarrow> 1 \<le> cur \<Longrightarrow> cur \<le> l \<Longrightarrow> l < 4096 \<Longrightarrow> ip + l + 5 \<le> length src \<Longrightarrow>
    tables_at ctx (ip + cur) \<Longrightarrow> check_loop src P ip cur l opt ctx = ((c, l', m, off), opt', ctx') \<Longrightarrow>
    choice_ok src ip c l' m off \<and> opt_table_ok src ip c opt' \<and> tables_at ctx' (ip + c + m)"
proof (induction "4096 - cur" arbitrary: cur l opt ctx rule: less_induct)
  case less
  show ?case
  proof (cases "cur < l \<and> ip + cur + 12 \<le> length src")
    case False
    have e: "opt_entry_ok src ip l (opt l)" using less.prems(1-3) by (simp add: opt_table_ok_def)
    have r: "c = l - o_mlen (opt l)" "l' = l" "m = o_mlen (opt l)" "off = o_off (opt l)" "opt' = opt" "ctx' = ctx"
      using less.prems(7) False by (auto simp: check_loop.simps [of src P ip cur])
    have st: "m \<le> l" "step_ok src (ip + c) m off" using e unfolding r opt_entry_ok_def by blast+
    then have "1 \<le> m" by (auto dest: step_ok_pos)
    then have "choice_ok src ip c l' m off"
      using st r(1-4) less.prems(2-5) by (auto simp: choice_ok_def)
    moreover have "opt_table_ok src ip c opt'" using less.prems(1) by (auto simp: r elim: table_ok_mono)
    moreover have "tables_at ctx' (ip + c + m)"
      using tables_at_mono [OF less.prems(6)] less.prems(3) st(1) r(1,3) by (simp add: r(6))
    ultimately show ?thesis by blast
  next
    case True
    have meas: "4096 - (cur + 1) < 4096 - cur" using True less.prems(4) by linarith
    show ?thesis
    proof (cases "skip_position (cp_fullUpdate P) cur opt")
      case skip: True
      have "check_loop src P ip cur l opt ctx = check_loop src P ip (cur + 1) l opt ctx"
        using True skip by (simp add: check_loop.simps [of src P ip cur])
      then have r: "check_loop src P ip (cur + 1) l opt ctx = ((c, l', m, off), opt', ctx')" using less.prems(7) by simp
      have t: "tables_at ctx (ip + (cur + 1))" by (rule tables_at_mono [OF less.prems(6)]) simp
      show ?thesis by (rule less.hyps [OF meas less.prems(1) _ _ less.prems(4,5) t r]) (use True in simp_all)
    next
      case search: False
      obtain nm ctx1 where f: "LZ4HC_FindLongerMatch src ctx (ip + cur) (length src - 5)
          (if cp_fullUpdate P then 3 else l - cur) (cp_nbSearches P) (cp_favorDecSpeed P) = (nm, ctx1)" by fastforce
      have pre: "ip + cur + 12 \<le> length src" using True by simp
      note fm = FindLongerMatch_valid [OF less.prems(6) order_refl pre src f]
      note eq = check_loop.simps [of src P ip cur l opt ctx]
      consider (none) "ma_len nm = 0"
        | (long) "ma_len nm \<noteq> 0" "ma_len nm > cp_sufficient_len P \<or> ma_len nm + cur \<ge> 4096"
        | (price) "ma_len nm \<noteq> 0" "\<not> (ma_len nm > cp_sufficient_len P \<or> ma_len nm + cur \<ge> 4096)" by blast
      then show ?thesis
      proof cases
        case none
        have "check_loop src P ip cur l opt ctx = check_loop src P ip (cur + 1) l opt ctx1"
          using True search f none by (simp add: eq)
        then have r: "check_loop src P ip (cur + 1) l opt ctx1 = ((c, l', m, off), opt', ctx')" using less.prems(7) by simp
        have t: "tables_at ctx1 (ip + (cur + 1))" by (rule tables_at_mono [OF fm(1)]) simp
        show ?thesis by (rule less.hyps [OF meas less.prems(1) _ _ less.prems(4,5) t r]) (use True in simp_all)
      next
        case long
        have "check_loop src P ip cur l opt ctx = ((cur, cur + 1, ma_len nm, ma_off nm), opt, ctx1)"
          using True search f long by (simp add: eq)
        then have r: "c = cur" "l' = cur + 1" "m = ma_len nm" "off = ma_off nm" "opt' = opt" "ctx' = ctx1"
          using less.prems(7) by simp_all
        have v: "valid_match src (ip + cur) (ma_off nm) (ma_len nm)" using fm(2) long(1) by simp
        then have "choice_ok src ip c l' m off"
          using valid_match_bounds [OF v] True less.prems(4) by (simp add: r choice_ok_def step_ok_def)
        then show ?thesis
          using less.prems(1) True tables_at_mono [OF fm(1), of "ip + cur + ma_len nm"] by (auto simp: r elim: table_ok_mono)
      next
        case price
        obtain l1 opt1 where p: "price_matches (cp_favorDecSpeed P) cur nm (l, literals_before cur opt) = (l1, opt1)" by fastforce
        have v: "valid_match src (ip + cur) (ma_off nm) (ma_len nm)" using fm(2) price(1) by simp
        note pm = price_matches_table [OF v literals_before_table [OF less.prems(1)] less.prems(3) p]
        have "check_loop src P ip cur l opt ctx = check_loop src P ip (cur + 1) l1 (trailing_literals l1 opt1) ctx1"
          using True search f price p by (simp add: eq)
        then have r: "check_loop src P ip (cur + 1) l1 (trailing_literals l1 opt1) ctx1 = ((c, l', m, off), opt', ctx')"
          using less.prems(7) by simp
        have b: "cur + 1 \<le> l1" "l1 < 4096" "ip + l1 + 5 \<le> length src"
          using pm(2,3) True less.prems(4,5) price(2) valid_match_bounds [OF v] by auto
        have t: "tables_at ctx1 (ip + (cur + 1))" by (rule tables_at_mono [OF fm(1)]) simp
        show ?thesis by (rule less.hyps [OF meas trailing_table [OF pm(1)] _ b t r]) simp
      qed
    qed
  qed
qed

inductive opt_path :: "byte list \<Rightarrow> nat \<Rightarrow> nat \<Rightarrow> nat \<Rightarrow> optimal \<Rightarrow> nat \<Rightarrow> bool" for src ip l e opt where
  path_end: "l \<le> e \<Longrightarrow> opt_path src ip l e opt e"
| path_step: "pos < l \<Longrightarrow> step_ok src (ip + pos) (o_mlen (opt pos)) (o_off (opt pos)) \<Longrightarrow>
    opt_path src ip l e opt (pos + o_mlen (opt pos)) \<Longrightarrow> opt_path src ip l e opt pos"

lemma opt_path_cong: "opt_path src ip l e opt pos \<Longrightarrow> \<forall>q\<ge>pos. opt' q = opt q \<Longrightarrow> opt_path src ip l e opt' pos"
proof (induction rule: opt_path.induct)
  case path_end
  show ?case by (rule opt_path.path_end) (use path_end in simp)
next
  case (path_step pos)
  have o': "opt' pos = opt pos" using path_step.prems by simp
  have "opt_path src ip l e opt' (pos + o_mlen (opt pos))"
    by (rule path_step.IH) (use path_step.prems in simp)
  then have "opt_path src ip l e opt' (pos + o_mlen (opt' pos))" by (simp only: o')
  then show ?case by (rule opt_path.path_step [OF path_step.hyps(1), rotated]) (use path_step.hyps(2) in \<open>simp only: o'\<close>)
qed

lemma reverse_path_ok:
  "step_ok src (ip + c) m off \<Longrightarrow> c < l \<Longrightarrow> opt_table_ok src ip c opt \<Longrightarrow> opt_path src ip l e opt (c + m) \<Longrightarrow>
   \<exists>opt'. reverse_path c m off opt = Some opt' \<and> opt_path src ip l e opt' 0"
proof (induction c arbitrary: m off opt rule: less_induct)
  case (less c)
  let ?opt = "opt(c := (opt c)\<lparr>o_mlen := m, o_off := off\<rparr>)" and ?m = "o_mlen (opt c)" and ?off = "o_off (opt c)"
  have m1: "1 \<le> m" by (rule step_ok_pos [OF less.prems(1)])
  have "opt_path src ip l e ?opt (c + m)"
    by (rule opt_path_cong [OF less.prems(4)]) (use m1 in simp)
  then have p: "opt_path src ip l e ?opt c"
    by (intro opt_path.path_step [OF less.prems(2)]) (use less.prems(1) in simp_all)
  have r: "reverse_path c m off opt = (if ?m > c then Some ?opt else reverse_path (c - ?m) ?m ?off ?opt)"
    by (subst reverse_path.simps) (simp only: Let_def)
  show ?case
  proof (cases "c = 0")
    case True
    then have "?m > c" using less.prems(3) by (simp add: opt_table_ok_def)
    moreover have "opt_path src ip l e ?opt 0" using p by (simp only: True)
    ultimately show ?thesis using r by (intro exI [of _ ?opt]) (simp only: if_True)
  next
    case False
    then have "opt_entry_ok src ip c (opt c)" using less.prems(3) by (simp add: opt_table_ok_def)
    then have en: "?m \<le> c" "step_ok src (ip + (c - ?m)) ?m ?off" unfolding opt_entry_ok_def by blast+
    have m: "1 \<le> ?m" by (rule step_ok_pos [OF en(2)])
    have "opt_table_ok src ip (c - ?m) ?opt"
      using less.prems(3) m False by (auto simp: opt_table_ok_def)
    moreover have "opt_path src ip l e ?opt (c - ?m + ?m)" using p en(1) by simp
    moreover have "c - ?m < c" "c - ?m < l" using m en(1) less.prems(2) False by linarith+
    ultimately have "\<exists>opt'. reverse_path (c - ?m) ?m ?off ?opt = Some opt' \<and> opt_path src ip l e opt' 0"
      using less.IH [OF _ en(2)] by blast
    then show ?thesis using r en(1) by (simp only: not_less [symmetric] if_False)
  qed
qed

text \<open>What the encoder leaves: nothing when the output is too small, otherwise the way up to \<open>p\<close> is encoded.\<close>

definition encoded_to :: "byte list \<Rightarrow> bool \<Rightarrow> nat \<Rightarrow> nat \<Rightarrow> (nat \<times> hc_out) option \<Rightarrow> bool" where
  "encoded_to src limit cap p r \<longleftrightarrow>
     (case r of None \<Rightarrow> limit | Some (ip, out) \<Rightarrow> ip = p \<and> ho_anchor out \<le> p \<and> out_ok src limit cap out)"

lemma encodeSequence_valid:
  assumes "room_ok src limit oend cap" "out_ok src limit cap out" "ho_anchor out \<le> ip" "valid_match src ip off m"
  shows "\<exists>r. LZ4HC_encodeSequence src limit oend ip m off out = Some r \<and> encoded_to src limit cap (ip + m) r"
proof -
  have v: "ip + 12 \<le> length src" "match_found src ip (length src - 5) (ip - off) m" "0 < off" "off \<le> ip"
    using assms(4) by (simp_all add: valid_match_def)
  from encodeSequence_ok [OF assms(1-3) v] show ?thesis by (force simp: encoded_to_def split: option.splits)
qed

lemma encode_path_ok:
  assumes room: "room_ok src limit oend cap"
  shows "opt_path src ip l e opt pos \<Longrightarrow> out_ok src limit cap out \<Longrightarrow> ho_anchor out \<le> ip + pos \<Longrightarrow>
    \<exists>r. encode_path src limit oend l opt pos (ip + pos) out = Some r \<and> encoded_to src limit cap (ip + e) r"
proof (induction arbitrary: out rule: opt_path.induct)
  case path_end
  then show ?case by (subst encode_path.simps) (simp add: encoded_to_def)
next
  case (path_step pos)
  show ?case
  proof (cases "o_mlen (opt pos) = 1")
    case True
    then show ?thesis
      using path_step.IH [of out] path_step.prems path_step.hyps(1) by (subst encode_path.simps) (simp add: add.assoc)
  next
    case False
    then have v: "valid_match src (ip + pos) (o_off (opt pos)) (o_mlen (opt pos))"
      using path_step.hyps(2) by (simp add: step_ok_def)
    from encodeSequence_valid [OF room path_step.prems v] obtain r where
      r: "LZ4HC_encodeSequence src limit oend (ip + pos) (o_mlen (opt pos)) (o_off (opt pos)) out = Some r"
      "encoded_to src limit cap (ip + pos + o_mlen (opt pos)) r" by blast
    show ?thesis
    proof (cases r)
      case None
      then show ?thesis using r False path_step.hyps(1) by (subst encode_path.simps) (simp add: encoded_to_def)
    next
      case (Some s)
      then obtain out' where s: "r = Some (ip + pos + o_mlen (opt pos), out')"
        "ho_anchor out' \<le> ip + pos + o_mlen (opt pos)" "out_ok src limit cap out'"
        using r(2) by (cases s) (auto simp: encoded_to_def)
      show ?thesis
        using path_step.IH [OF s(3)] s(1,2) r(1) False path_step.hyps(1)
        by (subst encode_path.simps) (simp add: add.assoc)
    qed
  qed
qed

section \<open>The main loop\<close>

lemma parse_segment_ok:
  assumes src: "length src < 2 ^ 31" and room: "room_ok src limit oend cap"
    and m: "valid_match src ip (ma_off m) (ma_len m)" "ma_len m < 4096"
    and t: "tables_at ctx ip" and out: "out_ok src limit cap out" "ho_anchor out \<le> ip"
  shows "\<exists>r opt' ctx' q. parse_segment src P limit oend m ip opt ctx out = Some (r, opt', ctx')
    \<and> ip < q \<and> tables_at ctx' q \<and> encoded_to src limit cap q r"
proof -
  let ?opt = "trailing_literals (ma_len m) (first_match (ip - ho_anchor out) m (first_literals (ip - ho_anchor out) opt))"
  obtain c l n off opt1 ctx1 where k: "check_loop src P ip 1 (ma_len m) ?opt ctx = ((c, l, n, off), opt1, ctx1)"
    by (metis surj_pair)
  have b: "1 \<le> ma_len m" "ip + ma_len m + 5 \<le> length src" using valid_match_bounds [OF m(1)] by auto
  have t1: "tables_at ctx (ip + 1)" by (rule tables_at_mono [OF t]) simp
  have r: "choice_ok src ip c l n off" "opt_table_ok src ip c opt1" "tables_at ctx1 (ip + c + n)"
    using check_loop_ok [OF src trailing_table [OF first_table [OF m(1)]] order_refl b(1) m(2) b(2) t1 k] by simp_all
  have c: "c < l" "l \<le> c + n" "step_ok src (ip + c) n off" using r(1) by (simp_all add: choice_ok_def)
  have "opt_path src ip l (c + n) opt1 (c + n)" by (rule path_end [OF c(2)])
  from reverse_path_ok [OF c(3,1) r(2) this]
  obtain opt2 where o2: "reverse_path c n off opt1 = Some opt2" "opt_path src ip l (c + n) opt2 0" by blast
  from encode_path_ok [OF room o2(2) out(1)] out(2)
  obtain s where s: "encode_path src limit oend l opt2 0 ip out = Some s" "encoded_to src limit cap (ip + (c + n)) s" by auto
  have "parse_segment src P limit oend m ip opt ctx out = Some (s, opt2, ctx1)"
    unfolding parse_segment_def Let_def k prod.case by (simp add: o2(1) s(1))
  moreover have "ip < ip + (c + n)" "tables_at ctx1 (ip + (c + n))" using c r(3) by (simp_all add: add.assoc)
  ultimately show ?thesis using s(2) by blast
qed

lemma main_loop_ok:
  assumes src: "length src < 2 ^ 31" and room: "room_ok src limit oend cap" and P: "cp_sufficient_len P < 4096"
  shows "tables_at ctx ip \<Longrightarrow> out_ok src limit cap out \<Longrightarrow> ho_anchor out \<le> ip \<Longrightarrow>
    \<exists>r. main_loop src P limit oend ip opt ctx out = Some r
      \<and> (case r of None \<Rightarrow> limit | Some out' \<Rightarrow> out_ok src limit cap out')"
proof (induction "length src - ip" arbitrary: ip opt ctx out rule: less_induct)
  case less
  note eq = main_loop.simps [of src P limit oend ip]
  show ?case
  proof (cases "ip + 12 \<le> length src")
    case False
    then show ?thesis using less.prems(2) by (simp add: eq)
  next
    case True
    obtain m ctx1 where f: "LZ4HC_FindLongerMatch src ctx ip (length src - 5) 3 (cp_nbSearches P) (cp_favorDecSpeed P) = (m, ctx1)"
      by fastforce
    note fm = FindLongerMatch_valid [OF less.prems(1) order_refl True src f]
    have next': "\<exists>r. main_loop src P limit oend q opt ctx out = Some r
        \<and> (case r of None \<Rightarrow> limit | Some out' \<Rightarrow> out_ok src limit cap out')"
      if "ip < q" "tables_at ctx q" "out_ok src limit cap out" "ho_anchor out \<le> q" for q opt ctx out
      by (rule less.hyps [OF _ that(2-4)]) (use that(1) True in linarith)
    consider (none) "ma_len m = 0" | (long) "ma_len m \<noteq> 0" "ma_len m > cp_sufficient_len P"
      | (segment) "ma_len m \<noteq> 0" "\<not> ma_len m > cp_sufficient_len P" by blast
    then show ?thesis
    proof cases
      case none
      have "main_loop src P limit oend ip opt ctx out = main_loop src P limit oend (ip + 1) opt ctx1 out"
        unfolding eq using True f none by simp
      moreover have "tables_at ctx1 (ip + 1)" by (rule tables_at_mono [OF fm(1)]) simp
      ultimately show ?thesis using next' [of "ip + 1" ctx1 out opt] less.prems(2,3) by simp
    next
      case long
      have v: "valid_match src ip (ma_off m) (ma_len m)" using fm(2) long(1) by simp
      from encodeSequence_valid [OF room less.prems(2,3) v] obtain r where
        r: "LZ4HC_encodeSequence src limit oend ip (ma_len m) (ma_off m) out = Some r" "encoded_to src limit cap (ip + ma_len m) r"
        by blast
      show ?thesis
      proof (cases r)
        case None
        have "main_loop src P limit oend ip opt ctx out = Some None" unfolding eq using True f long r(1) None by simp
        then show ?thesis using r(2) None by (simp add: encoded_to_def)
      next
        case (Some s)
        then obtain out' where s: "r = Some (ip + ma_len m, out')" "ho_anchor out' \<le> ip + ma_len m" "out_ok src limit cap out'"
          using r(2) by (cases s) (auto simp: encoded_to_def)
        have "main_loop src P limit oend ip opt ctx out = main_loop src P limit oend (ip + ma_len m) opt ctx1 out'"
          unfolding eq using True f long r(1) s(1) by simp
        moreover have "tables_at ctx1 (ip + ma_len m)" by (rule tables_at_mono [OF fm(1)]) simp
        ultimately show ?thesis using next' [of "ip + ma_len m" ctx1 out' opt] s(2,3) long(1) by simp
      qed
    next
      case segment
      have v: "valid_match src ip (ma_off m) (ma_len m)" using fm(2) segment(1) by simp
      have "ma_len m < 4096" using segment(2) P by linarith
      from parse_segment_ok [OF src room v this fm(1) less.prems(2,3), of P opt]
      obtain r opt' ctx' q where r: "parse_segment src P limit oend m ip opt ctx1 out = Some (r, opt', ctx')"
        "ip < q" "tables_at ctx' q" "encoded_to src limit cap q r" by blast
      show ?thesis
      proof (cases r)
        case None
        have "main_loop src P limit oend ip opt ctx out = Some None" unfolding eq using True f segment r(1) None by simp
        then show ?thesis using r(4) None by (simp add: encoded_to_def)
      next
        case (Some s)
        then obtain out' where s: "r = Some (q, out')" "ho_anchor out' \<le> q" "out_ok src limit cap out'"
          using r(4) by (cases s) (auto simp: encoded_to_def)
        have "main_loop src P limit oend ip opt ctx out = main_loop src P limit oend q opt' ctx' out'"
          unfolding eq using True f segment r(1) s(1) by simp
        then show ?thesis using next' [OF r(2,3) s(3,2), of opt'] by simp
      qed
    qed
  qed
qed

section \<open>The compressor\<close>

lemma init_tables: "tables_at (LZ4HC_init (LZ4_resetStreamHC_fast 12 (LZ4_resetStreamHC 12 ctx))) 0"
  by (simp add: LZ4HC_init_def LZ4HC_clearTables_def LZ4_resetStreamHC_fast_def LZ4_resetStreamHC_def
      LZ4_setCompressionLevel_def tables_at_def Let_def)

lemma sint_compressBound:
  assumes "n \<le> 0x7E000000"
  shows "sint (LZ4_compressBound (of_nat n)) = int (n + n div 255 + 16)"
proof -
  let ?b = "n + n div 255 + 16"
  have u: "unat (of_nat n :: u32) = n" using assms by (simp add: unat_of_nat)
  have le: "n div 255 \<le> 0x7E000000 div 255" using assms by (rule div_le_mono)
  have "unat (of_nat n div 255 :: u32) = n div 255" using u by (simp add: unat_div)
  moreover have "?b < 2 ^ 31" using assms le by simp
  ultimately have "unat (of_nat n + of_nat n div 255 + 16 :: u32) = ?b"
    using u by (simp add: unat_word_ariths)
  moreover have "\<not> (0x7E000000 < (of_nat n :: u32))" using assms u by (simp add: word_less_nat_alt)
  ultimately have "unat (LZ4_compressBound (of_nat n)) = ?b" by (simp add: LZ4_compressBound_def)
  then have "unat (LZ4_compressBound (of_nat n)) = unat (of_nat ?b :: u32)"
  proof -
    have "unat (of_nat ?b :: u32) = ?b"
    proof -
      have "take_bit LENGTH(32) ?b = ?b" by (rule take_bit_nat_eq_self) (use \<open>?b < 2 ^ 31\<close> in simp)
      then show ?thesis by (simp only: unsigned_of_nat of_nat_id)
    qed
    then show ?thesis by (simp only: \<open>unat (LZ4_compressBound (of_nat n)) = ?b\<close>)
  qed
  then have "LZ4_compressBound (of_nat n) = of_nat ?b" by (rule unsigned_word_eqI)
  moreover have "sint (of_nat ?b :: u32) = int ?b"
  proof -
    have "int ?b < int (2 ^ 31)" using \<open>?b < 2 ^ 31\<close> by (simp only: of_nat_less_iff)
    then have "int ?b < 2 ^ 31" by (simp only: of_nat_power of_nat_numeral)
    then have "signed_take_bit (LENGTH(32) - Suc 0) (int ?b) = int ?b" by (intro signed_take_bit_int_eq_self) simp_all
    then show ?thesis unfolding signed_of_nat by simp
  qed
  ultimately show ?thesis by simp
qed

text \<open>
  The result is a valid block of the source that fits, or 0: for a source that is too large, or where the
  space is less than the bound.
\<close>

lemma compress_HC_block:
  assumes "dstCapacity \<le> int (length dst)"
  shows "\<exists>n dst'. LZ4_compress_HC mem src dst dstCapacity = Some (n, dst')
    \<and> (n = 0 \<and> (length src > 0x7E000000 \<or> dstCapacity < sint (LZ4_compressBound (of_nat (length src))))
       \<or> lz4_block (take n dst') src \<and> n \<le> length dst \<and> length dst' = length dst)"
proof (cases "length src > 0x7E000000")
  case True
  then show ?thesis
    by (simp add: LZ4_compress_HC_def LZ4_compress_HC_extStateHC_def LZ4_compress_HC_extStateHC_fastReset_def
        LZ4HC_compress_generic_internal_def Let_def)
next
  case False
  define ctx where "ctx = LZ4HC_init (LZ4_resetStreamHC_fast 12 (LZ4_resetStreamHC 12 (lm_state mem)))"
  define limit where "limit = (dstCapacity < sint (LZ4_compressBound (of_nat (length src))))"
  let ?ctx = "ctx\<lparr>hc_extent := hc_extent ctx + of_nat (length src)\<rparr>" and ?out = "\<lparr>ho_anchor = 0, ho_op = 0, ho_dst = dst\<rparr>"
  let ?P = "\<lparr>cp_nbSearches = 16384, cp_sufficient_len = 4095, cp_fullUpdate = True, cp_favorDecSpeed = hc_favorDecSpeed ctx\<rparr>"
  have src: "length src < 2 ^ 31" using False by simp
  have "tables_at ?ctx 0" using init_tables [of "lm_state mem"] by (simp add: tables_at_def ctx_def)
  moreover have room: "room_ok src limit dstCapacity (length dst)"
    using assms sint_compressBound [of "length src"] False by (auto simp: room_ok_def limit_def)
  moreover have "out_ok src limit (length dst) ?out"
    unfolding out_ok_def by (simp, intro exI [of _ "[]"]) simp
  ultimately obtain r where r: "main_loop src ?P limit dstCapacity 0 (lm_opt mem) ?ctx ?out = Some r"
    "case r of None \<Rightarrow> limit | Some out' \<Rightarrow> out_ok src limit (length dst) out'"
    using main_loop_ok [OF src room, of ?P ?ctx 0 ?out "lm_opt mem"] by auto
  have c: "LZ4_compress_HC mem src dst dstCapacity = (case r of None \<Rightarrow> Some (0, dst)
      | Some out \<Rightarrow> encode_last_literals src limit dstCapacity out)"
    using False r(1) by (simp add: LZ4_compress_HC_def LZ4_compress_HC_extStateHC_def LZ4_compress_HC_extStateHC_fastReset_def
        LZ4HC_compress_generic_internal_def LZ4HC_compress_optimal_def Let_def ctx_def limit_def
        split: option.split)
  show ?thesis
  proof (cases r)
    case None
    then show ?thesis using c r(2) by (simp add: limit_def)
  next
    case (Some out)
    then show ?thesis using c r(2) encode_last_literals_ok [OF room, of out] by (auto simp: limit_def)
  qed
qed

text \<open>Memory in which everything is zero, for concrete runs.\<close>

definition sample_lz4 :: lz4_memory where
  "sample_lz4 = \<lparr>lm_state = \<lparr>hc_hashTable = \<lambda>_. 0, hc_chainTable = \<lambda>_. 0, hc_extent = 0, hc_dictLimit = 0,
       hc_lowLimit = 0, hc_nextToUpdate = 0, hc_compressionLevel = 0, hc_favorDecSpeed = False, hc_dirty = False\<rparr>,
     lm_opt = \<lambda>_. \<lparr>o_price = 0, o_off = 0, o_mlen = 0, o_litlen = 0\<rparr>\<rparr>"

end
