(* ===== verification/Archive_Codec.thy ===== *)
theory Archive_Codec
  imports Archive_Layout Lz4hc_Correct
begin

text \<open>
  From the data of a file to its stored form and back: \<open>pack_data\<close> of \<^verbatim>\<open>CVFSArchive::Write\<close> followed by
  \<open>unpack_data\<close> of \<^verbatim>\<open>CVFSArchive::Open\<close> gives the data, whatever the flags ask for. The compressor is the model
  of \<^verbatim>\<open>LZ4_compress_HC\<close>; what is used of it is \<open>compress_HC_block\<close>: a valid block within the room it is given.
\<close>

text \<open>The largest input of the compressor, which is also the bound of what follows.\<close>

definition MAX_INPUT :: nat where "MAX_INPUT = 0x7E000000"

lemma unat_compressBound: "unat n \<le> MAX_INPUT \<Longrightarrow> unat (LZ4_compressBound n) = unat n + unat n div 255 + 16"
  by (simp add: LZ4_compressBound_def MAX_INPUT_def word_less_nat_alt unat_word_ariths unat_div)

lemma archive_iv: "length (convert_ascii ARCHIVE_IV) = 16"
proof -
  have "0 \<notin> set ARCHIVE_IV" "length ARCHIVE_IV = 32" by (simp_all add: ARCHIVE_IV_def)
  then show ?thesis using length_convert_ascii by simp
qed

lemma archive_crypt_readable:
  "length key = 32 \<Longrightarrow> crypt_readable data n (convert_ascii ARCHIVE_IV) key \<longleftrightarrow> unat n \<le> length data"
  by (simp add: crypt_readable_def archive_iv)

lemma flag_bits:
  "(f AND NOT FLAG_COMPRESSED_LZ4) AND FLAG_COMPRESSED_LZ4 = 0"
  "(f AND NOT FLAG_COMPRESSED_LZ4) AND FLAG_CRYPTED_AES256 = f AND FLAG_CRYPTED_AES256"
proof -
  have "NOT FLAG_COMPRESSED_LZ4 AND FLAG_COMPRESSED_LZ4 = 0" by simp
  then show "(f AND NOT FLAG_COMPRESSED_LZ4) AND FLAG_COMPRESSED_LZ4 = 0"
    by (simp only: and.assoc and_zero_eq)
  have "NOT FLAG_COMPRESSED_LZ4 AND FLAG_CRYPTED_AES256 = FLAG_CRYPTED_AES256"
    by (simp add: FLAG_COMPRESSED_LZ4_def FLAG_CRYPTED_AES256_def)
  then show "(f AND NOT FLAG_COMPRESSED_LZ4) AND FLAG_CRYPTED_AES256 = f AND FLAG_CRYPTED_AES256"
    by (simp only: and.assoc)
qed

text \<open>
  The two stages. \<open>payload\<close> is the data or a block of it, \<open>fl\<close> the flags as they are stored.
\<close>

definition payload :: "byte \<Rightarrow> byte list \<Rightarrow> byte list \<Rightarrow> bool" where
  "payload fl c d \<longleftrightarrow> (if fl AND FLAG_COMPRESSED_LZ4 \<noteq> 0 then lz4_block c d else c = d)"

definition sealed :: "byte list \<Rightarrow> byte \<Rightarrow> byte list \<Rightarrow> byte list \<Rightarrow> bool" where
  "sealed key fl raw c \<longleftrightarrow> (if fl AND FLAG_CRYPTED_AES256 \<noteq> 0 then raw = aes_payload ARCHIVE_IV key c else raw = c)"

lemma lz4_block_nonempty: "lz4_block c d \<Longrightarrow> c \<noteq> []"
  by (auto simp: lz4_block_def encode_last_def encode_token_def)

lemma unpack_payload:
  assumes b: "buffer_ok b" "contents b = c" and pay: "payload fl c d"
    and fl: "fi_flags info = fl" and raw: "unat (fi_rawsize info) = length d" "length d < 2 ^ 31"
    and comp: "fi_compressedsize info = of_nat (length c)"
  shows "\<exists>b'. decompress_data info b = Returns (Some b') \<and> buffer_ok b' \<and> contents b' = d"
proof (cases "fl AND FLAG_COMPRESSED_LZ4 = 0")
  case True
  then show ?thesis using b pay fl by (simp add: payload_def decompress_data_def)
next
  case False
  then have block: "lz4_block c d" using pay by (simp add: payload_def)
  have "db_data b = c @ drop (length c) (db_data b)"
    using b length_contents [OF b(1)] unfolding contents_def get_size_def by (metis append_take_drop_id)
  moreover have "db_data b \<noteq> []" using calculation lz4_block_nonempty [OF block] by (metis append_is_Nil_conv)
  ultimately have ptr: "buffer_pointer b = Some (c @ drop (length c) (db_data b))"
    by (simp add: buffer_pointer_def)
  have "sint (fi_rawsize info) = int (length d)" using raw sint_small [of "fi_rawsize info"] by simp
  then have "LZ4_decompress_fast (buffer_pointer b) (replicate (unat (fi_rawsize info)) 0) (sint (fi_rawsize info))
      = Some (int (length c), d)"
    unfolding ptr using decompress_block [OF block raw(2), of "replicate (length d) 0" "drop (length c) (db_data b)"]
    by (simp add: raw(1))
  then show ?thesis
    using False fl comp raw contents_of_data [of "fi_rawsize info" d] buffer_ok_of_data [of "fi_rawsize info" d]
    by (simp add: decompress_data_def)
qed

lemma unpack_sealed:
  assumes key: "length key = 32" and j: "junk_ok j"
    and sealed: "sealed key fl raw c" and pay: "payload fl c d"
    and small: "length raw < 2 ^ 32" "length c + 2048 < 2 ^ 31" "length d < 2 ^ 31"
    and info: "fi_flags info = fl" "unat (fi_rawsize info) = length d" "fi_compressedsize info = of_nat (length c)"
      "fi_hash info = XXH32 d 0"
  shows "\<exists>b. unpack_data j key info raw = Returns (Some b) \<and> buffer_ok b \<and> contents b = d"
proof -
  let ?n = "of_nat (length raw) :: u32"
  have n: "unat ?n = length raw" using small(1) by (simp add: unat_of_nat)
  obtain b where dec: "(if fi_flags info AND FLAG_CRYPTED_AES256 \<noteq> 0
      then CAes256_Decrypt j raw ?n ARCHIVE_IV key else Some (DataBuffer_of_data raw ?n)) = Some b"
    and b: "buffer_ok b" "contents b = c"
  proof (cases "fl AND FLAG_CRYPTED_AES256 = 0")
    case True
    then show ?thesis
      using that [of "DataBuffer_of_data raw ?n"] sealed info n contents_of_data [of ?n raw] buffer_ok_of_data [of ?n raw]
      by (simp add: sealed_def)
  next
    case False
    then have "take (unat ?n) raw = aes_payload ARCHIVE_IV key c" using sealed n by (simp add: sealed_def)
    from decrypt_payload [OF j _ this small(2)] show ?thesis
      using that False info n archive_crypt_readable [OF key] by auto
  qed
  obtain b' where un: "decompress_data info b = Returns (Some b')" "buffer_ok b'" "contents b' = d"
    using unpack_payload [OF b pay info(1,2) small(3) info(3)] by blast
  then show ?thesis unfolding unpack_data_def dec option.case using info(4) by simp
qed

lemma packs_sealed:
  assumes "length key = 32" "sealed key fl raw c" "payload fl c d"
    and "length raw < 2 ^ 32" "length c + 2048 < 2 ^ 31" "length d < 2 ^ 31"
    and "fi_flags info = fl" "unat (fi_rawsize info) = length d" "fi_compressedsize info = of_nat (length c)"
      "fi_hash info = XXH32 d 0"
  shows "packs key info raw d"
  unfolding packs_def using unpack_sealed [OF assms(1) _ assms(2-)] assms(10) by blast

text \<open>What \<open>pack_data\<close> returns is a sealed payload, a little larger than the data at most.\<close>

text \<open>The room of the archive is the bound of the compressor, so that a block comes back or nothing.\<close>

lemma compress_archive:
  assumes "unat len \<le> MAX_INPUT" "length d = unat len" "room = LZ4_compressBound len"
  obtains n dst where "LZ4_compress_HC mem d (replicate (unat room) 0) (sint room) = Some (n, dst)"
    "n = 0 \<or> lz4_block (take n dst) d \<and> n \<le> unat room \<and> length dst = unat room"
proof -
  have "unat room < 2 ^ 31" using unat_compressBound [OF assms(1)] assms(1,3) by (simp add: MAX_INPUT_def)
  then have "sint room \<le> int (length (replicate (unat room) (0 :: byte)))" using sint_small [of room] by simp
  from compress_HC_block [OF this, of mem d] obtain n dst where
    r: "LZ4_compress_HC mem d (replicate (unat room) 0) (sint room) = Some (n, dst)"
    and n: "n = 0 \<and> (length d > 0x7E000000 \<or> sint room < sint (LZ4_compressBound (of_nat (length d))))
      \<or> lz4_block (take n dst) d \<and> n \<le> length (replicate (unat room) (0 :: byte))
        \<and> length dst = length (replicate (unat room) (0 :: byte))" by blast
  from n have "n = 0 \<or> lz4_block (take n dst) d \<and> n \<le> unat room \<and> length dst = unat room" by auto
  with r show ?thesis by (rule that)
qed

lemma compress_payload:
  assumes len: "unat len \<le> length data" "unat len \<le> MAX_INPUT"
  obtains cb fl where "compress_data p data len flags = Returns (cb, fl)"
    "buffer_ok cb" "payload fl (contents cb) (take (unat len) data)"
    "unat (get_size cb) \<le> unat len + unat len div 255 + 16"
proof -
  let ?raw = "DataBuffer_of_data data len"
  let ?off = "flags AND NOT FLAG_COMPRESSED_LZ4"
  let ?room = "LZ4_compressBound len"
  have bound: "get_size (DataBuffer_of_size ?room) = ?room"
    by (simp add: DataBuffer_of_size_def get_size_def set_size_def)
  have raw: "buffer_ok ?raw" "payload ?off (contents ?raw) (take (unat len) data)"
    using len buffer_ok_of_data [of len data] contents_of_data [of len data] by (simp_all add: payload_def flag_bits)
  have "length (take (unat len) data) = unat len" using len(1) by simp
  from compress_archive [OF len(2) this refl, of "pl_lz4 p"] obtain n dst where
    r: "LZ4_compress_HC (pl_lz4 p) (take (unat len) data) (replicate (unat ?room) 0) (sint ?room) = Some (n, dst)"
    and n: "n = 0 \<or> lz4_block (take n dst) (take (unat len) data) \<and> n \<le> unat ?room \<and> length dst = unat ?room" by blast
  show ?thesis
  proof (cases "flags AND FLAG_COMPRESSED_LZ4 = 0 \<or> (of_nat n :: u32) \<ge> ?room \<or> (of_nat n :: u32) = 0")
    case True
    have eq: "compress_data p data len flags = Returns (?raw, ?off)"
      unfolding compress_data_def bound Let_def r option.case prod.case using True by auto
    show ?thesis by (rule that [OF eq raw]) simp
  next
    case False
    then have c: "lz4_block (take n dst) (take (unat len) data)" "n \<le> unat ?room" "length dst = unat ?room"
      using n by auto
    have u: "unat (of_nat n :: u32) = n"
      using c(2) unsigned_less [of ?room, where 'a = nat] by (simp add: unat_of_nat)
    have cb: "buffer_ok (DataBuffer_of_data dst (of_nat n))" "contents (DataBuffer_of_data dst (of_nat n)) = take n dst"
      using buffer_ok_of_data [of "of_nat n" dst] contents_of_data [of "of_nat n" dst] c(2,3) u by simp_all
    have eq: "compress_data p data len flags = Returns (DataBuffer_of_data dst (of_nat n), flags)"
      unfolding compress_data_def bound Let_def r option.case prod.case using False by auto
    show ?thesis
      by (rule that [OF eq cb(1)])
        (use False c cb(2) u unat_compressBound [OF len(2)] in \<open>simp_all add: payload_def\<close>)
  qed
qed

lemma pack_data_sealed:
  assumes p: "junk_ok (pl_junk p)" and key: "length key = 32"
    and len: "unat len \<le> length data" "unat len \<le> MAX_INPUT"
  obtains cb cr fl where "pack_data p key data len flags = Returns (cb, cr, fl)" "buffer_ok cb" "buffer_ok cr"
    "payload fl (contents cb) (take (unat len) data)" "sealed key fl (contents cr) (contents cb)"
    "length (contents cb) + 2048 < 2 ^ 31" "length (contents cr) \<le> unat len + unat len div 255 + 32"
proof -
  obtain cb fl where eq: "compress_data p data len flags = Returns (cb, fl)"
    and cb: "buffer_ok cb" "payload fl (contents cb) (take (unat len) data)"
      "unat (get_size cb) \<le> unat len + unat len div 255 + 16"
    by (rule compress_payload [OF len])
  have lcb: "length (contents cb) = unat (get_size cb)" by (rule length_contents [OF cb(1)])
  have small: "unat (get_size cb) + 2048 < 2 ^ 31" using cb(3) len(2) by (simp add: MAX_INPUT_def)
  have fits: "unat (get_size cb) \<le> length (db_data cb)" using cb(1) by (simp add: buffer_ok_def get_size_def word_le_nat_alt)
  obtain cr where cr: "(if fl AND FLAG_CRYPTED_AES256 \<noteq> 0
               then CAes256_Encrypt (pl_junk p) (db_data cb) (get_size cb) ARCHIVE_IV key
               else Some cb) = Some cr" "buffer_ok cr" "sealed key fl (contents cr) (contents cb)"
    "length (contents cr) \<le> unat (get_size cb) + 16"
  proof (cases "fl AND FLAG_CRYPTED_AES256 = 0")
    case True
    then show ?thesis using that [of cb] cb(1) lcb by (simp add: sealed_def)
  next
    case False
    have "crypt_readable (db_data cb) (get_size cb) (convert_ascii ARCHIVE_IV) key"
      by (simp add: archive_crypt_readable [OF key] fits)
    then obtain b where b: "CAes256_Encrypt (pl_junk p) (db_data cb) (get_size cb) ARCHIVE_IV key = Some b"
      "buffer_ok b" "contents b = aes_payload ARCHIVE_IV key (contents cb)"
      using encrypt_payload [OF p] small unfolding contents_def get_size_def by fastforce
    then show ?thesis using False lcb by (intro that [of b]) (simp_all add: sealed_def length_aes_payload)
  qed
  have "pack_data p key data len flags = Returns (cb, cr, fl)"
    unfolding pack_data_def eq using cr(1) by (simp add: Let_def)
  then show ?thesis using cb cr lcb small by (intro that [of cb cr fl]) simp_all
qed

end
