(* ===== verification/Archive_Write.thy ===== *)
theory Archive_Write
  imports Archive_Store Archive_Codec
begin

text \<open>
  Writing a file: the search for a block, what a new block looks like, and the whole of
  \<^verbatim>\<open>CVFSArchive::Write\<close> as an update of the map of contents.
\<close>

section \<open>The search for a free block\<close>

definition fits :: "u32 \<Rightarrow> u32 \<Rightarrow> SFileEntry \<Rightarrow> bool" where
  "fits bytesPerBlock size_needed x \<longleftrightarrow>
     fe_numBlocks x < 0xffffffff \<and> (ucast (fe_numBlocks x * bytesPerBlock) :: u64) \<ge> ucast size_needed + 551"

definition best_fit_result :: "u32 \<Rightarrow> u32 \<Rightarrow> SFileEntry list \<Rightarrow> SFileEntry \<times> nat option \<Rightarrow> bool" where
  "best_fit_result bpb need es r \<longleftrightarrow>
     (case r of
        (e, None) \<Rightarrow> e = zero_entry\<lparr>fe_numBlocks := 0xffffffff\<rparr> \<and> (\<forall>x\<in>set es. \<not> fits bpb need x)
      | (e, Some i) \<Rightarrow> i < length es \<and> e = es ! i \<and> fits bpb need e
          \<and> (\<forall>x\<in>set es. fits bpb need x \<longrightarrow> fe_numBlocks e \<le> fe_numBlocks x)
          \<and> (\<forall>j<i. fits bpb need (es ! j) \<longrightarrow> fe_numBlocks e < fe_numBlocks (es ! j)))"

lemma best_fit_snoc:
  "best_fit bpb need (es @ [x]) = (case best_fit bpb need es of (entry, idx) \<Rightarrow>
     if fe_numBlocks x < fe_numBlocks entry \<and> (ucast (fe_numBlocks x * bpb) :: u64) \<ge> ucast need + 551
     then (x, Some (length es)) else (entry, idx))"
  by (simp add: best_fit_def enumerate_append_eq split: prod.split)

lemma best_fit_max: "fe_numBlocks (fst (best_fit bpb need es)) \<le> 0xffffffff"
proof -
  have "unat x \<le> 0xffffffff" for x :: u32 using unsigned_less [of x, where 'a = nat] by simp
  then show ?thesis by (simp add: word_le_nat_alt)
qed

lemma best_fit_result: "best_fit_result bpb need es (best_fit bpb need es)"
proof (induction es rule: rev_induct)
  case Nil
  then show ?case by (simp add: best_fit_def best_fit_result_def)
next
  case (snoc x es)
  obtain e idx where r: "best_fit bpb need es = (e, idx)" by (cases "best_fit bpb need es") auto
  note IH = snoc [unfolded r best_fit_result_def prod.case]
  show ?case
  proof (cases "fe_numBlocks x < fe_numBlocks e \<and> (ucast (fe_numBlocks x * bpb) :: u64) \<ge> ucast need + 551")
    case True
    have eq: "best_fit bpb need (es @ [x]) = (x, Some (length es))" using True by (auto simp: best_fit_snoc r)
    have "fe_numBlocks x < 0xffffffff"
      using True best_fit_max [of bpb need es] r by (auto intro: order.strict_trans2)
    then have "fits bpb need x" using True by (simp add: fits_def)
    moreover have "fe_numBlocks x < fe_numBlocks y" if "y \<in> set es" "fits bpb need y" for y
      using IH True that by (cases idx) (auto dest: order.strict_trans2)
    ultimately show ?thesis
      unfolding eq best_fit_result_def by (auto simp: nth_append order.strict_implies_order)
  next
    case False
    then have eq: "best_fit bpb need (es @ [x]) = (e, idx)" by (auto simp: best_fit_snoc r)
    have x: "fe_numBlocks e \<le> fe_numBlocks x" if "fits bpb need x"
      using False that by (simp add: fits_def linorder_not_less)
    show ?thesis
    proof (cases idx)
      case None
      then have "\<not> fits bpb need x" using IH x by (auto simp: fits_def)
      then show ?thesis using None IH by (simp add: eq best_fit_result_def)
    next
      case (Some i)
      then show ?thesis using IH x by (auto simp: eq best_fit_result_def nth_append)
    qed
  qed
qed

section \<open>The size of a new block\<close>

lemma up_to_multiple: "x = q * a + r \<Longrightarrow> r \<le> a \<Longrightarrow> x + (a - r) = (q + 1) * (a :: nat)"
  by (simp add: algebra_simps)

lemma unat_ALIGNTO:
  assumes "0 < unat a" "unat x + unat a < 2 ^ 64"
  shows "unat (ALIGNTO x a) = (unat x div unat a + 1) * unat a"
proof -
  have m: "unat (x mod a) = unat x mod unat a" by (simp add: unat_mod)
  have le: "unat x mod unat a \<le> unat a" using assms(1) by (simp add: less_imp_le)
  have d: "unat (a - x mod a) = unat a - unat x mod unat a"
    using le by (simp add: unat_sub word_le_nat_alt m)
  have "unat x + (unat a - unat x mod unat a) = (unat x div unat a + 1) * unat a"
    by (rule up_to_multiple) (use le in simp_all)
  moreover have "unat x + (unat a - unat x mod unat a) < 2 ^ 64" using assms(2) by simp
  ultimately show ?thesis by (simp add: ALIGNTO_def unat_word_ariths d)
qed

lemma new_block_size:
  fixes need bpb :: u32
  assumes bpb: "0 < unat bpb" and small: "unat need + 551 + unat bpb < 2 ^ 32"
  defines "n \<equiv> (ucast (ALIGNTO (ucast need + 551) (ucast bpb) div ucast bpb) :: u32)"
  shows "unat (n * bpb) = unat n * unat bpb" "unat need + 551 < unat n * unat bpb"
    "unat n * unat bpb \<le> unat need + 551 + unat bpb"
proof -
  let ?x = "unat need + 551"
  have x: "unat (ucast need + 551 :: u64) = ?x"
    using small by (simp add: unat_word_ariths unat_ucast_u32)
  have a: "unat (ucast bpb :: u64) = unat bpb" by (simp add: unat_ucast_u32)
  have A: "unat (ALIGNTO (ucast need + 551) (ucast bpb)) = (?x div unat bpb + 1) * unat bpb"
    using unat_ALIGNTO [of "ucast bpb" "ucast need + 551"] bpb small by (simp add: x a)
  have le: "?x div unat bpb * unat bpb \<le> ?x" by simp
  have q: "?x div unat bpb + 1 < 2 ^ 32"
    using small bpb div_le_dividend [of ?x "unat bpb"] by linarith
  have "unat (ALIGNTO (ucast need + 551) (ucast bpb) div ucast bpb :: u64) = ?x div unat bpb + 1"
    using bpb by (simp only: unat_div A a) simp
  then have n: "unat n = ?x div unat bpb + 1"
    using q by (simp add: n_def unsigned_ucast_eq take_bit_nat_eq_self)
  then show up: "unat n * unat bpb \<le> unat need + 551 + unat bpb" using le by (simp add: algebra_simps)
  then have "unat n * unat bpb < 2 ^ 32" using small by linarith
  then show "unat (n * bpb) = unat n * unat bpb" by (simp add: unat_word_ariths)
  have "?x < (?x div unat bpb + 1) * unat bpb"
    using bpb by (simp add: dividend_less_div_times)
  then show "unat need + 551 < unat n * unat bpb" by (simp add: n)
qed

section \<open>The block of a new entry\<close>

text \<open>
  Where an entry goes: onto the block of a free entry, or onto one behind the last. In both cases the file
  \<open>bs1\<close> has room for the block, and putting an entry and its data there gives a layout again.
\<close>

definition place ::
  "SArchiveHeader \<Rightarrow> SFileEntry list \<Rightarrow> SFileEntry list \<Rightarrow> byte list \<Rightarrow> u32 \<Rightarrow> SFileEntry \<Rightarrow> nat option
     \<Rightarrow> SFileEntry list \<Rightarrow> SFileEntry list \<Rightarrow> byte list \<Rightarrow> bool" where
  "place h entries es bs need entry idx xs ys bs1 \<longleftrightarrow>
     (case idx of None \<Rightarrow> es = xs \<and> ys = []
      | Some i \<Rightarrow> i < length entries \<and> entries ! i = entry \<and> es = xs @ entry # ys)
   \<and> length (fi_filename (fe_info entry)) = 255 \<and> 551 \<le> unat (fe_offset entry)
   \<and> unat (fe_offset entry) - 551 + 551 + unat need \<le> length bs1 \<and> length bs1 < 2 ^ 62
   \<and> length bs \<le> length bs1 \<and> length bs1 < length bs + 2 ^ 32
   \<and> (\<forall>e' data. fe_offset e' = fe_offset entry \<longrightarrow> fe_numBlocks e' = fe_numBlocks entry \<longrightarrow> entry_ok e'
        \<longrightarrow> fe_finalSize e' = need \<longrightarrow> length data = unat need
        \<longrightarrow> (let bs' = overwrite (unat (fe_offset entry) - 551) (entry_bytes e' @ data) bs1
             in layout h (xs @ e' # ys) bs' \<and> (\<forall>g\<in>set xs \<union> set ys. stored g bs' = stored g bs) \<and> stored e' bs' = data
               \<and> length bs' = length bs1))"

lemma place_reuse:
  assumes lay: "layout h es bs" and i: "i < length entries" "entries ! i \<in> set es"
    and fit: "fits (ah_bytesPerBlock h) need (entries ! i)"
  obtains xs ys where "place h entries es bs need (entries ! i) (Some i) xs ys bs"
proof -
  let ?e = "entries ! i"
  let ?bpb = "unat (ah_bytesPerBlock h)"
  obtain xs ys where es: "es = xs @ ?e # ys" using i(2) by (meson split_list)
  note lay' = lay [unfolded es]
  note block = layout_block [OF lay' refl]
  have "unat (fe_numBlocks ?e * ah_bytesPerBlock h) = block_length ?bpb ?e"
    using block(5) by (simp add: block_length_def unat_word_ariths)
  moreover have "unat (ucast need + 551 :: u64) = unat need + 551"
    using unsigned_less [of need, where 'a = nat] by (simp add: unat_word_ariths unat_ucast_u32)
  ultimately have need: "unat need + 551 \<le> block_length ?bpb ?e"
    using fit by (simp add: fits_def word_le_nat_alt unat_ucast_u32)
  have ok: "entry_ok ?e" using block(3) by (simp add: entry_at_def)
  have rep: "layout h (xs @ e' # ys) bs' \<and> (\<forall>g\<in>set xs \<union> set ys. stored g bs' = stored g bs) \<and> stored e' bs' = data
      \<and> length bs' = length bs"
    if "fe_offset e' = fe_offset ?e" "fe_numBlocks e' = fe_numBlocks ?e" "entry_ok e'" "fe_finalSize e' = need"
      "length data = unat need" "bs' = overwrite (unat (fe_offset ?e) - 551) (entry_bytes e' @ data) bs" for e' data bs'
    using layout_replace [OF lay' refl that(1,2,3), of data] need that(4-6) by simp
  have "place h entries es bs need ?e (Some i) xs ys bs"
    unfolding place_def Let_def using es i(1) ok block(1,2,4) need rep by (auto simp: entry_ok_def)
  then show ?thesis by (rule that)
qed

lemma place_append:
  assumes lay: "layout h es bs" and e: "length (fi_filename (fe_info e)) = 255" "unat (fe_offset e) = length bs + 551"
    and bl: "unat need + 551 \<le> block_length (unat (ah_bytesPerBlock h)) e" "block_length (unat (ah_bytesPerBlock h)) e < 2 ^ 32"
    and mem: "length mem = block_length (unat (ah_bytesPerBlock h)) e"
    and small: "length bs + block_length (unat (ah_bytesPerBlock h)) e < 2 ^ 62"
  shows "place h entries es bs need e None es [] (bs @ mem)"
proof -
  let ?bpb = "unat (ah_bytesPerBlock h)"
  have rep: "layout h (es @ [e']) bs' \<and> (\<forall>g\<in>set es. stored g bs' = stored g bs) \<and> stored e' bs' = data
      \<and> length bs' = length (bs @ mem)"
    if e': "fe_offset e' = fe_offset e" "fe_numBlocks e' = fe_numBlocks e" "entry_ok e'" "fe_finalSize e' = need"
      "length data = unat need" "bs' = overwrite (length bs) (entry_bytes e' @ data) (bs @ mem)" for e' data bs'
  proof -
    have b: "block_length ?bpb e' = block_length ?bpb e" using e'(2) by (simp add: block_length_def)
    show ?thesis
      using layout_append [OF lay refl e'(3), of data mem] e e'(1,3-6) bl mem small unfolding b by simp
  qed
  show ?thesis
    unfolding place_def Let_def using e bl mem small rep by auto
qed

lemma find_block_place:
  assumes api: "win32_files api v" and f: "file_at v f w path True pos bs" and lay: "layout h es bs"
    and sub: "set entries \<subseteq> set es" and need: "unat need + 551 + unat (ah_bytesPerBlock h) < 2 ^ 32"
    and small: "length bs + 2 ^ 32 < 2 ^ 62"
  obtains entry idx w1 pos1 bs1 xs ys where
    "find_block api (ah_bytesPerBlock h) need entries f w = Returns (entry, idx, f, w1)"
    "file_at v f w1 path True pos1 bs1" "others v path (handle f) w w1"
    "place h entries es bs need entry idx xs ys bs1"
proof -
  let ?b = "ah_bytesPerBlock h"
  obtain entry idx where r: "best_fit ?b need entries = (entry, idx)" by (cases "best_fit ?b need entries") auto
  note spec = best_fit_result [of ?b need entries, unfolded r best_fit_result_def prod.case]
  show ?thesis
  proof (cases idx)
    case (Some i)
    then have i: "i < length entries" "entry = entries ! i" "fits ?b need entry" using spec by auto
    then have "fe_numBlocks entry \<noteq> 0xffffffff" by (auto simp: fits_def)
    then have fb: "find_block api ?b need entries f w = Returns (entry, idx, f, w)"
      by (simp add: find_block_def r)
    have "entries ! i \<in> set es" using i(1) sub by auto
    then obtain xs ys where "place h entries es bs need entry idx xs ys bs"
      by (rule place_reuse [OF lay i(1)]) (use i Some in auto)
    then show ?thesis using that [OF fb f] by simp
  next
    case None
    let ?n = "ucast (ALIGNTO (ucast need + 551) (ucast ?b) div ucast ?b) :: u32"
    let ?e = "entry\<lparr>fe_numBlocks := ?n, fe_offset := of_nat (length bs) + 551\<rparr>"
    have e: "entry = zero_entry\<lparr>fe_numBlocks := 0xffffffff\<rparr>" using None spec by simp
    have b0: "0 < unat ?b" using lay by (simp add: layout_def)
    note size = new_block_size [OF b0 need]
    obtain w1 where w1: "CVFSFile_SetPosition api (CVFSFile_GetSize api f w) False f w = (f, w1)"
      "file_at v f w1 path True (length bs) bs" "others v path (handle f) w w1"
      by (rule file_seek [OF api f, of "of_nat (length bs)"])
        (use small in \<open>auto simp: file_size [OF api f] unat_of_nat\<close>)
    obtain w2 where w2: "CVFSFile_GetPosition api f w1 = (of_nat (length bs), w2)"
      "file_at v f w2 path True (length bs) bs" "others v path (handle f) w1 w2"
      by (rule file_tell [OF api w1(2)]) (use small in auto)
    obtain mem w3 where w3: "w_uninitialised api (unat (?n * ?b)) w2 = (mem, w3)" "length mem = unat (?n * ?b)"
      "file_at v f w3 path True (length bs) bs" "others v path (handle f) w2 w3"
      by (rule file_memory [OF api w2(2)])
    obtain n w4 where w4: "CVFSFile_Write api mem f w3 = (n, f, w4)"
      "file_at v f w4 path True (length bs + length mem) (write_bytes (length bs) mem bs)" "others v path (handle f) w3 w4"
      by (rule file_write [OF api w3(3), of mem]) (use w3(2) unsigned_less [of "?n * ?b", where 'a = nat] in auto)
    have bs1: "write_bytes (length bs) mem bs = bs @ mem" by (simp add: write_bytes_def overwrite_def)
    have fb: "find_block api ?b need entries f w = Returns (?e, None, f, w4)"
      using b0 w1(1) w2(1) w3(1) w4(1) by (simp add: find_block_def r e Let_def None [unfolded e] unat_gt_0)
    have off: "unat (of_nat (length bs) + 551 :: u64) = length bs + 551"
      using small by (simp add: unat_word_ariths unat_of_nat)
    have bl: "block_length (unat ?b) ?e = unat (?n * ?b)" by (simp add: block_length_def size(1))
    have "place h entries es bs need ?e None es [] (bs @ mem)"
      by (rule place_append [OF lay])
        (use bl off w3(2) size need small in \<open>auto simp: e zero_entry_def zero_info_def\<close>)
    moreover have "others v path (handle f) w w4" by (blast intro: others_trans w1(3) w2(3) w3(4) w4(3))
    ultimately show ?thesis using that [OF fb] w4(2) unfolding bs1 by blast
  qed
qed

section \<open>Putting an entry\<close>

lemma place_files:
  assumes ok: "archive_ok a es bs" and pl: "place h (ar_entries a) es bs need entry idx xs ys bs1"
  shows "ar_files a j = Some g \<longleftrightarrow> j \<noteq> 0 \<and> g \<in> set xs \<union> set ys \<and> entry_index g = j"
    and "mset (erase_at idx (ar_entries a)) = filter_mset (\<lambda>e. entry_index e = 0) (mset (xs @ ys))"
proof -
  have files: "ar_files a j = Some g \<longleftrightarrow> j \<noteq> 0 \<and> g \<in> set es \<and> entry_index g = j"
    and free: "mset (ar_entries a) = filter_mset (\<lambda>e. entry_index e = 0) (mset es)"
    using ok by (auto simp: archive_ok_def)
  have "(ar_files a j = Some g \<longleftrightarrow> j \<noteq> 0 \<and> g \<in> set xs \<union> set ys \<and> entry_index g = j)
    \<and> mset (erase_at idx (ar_entries a)) = filter_mset (\<lambda>e. entry_index e = 0) (mset (xs @ ys))"
  proof (cases idx)
    case None
    then show ?thesis using pl files free by (simp add: place_def erase_at_def)
  next
    case (Some i)
    then have i: "i < length (ar_entries a)" "ar_entries a ! i = entry" and es: "es = xs @ entry # ys"
      using pl by (auto simp: place_def)
    have split: "ar_entries a = take i (ar_entries a) @ entry # drop (Suc i) (ar_entries a)"
      using i id_take_nth_drop by metis
    have m: "mset (ar_entries a) = add_mset entry (mset (erase_at idx (ar_entries a)))"
      unfolding Some erase_at_def option.case by (subst split) simp
    have "entry \<in># mset (ar_entries a)" unfolding m by simp
    then have zero: "entry_index entry = 0" unfolding free by simp
    have "add_mset entry (mset (erase_at idx (ar_entries a)))
        = add_mset entry (filter_mset (\<lambda>e. entry_index e = 0) (mset (xs @ ys)))"
      using zero unfolding m [symmetric] free es by simp
    moreover have "ar_files a j = Some g \<longleftrightarrow> j \<noteq> 0 \<and> g \<in> set xs \<union> set ys \<and> entry_index g = j"
      by (rule archive_files_other [OF ok es]) (use zero in simp)
    ultimately show ?thesis by simp
  qed
  then show "ar_files a j = Some g \<longleftrightarrow> j \<noteq> 0 \<and> g \<in> set xs \<union> set ys \<and> entry_index g = j"
    "mset (erase_at idx (ar_entries a)) = filter_mset (\<lambda>e. entry_index e = 0) (mset (xs @ ys))" by auto
qed

text \<open>The entry is written and its data behind it; the index becomes present in the map.\<close>

lemma put_entry:
  assumes api: "win32_files api v" and f: "file_at v f w path True pos bs1" "c_str (m_fileName f) = path"
    and holds: "archive_holds a es bs M" and free: "ar_files a i = None" and i: "i \<noteq> 0"
    and pl: "place (ar_header a) (ar_entries a) es bs need entry idx xs ys bs1"
    and e': "fe_offset e' = fe_offset entry" "fe_numBlocks e' = fe_numBlocks entry" "entry_ok e'"
      "fe_finalSize e' = need" "entry_index e' = i"
    and data: "length data = unat need" "packs (m_archiveKey a) (fe_info e') data d"
  obtains w' es' bs' where "write_block api e' data f w = (f, w')"
    "archive_at v (a\<lparr>m_vfsFile := Some f, ar_entries := erase_at idx (ar_entries a),
        ar_files := insert_new i e' (ar_files a)\<rparr>) w' path True es' bs' (M(i \<mapsto> d))"
    "length bs' = length bs1" "others v path (handle f) w w'"
proof -
  let ?bs = "overwrite (unat (fe_offset entry) - 551) (entry_bytes e' @ data) bs1"
  let ?a = "a\<lparr>m_vfsFile := Some f, ar_entries := erase_at idx (ar_entries a),
        ar_files := insert_new i e' (ar_files a)\<rparr>"
  have room: "551 \<le> unat (fe_offset entry)" "unat (fe_offset entry) - 551 + 551 + unat need \<le> length bs1"
    "length bs1 < 2 ^ 62" using pl by (auto simp: place_def)
  have lay: "layout (ar_header a) (xs @ e' # ys) ?bs"
    and st: "\<And>g. g \<in> set xs \<union> set ys \<Longrightarrow> stored g ?bs = stored g bs"
    and st': "stored e' ?bs = data" and len: "length ?bs = length bs1"
    using pl e' data(1) unfolding place_def Let_def by blast+
  have fit: "unat (fe_offset e') - 551 + length (entry_bytes e' @ data) \<le> length bs1"
    using room e' data(1) by simp
  obtain w' pos' where w': "write_block api e' data f w = (f, w')"
    "file_at v f w' path True pos' (overwrite (unat (fe_offset e') - 551) (entry_bytes e' @ data) bs1)"
    "others v path (handle f) w w'"
    by (rule write_entry [OF api f(1) e'(3) _ fit]) (use room e'(1) data(1) unsigned_less [of need, where 'a = nat] in auto)
  have ok: "archive_ok a es bs" using holds by (simp add: archive_holds_def)
  note files = place_files(1) [OF ok pl] and free_list = place_files(2) [OF ok pl]
  have notin: "entry_index g \<noteq> i" if "g \<in> set xs \<union> set ys" for g
    using files [of i g] free i that by auto
  have ins: "ar_files ?a = (ar_files a)(i \<mapsto> e')" using free by (simp add: insert_new_def)
  have files': "ar_files ?a j = Some g \<longleftrightarrow> j \<noteq> 0 \<and> g \<in> set (xs @ e' # ys) \<and> entry_index g = j" for j g
    unfolding ins using files [of j g] notin [of g] i e'(5) by auto
  have ok': "archive_ok ?a (xs @ e' # ys) ?bs"
    using lay files' free_list e'(5) i ok by (simp add: archive_ok_def)
  have "archive_holds ?a (xs @ e' # ys) ?bs (M(i \<mapsto> d))"
    unfolding archive_holds_def
  proof (intro conjI allI impI)
    show "archive_ok ?a (xs @ e' # ys) ?bs" by (rule ok')
    show "dom (M(i \<mapsto> d)) = dom (ar_files ?a)" unfolding ins using holds by (simp add: archive_holds_def)
    fix j g d' assume g: "ar_files ?a j = Some g" "(M(i \<mapsto> d)) j = Some d'"
    show "packs (m_archiveKey ?a) (fe_info g) (stored g ?bs) d'"
    proof (cases "j = i")
      case True
      then show ?thesis using g data(2) st' unfolding ins by simp
    next
      case False
      then have "ar_files a j = Some g" "M j = Some d'" using g unfolding ins by auto
      then show ?thesis using holds st [of g] files [of j g] by (simp add: archive_holds_def)
    qed
  qed
  then have "archive_at v ?a w' path True (xs @ e' # ys) ?bs (M(i \<mapsto> d))"
    using w'(2) f(2) unfolding archive_at_def e'(1) by auto
  then show ?thesis using that [OF w'(1)] len w'(3) by blast
qed

section \<open>Write\<close>

text \<open>The map after a write: data with the hash of what is there already is not written.\<close>

definition store_file :: "u32 \<Rightarrow> byte list \<Rightarrow> (u32 \<Rightarrow> byte list option) \<Rightarrow> u32 \<Rightarrow> byte list option" where
  "store_file i d M = (case M i of Some d0 \<Rightarrow> if XXH32 d0 0 = XXH32 d 0 then M else M(i \<mapsto> d) | None \<Rightarrow> M(i \<mapsto> d))"

definition platform_ok :: "'w platform \<Rightarrow> 'w file_view \<Rightarrow> bool" where
  "platform_ok p v \<longleftrightarrow> win32_files (pl_api p) v \<and> junk_ok (pl_junk p)"

lemma wcscpy_name:
  assumes "length (c_str src) < 255" "length dest = 255"
  obtains name where "wcscpy_s dest src = Returns name" "length name = 255"
  using that [of "overwrite 0 (c_str src @ [0]) dest"] assms by (simp add: wcscpy_s_def length_overwrite)

lemma Delete_any:
  assumes api: "win32_files api v" and at: "archive_at v a w path True es bs M"
  obtains r a' w' es' bs' where "CVFSArchive_Delete api i a w = (r, a', w')"
    "archive_at v a' w' path True es' bs' (M(i := None))" "ar_files a' i = None"
    "m_vfsFile a' = m_vfsFile a" "ar_header a' = ar_header a" "m_archiveKey a' = m_archiveKey a"
    "length bs' = length bs" "others v path (handle (the (m_vfsFile a))) w w'" "r \<longleftrightarrow> ar_files a i \<noteq> None"
proof (cases "ar_files a i")
  case None
  have "M i = None" using at None by (auto simp: archive_at_def archive_holds_def)
  then have "M(i := None) = M" by auto
  moreover have "CVFSArchive_Delete api i a w = (False, a, w)"
    using None at file_at_valid by (auto simp: CVFSArchive_Delete_def archive_at_def)
  ultimately show ?thesis using that [of False a w es bs] at None by simp
next
  case (Some e)
  obtain a' w' es' bs' where "CVFSArchive_Delete api i a w = (True, a', w')"
    "archive_at v a' w' path True es' bs' (M(i := None))" "ar_files a' = (ar_files a)(i := None)"
    "m_vfsFile a' = m_vfsFile a" "ar_header a' = ar_header a" "m_archiveKey a' = m_archiveKey a"
    "length bs' = length bs" "others v path (handle (the (m_vfsFile a))) w w'"
    by (rule Delete_correct [OF api at Some])
  then show ?thesis using that [of True a' w' es' bs'] Some by simp
qed

text \<open>What every step of a run keeps: the file, the header, the key, everything outside.\<close>

definition same_archive :: "'w file_view \<Rightarrow> wstring \<Rightarrow> CVFSArchive \<Rightarrow> 'w \<Rightarrow> CVFSArchive \<Rightarrow> 'w \<Rightarrow> bool" where
  "same_archive v path a w a' w' \<longleftrightarrow> m_vfsFile a' = m_vfsFile a \<and> ar_header a' = ar_header a
     \<and> m_archiveKey a' = m_archiveKey a \<and> others v path (handle (the (m_vfsFile a))) w w'"

lemma same_archive_refl [simp]: "same_archive v path a w a w"
  by (simp add: same_archive_def)

lemma same_archive_trans:
  "same_archive v path a1 w1 a2 w2 \<Longrightarrow> same_archive v path a2 w2 a3 w3 \<Longrightarrow> same_archive v path a1 w1 a3 w3"
  by (auto simp: same_archive_def intro: others_trans)

lemma Write_same_hash:
  assumes at: "archive_at v a w path True es bs M" and M: "M (GenerateNameIndex filename) = Some d0"
    "XXH32 d0 0 = XXH32 (take (unat len) data) 0" and len: "unat len \<le> length data"
  shows "CVFSArchive_Write p filename data len flags version a w = (Returns True, a, w)"
proof -
  obtain f pos where f: "m_vfsFile a = Some f" "file_at v f w path True pos bs"
    using at by (auto simp: archive_at_def)
  obtain e where e: "ar_files a (GenerateNameIndex filename) = Some e"
    using at M archive_holds_iff [of a es bs M "GenerateNameIndex filename"] by (auto simp: archive_at_def)
  have "packs (m_archiveKey a) (fe_info e) (stored e bs) d0"
    using at e M archive_holds_packs by (auto simp: archive_at_def)
  then have "fi_hash (fe_info e) = XXH32 (take (unat len) data) 0" using M by (simp add: packs_def)
  then show ?thesis
    using f(1) file_at_valid [OF f(2)] e len by (simp add: CVFSArchive_Write_def Let_def)
qed

lemma Write_new:
  assumes p: "platform_ok p v" and at: "archive_at v a w path True es bs M"
    and i: "GenerateNameIndex filename \<noteq> 0" "length (c_str filename) < 255"
    and len: "unat len \<le> length data" "unat len \<le> MAX_INPUT"
    and bpb: "unat (ah_bytesPerBlock (ar_header a)) \<le> 2 ^ 30" and small: "length bs + 2 ^ 32 < 2 ^ 62"
    and new: "\<And>d0. M (GenerateNameIndex filename) = Some d0 \<Longrightarrow> XXH32 d0 0 \<noteq> XXH32 (take (unat len) data) 0"
  obtains a' w' es' bs' where "CVFSArchive_Write p filename data len flags version a w = (Returns True, a', w')"
    "archive_at v a' w' path True es' bs' (M(GenerateNameIndex filename \<mapsto> take (unat len) data))"
    "length bs' < length bs + 2 ^ 32" "same_archive v path a w a' w'"
proof -
  let ?i = "GenerateNameIndex filename" and ?d = "take (unat len) data"
  have api: "win32_files (pl_api p) v" and junk: "junk_ok (pl_junk p)"
    using p by (auto simp: platform_ok_def)
  obtain f pos where f: "m_vfsFile a = Some f" "file_at v f w path True pos bs"
    using at by (auto simp: archive_at_def)
  have key: "length (m_archiveKey a) = 32" using at by (simp add: archive_at_def archive_holds_def archive_ok_def)
  obtain cb cr fl where pack: "pack_data p (m_archiveKey a) data len flags = Returns (cb, cr, fl)"
    and cb: "buffer_ok cb" "buffer_ok cr" "payload fl (contents cb) ?d" "sealed (m_archiveKey a) fl (contents cr) (contents cb)"
      "length (contents cb) + 2048 < 2 ^ 31" "length (contents cr) \<le> unat len + unat len div 255 + 32"
    by (rule pack_data_sealed [OF junk key len, of flags])
  have sz: "unat (get_size cr) = length (contents cr)" "unat (get_size cb) = length (contents cb)"
    using length_contents cb(1,2) by metis+
  obtain r a1 w1 es1 bs1 where del: "CVFSArchive_Delete (pl_api p) ?i a w = (r, a1, w1)"
    and a1: "archive_at v a1 w1 path True es1 bs1 (M(?i := None))" "ar_files a1 ?i = None"
      "m_vfsFile a1 = m_vfsFile a" "ar_header a1 = ar_header a" "m_archiveKey a1 = m_archiveKey a"
      "length bs1 = length bs" "others v path (handle (the (m_vfsFile a))) w w1"
    by (rule Delete_any [OF api at])
  have holds1: "archive_holds a1 es1 bs1 (M(?i := None))" using a1(1) by (simp add: archive_at_def)
  then have ok1: "archive_ok a1 es1 bs1" by (simp add: archive_holds_def)
  then have lay1: "layout (ar_header a1) es1 bs1" by (simp add: archive_ok_def)
  obtain pos1 where f1: "file_at v f w1 path True pos1 bs1" "c_str (m_fileName f) = path"
    using a1(1,3) f(1) by (auto simp: archive_at_def)
  have sub: "set (ar_entries a1) \<subseteq> set es1" using archive_block [OF ok1] by blast
  have need: "unat (get_size cr) + 551 + unat (ah_bytesPerBlock (ar_header a1)) < 2 ^ 32"
    using cb(6) len(2) bpb a1(4) sz by (simp add: MAX_INPUT_def)
  have small1: "length bs1 + 2 ^ 32 < 2 ^ 62" using small a1(6) by simp
  obtain entry idx w2 pos2 bs2 xs ys where fb: "find_block (pl_api p) (ah_bytesPerBlock (ar_header a1)) (get_size cr)
      (ar_entries a1) f w1 = Returns (entry, idx, f, w2)"
    and w2: "file_at v f w2 path True pos2 bs2" "others v path (handle f) w1 w2"
    and pl: "place (ar_header a1) (ar_entries a1) es1 bs1 (get_size cr) entry idx xs ys bs2"
    by (rule find_block_place [OF api f1(1) lay1 sub need small1])
  have bs2: "length bs2 < length bs + 2 ^ 32" using pl a1(6) by (simp add: place_def)
  have "length (fi_filename (fe_info entry)) = 255" using pl by (simp add: place_def)
  then obtain name where name: "wcscpy_s (fi_filename (fe_info entry)) filename = Returns name" "length name = 255"
    by (rule wcscpy_name [OF i(2)])
  let ?e = "entry\<lparr>fe_info := \<lparr>fi_index = ?i, fi_hash = XXH32 ?d 0, fi_version = version, fi_flags = fl,
      fi_rawsize = len, fi_compressedsize = get_size cb, fi_cryptedsize = get_size cr, fi_filename = name\<rparr>,
      fe_finalSize := get_size cr\<rparr>"
  have packs: "packs (m_archiveKey a1) (fe_info ?e) (contents cr) ?d"
    unfolding a1(5)
  proof (rule packs_sealed [OF key cb(4,3)])
    show "fi_compressedsize (fe_info ?e) = of_nat (length (contents cb))" using sz(2) by (simp flip: sz(2))
    show "length (contents cr) < 2 ^ 32" using sz(1) unsigned_less [of "get_size cr", where 'a = nat] by simp
    show "length ?d < 2 ^ 31" using len by (simp add: MAX_INPUT_def)
  qed (use len cb(5) in simp_all)
  obtain w3 es3 bs3 where w3: "write_block (pl_api p) ?e (contents cr) f w2 = (f, w3)"
    "archive_at v (a1\<lparr>m_vfsFile := Some f, ar_entries := erase_at idx (ar_entries a1),
        ar_files := insert_new ?i ?e (ar_files a1)\<rparr>) w3 path True es3 bs3 ((M(?i := None))(?i \<mapsto> ?d))"
    "length bs3 = length bs2" "others v path (handle f) w2 w3"
    by (rule put_entry [OF api w2(1) f1(2) holds1 a1(2) i(1) pl _ _ _ _ _ _ packs])
      (use name(2) sz(1) in \<open>simp_all add: entry_ok_def entry_index_def\<close>)
  have wr: "CVFSArchive_Write p filename data len flags version a w = (Returns True,
      a1\<lparr>m_vfsFile := Some f, ar_entries := erase_at idx (ar_entries a1),
        ar_files := insert_new ?i ?e (ar_files a1)\<rparr>, w3)"
  proof -
    have "\<not> (case ar_files a ?i of None \<Rightarrow> False | Some e \<Rightarrow> fi_hash (fe_info e) = XXH32 ?d 0)"
    proof (cases "ar_files a ?i")
      case (Some e)
      then obtain d0 where "M ?i = Some d0"
        using at archive_holds_iff [of a es bs M ?i] by (auto simp: archive_at_def)
      moreover have "packs (m_archiveKey a) (fe_info e) (stored e bs) d0"
        using at Some calculation archive_holds_packs by (auto simp: archive_at_def)
      ultimately show ?thesis using new Some by (simp add: packs_def)
    qed simp
    then show ?thesis
      using f(1) file_at_valid [OF f(2)] len(1) a1(3) fb name(1) w3(1)
      unfolding CVFSArchive_Write_def Let_def pack del by simp
  qed
  have "others v path (handle f) w w3"
    using a1(7) w2(2) w3(4) f(1) by (auto intro: others_trans)
  then have "same_archive v path a w (a1\<lparr>m_vfsFile := Some f, ar_entries := erase_at idx (ar_entries a1),
        ar_files := insert_new ?i ?e (ar_files a1)\<rparr>) w3"
    using f(1) a1 by (simp add: same_archive_def)
  then show ?thesis using that [OF wr] w3(2,3) bs2 by simp
qed

lemma Write_correct:
  assumes p: "platform_ok p v" and at: "archive_at v a w path True es bs M"
    and i: "GenerateNameIndex filename \<noteq> 0" "length (c_str filename) < 255"
    and len: "unat len \<le> length data" "unat len \<le> MAX_INPUT"
    and bpb: "unat (ah_bytesPerBlock (ar_header a)) \<le> 2 ^ 30" and small: "length bs + 2 ^ 32 < 2 ^ 62"
  obtains a' w' es' bs' where "CVFSArchive_Write p filename data len flags version a w = (Returns True, a', w')"
    "archive_at v a' w' path True es' bs' (store_file (GenerateNameIndex filename) (take (unat len) data) M)"
    "length bs' < length bs + 2 ^ 32" "same_archive v path a w a' w'"
proof (cases "\<exists>d0. M (GenerateNameIndex filename) = Some d0 \<and> XXH32 d0 0 = XXH32 (take (unat len) data) 0")
  case True
  then obtain d0 where M: "M (GenerateNameIndex filename) = Some d0" "XXH32 d0 0 = XXH32 (take (unat len) data) 0"
    by blast
  then have "store_file (GenerateNameIndex filename) (take (unat len) data) M = M" by (simp add: store_file_def)
  then show ?thesis using that [of a w es bs] Write_same_hash [OF at M len(1)] at by simp
next
  case False
  then have "store_file (GenerateNameIndex filename) (take (unat len) data) M
      = M(GenerateNameIndex filename \<mapsto> take (unat len) data)"
    by (auto simp: store_file_def split: option.split)
  moreover have "\<And>d0. M (GenerateNameIndex filename) = Some d0 \<Longrightarrow> XXH32 d0 0 \<noteq> XXH32 (take (unat len) data) 0"
    using False by blast
  ultimately show ?thesis using that Write_new [OF p at i len bpb small, of flags version] by metis
qed

end
