(* ===== verification/Archive_Load.thy ===== *)
theory Archive_Load
  imports Archive_Write
begin

text \<open>
  Loading an archive and opening a file in it. The loop over the blocks of a well-formed file ends at its
  end with every entry in the place it belongs to; so what was written before is held again after the
  archive is loaded, and opening a file gives a memory file with its contents.
\<close>

section \<open>The loop over the blocks\<close>

definition add_file :: "SFileEntry \<Rightarrow> (u32 \<Rightarrow> SFileEntry option) \<Rightarrow> u32 \<Rightarrow> SFileEntry option" where
  "add_file e m = (if entry_index e = 0 then m else insert_new (entry_index e) e m)"

lemma add_file_apply:
  "add_file e m j = (if entry_index e = j \<and> j \<noteq> 0 \<and> m j = None then Some e else m j)"
  by (simp add: add_file_def insert_new_def)

lemma load_loop_end:
  assumes api: "win32_files api v" and f: "file_at v f w path wr (length bs) bs" and len: "length bs < 2 ^ 62"
  obtains w' where "load_loop api bpb f files entries w = Some (Returns (), f, files, entries, w')"
    "file_at v f w' path wr (length bs) bs" "others v path (handle f) w w'"
proof -
  obtain w' where w': "CVFSFile_GetPosition api f w = (of_nat (length bs), w')"
    "file_at v f w' path wr (length bs) bs" "others v path (handle f) w w'"
    by (rule file_tell [OF api f]) (use len in simp)
  have "load_loop api bpb f files entries w = Some (Returns (), f, files, entries, w')"
    using w'(1) file_size [OF api w'(2)] by (simp add: load_loop.simps [of api bpb f files entries w])
  then show ?thesis using that w'(2,3) by blast
qed

lemma load_loop_step:
  assumes api: "win32_files api v" and f: "file_at v f w path wr pos bs" and len: "length bs < 2 ^ 62"
    and e: "entry_at (unat bpb) bs e" "unat (fe_offset e) = pos + 551" "pos + block_length (unat bpb) e \<le> length bs"
    and pos: "0 < block_length (unat bpb) e"
  obtains w' where "load_loop api bpb f files entries w
      = load_loop api bpb f (add_file e files) (if entry_index e = 0 then entries @ [e] else entries) w'"
    "file_at v f w' path wr (pos + block_length (unat bpb) e) bs" "others v path (handle f) w w'"
proof -
  have eok: "entry_ok e" and bl: "block_length (unat bpb) e < 2 ^ 32"
    and sl: "slice pos 551 bs = entry_bytes e" using e by (simp_all add: entry_at_def)
  obtain w1 where w1: "CVFSFile_GetPosition api f w = (of_nat pos, w1)"
    "file_at v f w1 path wr pos bs" "others v path (handle f) w w1"
    by (rule file_tell [OF api f]) (use len e pos in simp)
  obtain mem w2 where w2: "w_uninitialised api 551 w1 = (mem, w2)" "length mem = 551"
    "file_at v f w2 path wr pos bs" "others v path (handle f) w1 w2"
    by (rule file_memory [OF api w1(2)])
  obtain w3 where w3: "CVFSFile_Read api 551 f w2 = (Returns (slice pos (unat (551 :: u32)) bs), f, w3)"
    "file_at v f w3 path wr (pos + length (slice pos (unat (551 :: u32)) bs)) bs" "others v path (handle f) w2 w3"
    by (rule file_read [OF api w2(3)])
  have read: "CVFSFile_Read api 551 f w2 = (Returns (entry_bytes e), f, w3)" using w3(1) sl by simp
  have image: "bytes_entry (overwrite 0 (entry_bytes e) mem) = e"
    using w2(2) eok by (simp add: overwrite_def entry_inverse)
  have "unat (fe_offset e - 551) = pos"
    using e(2) by (simp add: unat_sub word_le_nat_alt)
  moreover have "unat (ucast (fe_numBlocks e * bpb) :: u64) = block_length (unat bpb) e"
    using bl by (simp add: unat_ucast_u32 block_length_def unat_word_ariths)
  ultimately have next': "unat (fe_offset e - 551 + ucast (fe_numBlocks e * bpb)) = pos + block_length (unat bpb) e"
    using e(3) len by (simp add: unat_word_ariths)
  obtain w4 where w4: "CVFSFile_SetPosition api (fe_offset e - 551 + ucast (fe_numBlocks e * bpb)) False f w3 = (f, w4)"
    "file_at v f w4 path wr (pos + block_length (unat bpb) e) bs" "others v path (handle f) w3 w4"
    by (rule file_seek [OF api w3(2), of "fe_offset e - 551 + ucast (fe_numBlocks e * bpb)", unfolded next'])
      (use e(3) len in auto)
  have lt: "(of_nat pos :: u64) < CVFSFile_GetSize api f w1"
    using e(3) pos len by (simp add: file_size [OF api w1(2)] word_less_nat_alt unat_of_nat)
  have "load_loop api bpb f files entries w
      = load_loop api bpb f (add_file e files) (if entry_index e = 0 then entries @ [e] else entries) w4"
    using w1(1) lt w2(1) read w4(1)
    by (simp add: load_loop.simps [of api bpb f files entries w] image Let_def add_file_def entry_index_def)
  moreover have "others v path (handle f) w w4" by (blast intro: others_trans w1(3) w2(4) w3(3) w4(3))
  ultimately show ?thesis using that w4(2) by blast
qed

lemma load_loop_blocks:
  assumes "win32_files api v" "file_at v f w path wr pos bs" "length bs < 2 ^ 62"
    and "chain (unat bpb) pos es (length bs)" "\<forall>e\<in>set es. entry_at (unat bpb) bs e"
  shows "\<exists>w'. load_loop api bpb f files entries w
      = Some (Returns (), f, fold add_file es files, entries @ filter (\<lambda>e. entry_index e = 0) es, w')
    \<and> file_at v f w' path wr (length bs) bs \<and> others v path (handle f) w w'"
  using assms
proof (induction es arbitrary: pos files entries w)
  case Nil
  then have f: "file_at v f w path wr (length bs) bs" by simp
  show ?case by (rule load_loop_end [OF Nil(1) f Nil(3), of bpb files entries]) simp
next
  case (Cons e es)
  let ?p = "pos + block_length (unat bpb) e"
  have c: "unat (fe_offset e) = pos + 551" "0 < block_length (unat bpb) e" "chain (unat bpb) ?p es (length bs)"
    and at: "entry_at (unat bpb) bs e" "\<forall>e\<in>set es. entry_at (unat bpb) bs e"
    using Cons.prems(4,5) by auto
  obtain w1 where w1: "load_loop api bpb f files entries w
      = load_loop api bpb f (add_file e files) (if entry_index e = 0 then entries @ [e] else entries) w1"
    "file_at v f w1 path wr ?p bs" "others v path (handle f) w w1"
    by (rule load_loop_step [OF Cons.prems(1-3) at(1) c(1) chain_le [OF c(3)] c(2)])
  obtain w' where "load_loop api bpb f (add_file e files) (if entry_index e = 0 then entries @ [e] else entries) w1
      = Some (Returns (), f, fold add_file es (add_file e files),
          (if entry_index e = 0 then entries @ [e] else entries) @ filter (\<lambda>e. entry_index e = 0) es, w')"
    "file_at v f w' path wr (length bs) bs" "others v path (handle f) w1 w'"
    using Cons.IH [OF Cons.prems(1) w1(2) Cons.prems(3) c(3) at(2)] by blast
  then show ?case using w1(1,3) by (auto intro: others_trans)
qed

text \<open>Indices that are in use occur once, so the order does not matter.\<close>

lemma fold_add_file:
  assumes "\<And>e g. e \<in> set es \<Longrightarrow> g \<in> set es \<Longrightarrow> entry_index e = entry_index g \<Longrightarrow> entry_index e \<noteq> 0 \<Longrightarrow> e = g"
  shows "fold add_file es Map.empty j = Some g \<longleftrightarrow> j \<noteq> 0 \<and> g \<in> set es \<and> entry_index g = j"
  using assms
proof (induction es arbitrary: g rule: rev_induct)
  case Nil
  then show ?case by simp
next
  case (snoc x es)
  let ?m = "fold add_file es Map.empty"
  have IH: "?m j = Some g \<longleftrightarrow> j \<noteq> 0 \<and> g \<in> set es \<and> entry_index g = j" for g
    by (rule snoc.IH) (use snoc.prems in auto)
  have step: "fold add_file (es @ [x]) Map.empty j
      = (if entry_index x = j \<and> j \<noteq> 0 \<and> ?m j = None then Some x else ?m j)"
    by (simp only: fold_append comp_def fold.simps id_apply add_file_apply)
  show ?case
    unfolding step
  proof (cases "entry_index x \<noteq> 0 \<and> entry_index x = j")
    case False
    then show "((if entry_index x = j \<and> j \<noteq> 0 \<and> ?m j = None then Some x else ?m j) = Some g)
        = (j \<noteq> 0 \<and> g \<in> set (es @ [x]) \<and> entry_index g = j)" using IH [of g] by auto
  next
    case True
    have same: "y = x" if "y \<in> set es" "entry_index y = j" for y
      using snoc.prems [of y x] that True by auto
    show "((if entry_index x = j \<and> j \<noteq> 0 \<and> ?m j = None then Some x else ?m j) = Some g)
        = (j \<noteq> 0 \<and> g \<in> set (es @ [x]) \<and> entry_index g = j)"
    proof (cases "?m j")
      case None
      have "g \<notin> set es \<or> entry_index g \<noteq> j" using IH [of g] None True by auto
      then show ?thesis using None True by auto
    next
      case (Some y)
      then have "y = x" using IH [of y] same by blast
      then show ?thesis using Some True same [of g] by auto
    qed
  qed
qed

lemma map_eqI: "(\<And>j g. m j = Some g \<longleftrightarrow> n j = Some g) \<Longrightarrow> m = n"
proof
  fix j assume "\<And>j g. m j = Some g \<longleftrightarrow> n j = Some g"
  then have "\<And>g. m j = Some g \<longleftrightarrow> n j = Some g" .
  then show "m j = n j" by (cases "n j"; cases "m j") auto
qed

section \<open>Load\<close>

lemma Load_correct:
  assumes api: "win32_files api v" and f: "file_at v f w path wr pos bs" "c_str (m_fileName f) = path"
    and held: "archive_holds a0 es bs M" and key: "32 \<le> length key" "m_archiveKey a0 = take 32 key"
    and free: "m_vfsFile a = None \<or> m_vfsFile a = Some f"
  obtains a' w' where "CVFSArchive_Load api (Some f) (Some key) a w = Some (Returns True, a', w')"
    "archive_at v a' w' path wr es bs M" "m_vfsFile a' = Some f" "ar_header a' = ar_header a0"
    "m_archiveKey a' = take 32 key" "others v path (handle f) w w'"
proof -
  let ?h = "ar_header a0"
  have ok: "archive_ok a0 es bs" using held by (simp add: archive_holds_def)
  have lay: "ah_magic ?h = ARCHIVE_MAGIC" "take 12 bs = header_bytes ?h" "length bs < 2 ^ 62"
    "chain (unat (ah_bytesPerBlock ?h)) (unat (ah_firstEntry ?h)) es (length bs)"
    "\<forall>e\<in>set es. entry_at (unat (ah_bytesPerBlock ?h)) bs e"
    using ok by (auto simp: archive_ok_def layout_def)
  obtain w1 where w1: "CVFSFile_SetPosition api 0 False f w = (f, w1)" "file_at v f w1 path wr 0 bs"
    "others v path (handle f) w w1"
    by (rule file_seek [OF api f(1), of 0]) auto
  have sl: "slice 0 (unat (12 :: u32)) bs = header_bytes ?h" using lay(2) by (simp add: slice_def)
  obtain w2 where w2: "CVFSFile_Read api 12 f w1 = (Returns (header_bytes ?h), f, w2)" "file_at v f w2 path wr 12 bs"
    "others v path (handle f) w1 w2"
    by (rule file_read [OF api w1(2), of 12, unfolded sl length_header_bytes]) simp
  obtain w3 where w3: "CVFSFile_SetPosition api (ucast (ah_firstEntry ?h)) False f w2 = (f, w3)"
    "file_at v f w3 path wr (unat (ah_firstEntry ?h)) bs" "others v path (handle f) w2 w3"
    by (rule file_seek [OF api w2(2), of "ucast (ah_firstEntry ?h)", unfolded unat_ucast_u32])
      (use unsigned_less [of "ah_firstEntry ?h", where 'a = nat] in \<open>auto\<close>)
  obtain w' where w': "load_loop api (ah_bytesPerBlock ?h) f Map.empty [] w3
      = Some (Returns (), f, fold add_file es Map.empty, [] @ filter (\<lambda>e. entry_index e = 0) es, w')"
    "file_at v f w' path wr (length bs) bs" "others v path (handle f) w3 w'"
    using load_loop_blocks [OF api w3(2) lay(3-5), of Map.empty "[]"] by blast
  let ?a = "a\<lparr>m_vfsFile := Some f, m_archiveKey := take 32 key, ar_header := ?h,
    ar_files := fold add_file es Map.empty, ar_entries := filter (\<lambda>e. entry_index e = 0) es\<rparr>"
  have un: "unload_keeping api (Some f) a w = (a\<lparr>m_archiveKey := replicate 32 0, ar_entries := [],
      ar_files := Map.empty, ar_header := zero_header, m_vfsFile := None\<rparr>, w)"
    using free by (auto simp: unload_keeping_def)
  have hdr: "bytes_header (overwrite 0 (header_bytes ?h) (header_bytes zero_header)) = ?h"
    by (simp add: overwrite_def header_inverse)
  have "CVFSArchive_Load api (Some f) (Some key) a w = Some (Returns True, ?a, w')"
    using file_at_valid [OF f(1)] key(1) w1(1) w2(1) w3(1) w'(1) lay(1)
    by (simp add: CVFSArchive_Load_def un Let_def hdr linorder_not_less)
  moreover have "archive_holds ?a es bs M"
  proof -
    have inj: "e = g" if "e \<in> set es" "g \<in> set es" "entry_index e = entry_index g" "entry_index e \<noteq> 0" for e g
      using ok that unfolding archive_ok_def by (metis option.inject)
    have "fold add_file es Map.empty j = Some g \<longleftrightarrow> ar_files a0 j = Some g" for j g
      using fold_add_file [of es j g] inj ok by (auto simp: archive_ok_def)
    then have files: "fold add_file es Map.empty = ar_files a0" by (rule map_eqI)
    have "archive_ok ?a es bs" using ok key(1) by (simp add: archive_ok_def files)
    then show ?thesis using held key(2) by (simp add: archive_holds_def files)
  qed
  then have "archive_at v ?a w' path wr es bs M"
    using w'(2) f(2) by (auto simp: archive_at_def)
  moreover have "others v path (handle f) w w'" by (blast intro: others_trans w1(3) w2(3) w3(3) w'(3))
  ultimately show ?thesis by (intro that [of ?a w']) simp_all
qed

section \<open>Open\<close>

lemma Assign_buffer:
  assumes "buffer_ok b" "contents b = d"
  shows "CVFSFile_Assign api name (buffer_pointer b) (get_size b) True f w
    = (Returns True, (fst (CVFSFile_Close api f w))\<lparr>m_rawData := Some d, m_rawSize := of_nat (length d),
        m_memOwner := True, m_fileType := FILE_TYPE_MEMORY, m_fileName := name\<rparr>, snd (CVFSFile_Close api f w))"
proof -
  have len: "unat (get_size b) = length d" using length_contents [OF assms(1)] assms(2) by simp
  have "of_nat (unat (get_size b)) = get_size b" by simp
  then have "get_size b = of_nat (length d)" unfolding len by (rule sym)
  moreover have "length d < 2 ^ 32" using len unsigned_less [of "get_size b", where 'a = nat] by simp
  ultimately have sz: "(ucast (get_size b) :: u64) = of_nat (length d)" by (simp add: ucast_of_small_nat)
  have data: "take (length d) (db_data b) = d" "length d \<le> length (db_data b)"
    using assms len by (auto simp: contents_def get_size_def buffer_ok_def word_le_nat_alt)
  show ?thesis
    using data len sz
    by (auto simp: CVFSFile_Assign_def buffer_pointer_def case_prod_unfold Let_def unat_eq_zero)
qed

lemma Open_correct:
  assumes p: "platform_ok p v" and at: "archive_at v a w path wr es bs M" and M: "M i = Some d"
    and share: "can_read v w path"
  obtains f' w' where "CVFSArchive_Open p i a w = (Returns (Some f'), w')" "memory_at f' d 0"
    "fv_disk v w' = fv_disk v w" "fv_open v w' = fv_open v w" "fv_rest v w' = fv_rest v w"
    "m_fileHandle f' = None" "m_mapHandle f' = None" "m_mappedData f' = None"
proof -
  let ?api = "pl_api p"
  have api: "win32_files ?api v" and junk: "junk_ok (pl_junk p)" using p by (auto simp: platform_ok_def)
  have holds: "archive_holds a es bs M" using at by (simp add: archive_at_def)
  then have ok: "archive_ok a es bs" by (simp add: archive_holds_def)
  obtain g pos where g: "m_vfsFile a = Some g" "file_at v g w path wr pos bs" "c_str (m_fileName g) = path"
    using at by (auto simp: archive_at_def)
  obtain e where e: "ar_files a i = Some e" using M archive_holds_iff [OF holds, of i] by auto
  have "e \<in> set es" using archive_block [OF ok] e by blast
  then obtain xs ys where es: "es = xs @ e # ys" by (meson split_list)
  have lay: "layout (ar_header a) (xs @ e # ys) bs" using ok es by (simp add: archive_ok_def)
  note block = layout_block [OF lay refl]
  have fit: "unat (fe_offset e) + unat (fe_finalSize e) \<le> length bs"
    using block(1,2) conjunct1 [OF conjunct2 [OF conjunct2 [OF block(3) [unfolded entry_at_def]]]] by linarith
  have disk: "fv_disk v w path = Some bs" using g(2) by (simp add: file_at_def)
  obtain ok1 f1 w1 where r1: "CVFSFile_Open ?api (m_fileName g) CVFSFile_new w = (ok1, f1, w1)"
    by (cases "CVFSFile_Open ?api (m_fileName g) CVFSFile_new w") auto
  have o1: "ok1" "file_at v f1 w1 path False 0 bs" "fv_disk v w1 = fv_disk v w"
    using Open_outcome [OF api, where name = "m_fileName g" and w = w] r1 g(3) disk share by auto
  have h1: "file_ok f1 \<and> holds v w f1 w1" by (rule run_Open [OF api holds_new [OF refl refl] r1])
  obtain w2 where r2: "CVFSFile_SetPosition ?api (fe_offset e) False f1 w1 = (f1, w2)"
    "file_at v f1 w2 path False (unat (fe_offset e)) bs" "others v path (handle f1) w1 w2"
    by (rule file_seek [OF api o1(2), of "fe_offset e"]) (use fit block(4) in auto)
  have h2: "file_ok f1 \<and> holds v w f1 w2" using run_SetPosition [OF api _ _ r2(1)] h1 by blast
  obtain w3 where r3: "CVFSFile_Read ?api (fe_finalSize e) f1 w2 = (Returns (stored e bs), f1, w3)"
    "file_at v f1 w3 path False (unat (fe_offset e) + length (stored e bs)) bs" "others v path (handle f1) w2 w3"
    by (rule file_read [OF api r2(2), of "fe_finalSize e", folded stored_def]) simp
  have h3: "holds v w f1 w3" using run_Read [OF api _ _ r3(1)] h2 by blast
  have "length (stored e bs) = unat (fe_finalSize e)" using fit by (simp add: stored_def length_slice)
  then have size: "of_nat (length (stored e bs)) = fe_finalSize e" by simp
  obtain b where b: "unpack_data (pl_junk p) (m_archiveKey a) (fe_info e) (stored e bs) = Returns (Some b)"
    "buffer_ok b" "contents b = d"
    using archive_holds_packs [OF holds e M] junk unfolding packs_def by blast
  have len: "length d < 2 ^ 32"
    using length_contents [OF b(2)] b(3) unsigned_less [of "get_size b", where 'a = nat] by simp
  let ?f = "(fst (CVFSFile_Close ?api f1 w3))\<lparr>m_rawData := Some d, m_rawSize := of_nat (length d),
        m_memOwner := True, m_fileType := FILE_TYPE_MEMORY, m_fileName := c_str (fi_filename (fe_info e))\<rparr>"
  have "CVFSArchive_Open p i a w = (Returns (Some ?f), snd (CVFSFile_Close ?api f1 w3))"
    using e g(1) r1 o1(1) r2(1) r3(1) size b(1)
    by (simp add: CVFSArchive_Open_def CVFSFile_GetFileName_def Let_def Assign_buffer [OF b(2,3)])
  moreover have "memory_at ?f d 0"
    using len by (simp add: memory_at_def Close_file CVFSFile_new_def)
  moreover have "fv_disk v w3 = fv_disk v w"
  proof
    fix q show "fv_disk v w3 q = fv_disk v w q"
      using r2(3) r3(3) r3(2) o1(3) disk by (cases "q = path") (auto simp: others_def file_at_def)
  qed
  ultimately show ?thesis
    using Close_handles [OF api h3] by (intro that [of ?f "snd (CVFSFile_Close ?api f1 w3)"]) (simp_all add: Close_file CVFSFile_new_def)
qed

text \<open>A name that is not there, or an archive that is itself open for writing, gives nothing.\<close>

lemma Open_absent: "M i = None \<Longrightarrow> archive_holds a es bs M \<Longrightarrow> CVFSArchive_Open p i a w = (Returns None, w)"
  by (simp add: CVFSArchive_Open_def archive_holds_iff [of a es bs M])

lemma Open_while_writing:
  assumes p: "win32_files (pl_api p) v" and at: "archive_at v a w path True es bs M"
  obtains w' where "CVFSArchive_Open p i a w = (Returns None, w')" "fv_disk v w' = fv_disk v w" "fv_open v w' = fv_open v w"
    "fv_rest v w' = fv_rest v w"
proof (cases "ar_files a i")
  case None
  then show ?thesis using that [of w] by (simp add: CVFSArchive_Open_def)
next
  case (Some e)
  obtain g pos where g: "m_vfsFile a = Some g" "file_at v g w path True pos bs" "c_str (m_fileName g) = path"
    using at by (auto simp: archive_at_def)
  obtain ok1 f1 w1 where r1: "CVFSFile_Open (pl_api p) (m_fileName g) CVFSFile_new w = (ok1, f1, w1)"
    by (cases "CVFSFile_Open (pl_api p) (m_fileName g) CVFSFile_new w") auto
  have "share_denied v w path False" using g(2) by (auto simp: share_denied_read file_at_def)
  then have "\<not> ok1" "f1 = CVFSFile_new" "fv_disk v w1 = fv_disk v w" "fv_open v w1 = fv_open v w" "fv_rest v w1 = fv_rest v w"
    using Open_outcome [OF p, where name = "m_fileName g" and w = w] r1 g(3) by (auto simp: can_read_def)
  then show ?thesis
    using that [of w1] Some g(1) r1 by (simp add: CVFSArchive_Open_def CVFSFile_GetFileName_def Close_new)
qed

end
