(* ===== verification/Archive_Session.thy ===== *)
theory Archive_Session
  imports Archive_Load
begin

text \<open>
  The life of an archive: creating it, writing and deleting files, closing it, and reading it again. An
  archive is a store of contents by name index: the interface is a locale, the model of the code is its
  interpretation, and the properties say that what a program finds after loading is what the abstract map
  says.
\<close>

section \<open>Creating and closing\<close>

lemma Create_empty:
  assumes api: "win32_files api v" and f: "file_at v f w path True pos []" "c_str (m_fileName f) = path"
    and key: "32 \<le> length key" and page: "unat (w_page_size api) \<le> 2 ^ 30"
    and free: "m_vfsFile a = None \<or> m_vfsFile a = Some f"
  obtains a' w' bs where "CVFSArchive_Create api (Some f) (Some key) a w = Some (Returns True, a', w')"
    "archive_at v a' w' path True [] bs Map.empty" "m_vfsFile a' = Some f" "m_archiveKey a' = take 32 key"
    "ah_bytesPerBlock (ar_header a') = w_page_size api" "length bs < 2 ^ 32" "others v path (handle f) w w'"
proof -
  let ?b = "w_page_size api"
  have b: "?b \<noteq> 0" using api by (simp add: win32_files_def)
  then have b0: "0 < unat ?b" by (simp add: unat_gt_0)
  let ?first = "ucast (ALIGNTO 12 (ucast ?b)) :: u32"
  let ?h = "\<lparr>ah_magic = ARCHIVE_MAGIC, ah_bytesPerBlock = ?b, ah_firstEntry = ?first\<rparr>"
  define F where "F = (12 div unat ?b + 1) * unat ?b"
  have F: "12 < F" "F \<le> 12 + unat ?b"
    using b0 dividend_less_div_times [of "unat ?b" 12] div_times_less_eq_dividend [of 12 "unat ?b"] by (auto simp: F_def algebra_simps)
  have "unat (ALIGNTO 12 (ucast ?b)) = F"
    using unat_ALIGNTO [of "ucast ?b" 12] b0 page by (simp add: unat_ucast_u32 F_def)
  moreover have small: "F < 2 ^ 32" by (rule le_less_trans [OF order_trans [OF F(2) add_left_mono [OF page]]]) simp
  then have "take_bit 32 F = F" by (rule take_bit_nat_eq_self)
  ultimately have first: "unat ?first = F" by (simp only: unsigned_ucast_eq) simp
  let ?rest = "ucast ?first - (12 :: u64)"
  have "unat (ucast ?first :: u64) = F" using first by (simp only: unat_ucast_u32)
  then have rest: "unat ?rest = F - 12" using F(1) by (simp add: unat_sub word_le_nat_alt)
  then have rest0: "0 < ?rest" using F(1) by (simp add: word_less_nat_alt)
  obtain w1 where w1: "CVFSFile_SetPosition api 0 False f w = (f, w1)" "file_at v f w1 path True 0 []"
    "others v path (handle f) w w1"
    by (rule file_seek [OF api f(1), of 0]) auto
  obtain w2 where w2: "CVFSFile_Read api 12 f w1 = (Returns [], f, w2)" "file_at v f w2 path True 0 []"
    "others v path (handle f) w1 w2"
    by (rule file_read [OF api w1(2), of 12]) (simp add: slice_def)
  obtain w3 where w3: "CVFSFile_SetPosition api 0 False f w2 = (f, w3)" "file_at v f w3 path True 0 []"
    "others v path (handle f) w2 w3"
    by (rule file_seek [OF api w2(2), of 0]) auto
  obtain n4 w4 where w4: "CVFSFile_Write api (header_bytes ?h) f w3 = (n4, f, w4)"
    "file_at v f w4 path True (0 + length (header_bytes ?h)) (write_bytes 0 (header_bytes ?h) [])"
    "others v path (handle f) w3 w4"
    by (rule file_write [OF api w3(2), of "header_bytes ?h"]) simp_all
  have hb: "write_bytes 0 (header_bytes ?h) [] = header_bytes ?h" by (simp add: write_bytes_def overwrite_def)
  obtain mem w5 where w5: "w_uninitialised api (unat ?rest) w4 = (mem, w5)" "length mem = unat ?rest"
    "file_at v f w5 path True (0 + length (header_bytes ?h)) (write_bytes 0 (header_bytes ?h) [])"
    "others v path (handle f) w4 w5"
    by (rule file_memory [OF api w4(2)])
  obtain n6 w6 where w6: "CVFSFile_Write api mem f w5 = (n6, f, w6)"
    "file_at v f w6 path True (0 + length (header_bytes ?h) + length mem)
      (write_bytes (0 + length (header_bytes ?h)) mem (write_bytes 0 (header_bytes ?h) []))"
    "others v path (handle f) w5 w6"
    by (rule file_write [OF api w5(3), of mem]) (use w5(2) rest small in simp)
  have bs: "write_bytes (0 + length (header_bytes ?h)) mem (write_bytes 0 (header_bytes ?h) []) = header_bytes ?h @ mem"
    unfolding hb by (simp add: write_bytes_def overwrite_def)
  let ?a = "a\<lparr>m_vfsFile := Some f, m_archiveKey := take 32 key, ar_header := ?h, ar_files := Map.empty, ar_entries := []\<rparr>"
  have un: "unload_keeping api (Some f) a w = (a\<lparr>m_archiveKey := replicate 32 0, ar_entries := [],
      ar_files := Map.empty, ar_header := zero_header, m_vfsFile := None\<rparr>, w)"
    using free by (auto simp: unload_keeping_def)
  have hdr: "bytes_header (overwrite 0 [] (header_bytes zero_header)) = zero_header"
    by (simp add: overwrite_def header_inverse)
  have load: "CVFSArchive_Load api (Some f) (Some key) a w = Some (Returns False,
      a\<lparr>m_vfsFile := Some f, m_archiveKey := replicate 32 0, ar_header := zero_header, ar_files := Map.empty,
        ar_entries := []\<rparr>, w2)"
    using file_at_valid [OF f(1)] key w1(1) w2(1)
    by (simp add: CVFSArchive_Load_def un Let_def hdr header_inverse linorder_not_less)
  have "CVFSArchive_Create api (Some f) (Some key) a w = Some (Returns True, ?a, w6)"
    using file_at_valid [OF f(1)] key w3(1) w4(1) w5(1) w6(1) rest0 b
    by (simp add: CVFSArchive_Create_def load Let_def linorder_not_less)
  moreover have "archive_at v ?a w6 path True [] (header_bytes ?h @ mem) Map.empty"
  proof -
    have "layout ?h [] (header_bytes ?h @ mem)"
      using first F(1) small w5(2) rest b0 by (simp add: layout_def)
    then show ?thesis
      using w6(2) f(2) key unfolding bs by (auto simp: archive_at_def archive_holds_def archive_ok_def)
  qed
  moreover have "others v path (handle f) w w6"
    by (rule others_trans [OF others_trans [OF others_trans [OF others_trans [OF others_trans
      [OF w1(3) w2(3)] w3(3)] w4(3)] w5(4)] w6(3)])
  ultimately show ?thesis
    using w5(2) rest F(1) small by (intro that [of ?a w6 "header_bytes ?h @ mem"]) simp_all
qed

text \<open>Creating on a file that holds an archive loads it.\<close>

lemma Create_existing:
  assumes api: "win32_files api v" and f: "file_at v f w path True pos bs" "c_str (m_fileName f) = path"
    and held: "archive_holds a0 es bs M" and key: "32 \<le> length key" "m_archiveKey a0 = take 32 key"
    and free: "m_vfsFile a = None \<or> m_vfsFile a = Some f"
  obtains a' w' where "CVFSArchive_Create api (Some f) (Some key) a w = Some (Returns True, a', w')"
    "archive_at v a' w' path True es bs M" "m_vfsFile a' = Some f" "ar_header a' = ar_header a0"
    "m_archiveKey a' = take 32 key" "others v path (handle f) w w'"
proof -
  obtain a' w' where l: "CVFSArchive_Load api (Some f) (Some key) a w = Some (Returns True, a', w')"
    "archive_at v a' w' path True es bs M" "m_vfsFile a' = Some f" "ar_header a' = ar_header a0"
    "m_archiveKey a' = take 32 key" "others v path (handle f) w w'"
    by (rule Load_correct [OF api f held key free])
  have "CVFSArchive_Create api (Some f) (Some key) a w = Some (Returns True, a', w')"
    using file_at_valid [OF f(1)] by (simp add: CVFSArchive_Create_def l(1))
  then show ?thesis using that l(2-) by blast
qed

lemma Unload_closes:
  assumes "win32_files api v" "m_vfsFile a = Some f" "m_mapHandle f = None" "m_fileHandle f = Some h" "m_mappedData f = None"
    "fv_maps v w h = None"
  obtains a' w' where "CVFSArchive_Unload api a w = (a', w')" "fv_disk v w' = fv_disk v w"
    "fv_open v w' = (fv_open v w)(h := None)" "fv_rest v w' = fv_rest v w" "m_vfsFile a' = None" "ar_files a' = Map.empty"
  using that Close_disk [OF assms(1,3,4), of w] assms(2,5,6)
  by (simp add: CVFSArchive_Unload_def unload_keeping_def)

section \<open>The archive as a store of contents\<close>

text \<open>
  A store holds a map; an operation has its effect on the map and lets the store grow by less than
  \<open>growth\<close>, as long as it stays below \<open>limit\<close>.
\<close>

locale content_store =
  fixes env :: "'e \<Rightarrow> bool"
    and at :: "'e \<Rightarrow> 's \<Rightarrow> nat \<Rightarrow> ('k \<Rightarrow> 'd option) \<Rightarrow> bool"
    and exec :: "'e \<Rightarrow> 'o \<Rightarrow> 's \<Rightarrow> 's"
    and allowed :: "'o \<Rightarrow> bool"
    and effect :: "'o \<Rightarrow> ('k \<Rightarrow> 'd option) \<Rightarrow> 'k \<Rightarrow> 'd option"
    and growth :: nat
    and limit :: nat
  assumes exec_law: "env e \<Longrightarrow> at e s n M \<Longrightarrow> allowed op \<Longrightarrow> n + growth < limit \<Longrightarrow>
      \<exists>n'. n' \<le> n + growth \<and> at e (exec e op s) n' (effect op M)"
begin

lemma run_law:
  assumes "env e" "at e s n M" "list_all allowed ops" "n + length ops * growth < limit"
  shows "\<exists>n'. n' \<le> n + length ops * growth \<and> at e (fold (exec e) ops s) n' (fold effect ops M)"
  using assms(2-)
proof (induction ops arbitrary: s n M)
  case Nil
  then show ?case by auto
next
  case (Cons op ops)
  then obtain n1 where n1: "n1 \<le> n + growth" "at e (exec e op s) n1 (effect op M)"
    using exec_law [OF assms(1), of s n M op] by auto
  then obtain n' where "n' \<le> n1 + length ops * growth"
    "at e (fold (exec e) ops (exec e op s)) n' (fold effect ops (effect op M))"
    using Cons.IH [OF n1(2)] Cons.prems by auto
  then show ?case using n1(1) by (intro exI [of _ n']) auto
qed

end

datatype archive_op =
  WriteFile wstring "byte list" byte u32
| DeleteFile wstring

fun run_op :: "'w platform \<Rightarrow> archive_op \<Rightarrow> CVFSArchive \<times> 'w \<Rightarrow> CVFSArchive \<times> 'w" where
  "run_op p (WriteFile name data flags version) (a, w) =
     snd (CVFSArchive_Write p name data (of_nat (length data)) flags version a w)"
| "run_op p (DeleteFile name) (a, w) = snd (CVFSArchive_Delete_name (pl_api p) name a w)"

fun op_ok :: "archive_op \<Rightarrow> bool" where
  "op_ok (WriteFile name data flags version) \<longleftrightarrow>
     GenerateNameIndex name \<noteq> 0 \<and> length (c_str name) < 255 \<and> length data \<le> MAX_INPUT"
| "op_ok (DeleteFile name) \<longleftrightarrow> True"

fun op_effect :: "archive_op \<Rightarrow> (u32 \<Rightarrow> byte list option) \<Rightarrow> u32 \<Rightarrow> byte list option" where
  "op_effect (WriteFile name data flags version) M = store_file (GenerateNameIndex name) data M"
| "op_effect (DeleteFile name) M = M(GenerateNameIndex name := None)"

type_synonym 'w archive_env = "'w platform \<times> 'w file_view \<times> wstring \<times> CVFSArchive \<times> 'w"

definition archive_env :: "'w archive_env \<Rightarrow> bool" where
  "archive_env = (\<lambda>(p, v, path, a0, w0). platform_ok p v \<and> unat (ah_bytesPerBlock (ar_header a0)) \<le> 2 ^ 30)"

definition archive_state ::
  "'w archive_env \<Rightarrow> CVFSArchive \<times> 'w \<Rightarrow> nat \<Rightarrow> (u32 \<Rightarrow> byte list option) \<Rightarrow> bool" where
  "archive_state = (\<lambda>(p, v, path, a0, w0) (a, w) n M.
     (\<exists>es bs. archive_at v a w path True es bs M \<and> length bs = n) \<and> same_archive v path a0 w0 a w)"

definition archive_exec :: "'w archive_env \<Rightarrow> archive_op \<Rightarrow> CVFSArchive \<times> 'w \<Rightarrow> CVFSArchive \<times> 'w" where
  "archive_exec e = run_op (fst e)"

lemma run_op_state:
  assumes "archive_env e" "archive_state e s n M" "op_ok op" "n + 2 ^ 32 < 2 ^ 62"
  shows "\<exists>n'. n' \<le> n + 2 ^ 32 \<and> archive_state e (archive_exec e op s) n' (op_effect op M)"
proof -
  obtain p v path a0 w0 where e: "e = (p, v, path, a0, w0)" by (cases e) auto
  obtain a w where s: "s = (a, w)" by (cases s) auto
  obtain es bs where at: "archive_at v a w path True es bs M" "length bs = n" and same: "same_archive v path a0 w0 a w"
    using assms(2) by (auto simp: archive_state_def e s)
  have p: "platform_ok p v" and bpb: "unat (ah_bytesPerBlock (ar_header a)) \<le> 2 ^ 30"
    using assms(1) same by (auto simp: archive_env_def e same_archive_def)
  show ?thesis
  proof (cases op)
    case (WriteFile name data flags version)
    have len: "unat (of_nat (length data) :: u32) = length data"
      using assms(3) WriteFile by (simp add: unat_of_nat MAX_INPUT_def)
    obtain a' w' es' bs' where r: "CVFSArchive_Write p name data (of_nat (length data)) flags version a w = (Returns True, a', w')"
      "archive_at v a' w' path True es' bs' (store_file (GenerateNameIndex name) (take (unat (of_nat (length data) :: u32)) data) M)"
      "length bs' < length bs + 2 ^ 32" "same_archive v path a w a' w'"
      by (rule Write_correct [OF p at(1) _ _ _ _ bpb, where filename = name and data = data and len = "of_nat (length data)"
            and flags = flags and version = version])
        (use assms(3,4) WriteFile len at(2) in auto)
    have eff: "op_effect op M = store_file (GenerateNameIndex name) (take (unat (of_nat (length data) :: u32)) data) M"
      using WriteFile len by simp
    have "archive_exec e op s = (a', w')" using r(1) WriteFile by (simp add: archive_exec_def e s)
    then show ?thesis
      using r(2-4) at(2) same_archive_trans [OF same r(4)]
      by (intro exI [of _ "length bs'"]) (auto simp: archive_state_def e eff)
  next
    case (DeleteFile name)
    have api: "win32_files (pl_api p) v" using p by (simp add: platform_ok_def)
    obtain r a' w' es' bs' where r: "CVFSArchive_Delete (pl_api p) (GenerateNameIndex name) a w = (r, a', w')"
      "archive_at v a' w' path True es' bs' (M(GenerateNameIndex name := None))"
      "m_vfsFile a' = m_vfsFile a" "ar_header a' = ar_header a" "m_archiveKey a' = m_archiveKey a"
      "length bs' = length bs" "others v path (handle (the (m_vfsFile a))) w w'"
      by (rule Delete_any [OF api at(1)])
    have "same_archive v path a w a' w'" using r by (simp add: same_archive_def)
    then have "same_archive v path a0 w0 a' w'" by (rule same_archive_trans [OF same])
    moreover have "archive_exec e op s = (a', w')"
      using r(1) DeleteFile by (simp add: archive_exec_def e s CVFSArchive_Delete_name_def)
    ultimately show ?thesis
      using r(2,6) at(2) DeleteFile by (intro exI [of _ n]) (auto simp: archive_state_def e)
  qed
qed

interpretation archive: content_store archive_env archive_state archive_exec op_ok op_effect "2 ^ 32" "2 ^ 62"
  by unfold_locales (rule run_op_state)

end
