(* ===== verification/Archive_Theorems.thy ===== *)
theory Archive_Theorems
  imports Archive_Session
begin

text \<open>The properties of archives, over the lemmas of the theories before.\<close>

section \<open>Writing an archive and reading it back\<close>

text \<open>
  One program creates an archive on a path, writes and deletes files, and unloads it; another one opens the
  file, loads it as an archive and opens a file in it.
\<close>

definition save_session ::
  "'w platform \<Rightarrow> wstring \<Rightarrow> byte list \<Rightarrow> byte list \<Rightarrow> archive_op list \<Rightarrow> 'w \<Rightarrow> 'w option" where
  "save_session p path key mem ops w =
     (case CVFSFile_Create (pl_api p) path False CVFSFile_new w of
        (_, f, w) \<Rightarrow>
          (case CVFSArchive_Create (pl_api p) (Some f) (Some key) (CVFSArchive_new mem) w of
             Some (Returns True, a, w) \<Rightarrow>
               (case fold (run_op p) ops (a, w) of (a, w) \<Rightarrow> Some (snd (CVFSArchive_Unload (pl_api p) a w)))
           | _ \<Rightarrow> None))"

definition read_session ::
  "'w platform \<Rightarrow> wstring \<Rightarrow> byte list \<Rightarrow> byte list \<Rightarrow> wstring \<Rightarrow> 'w \<Rightarrow> (CVFSFile option outcome \<times> 'w) option" where
  "read_session p path key mem name w =
     (case CVFSFile_Open (pl_api p) path CVFSFile_new w of
        (_, f, w) \<Rightarrow>
          (case CVFSArchive_Load (pl_api p) (Some f) (Some key) (CVFSArchive_new mem) w of
             Some (Returns True, a, w) \<Rightarrow> Some (CVFSArchive_Open_name p name a w)
           | _ \<Rightarrow> None))"

definition full_path :: "'w win32 \<Rightarrow> wstring \<Rightarrow> bool" where
  "full_path api path \<longleftrightarrow> 0 \<notin> set path \<and> (\<forall>w. w_wfullpath api path w = Some path)"

lemma c_str_id: "0 \<notin> set s \<Longrightarrow> c_str s = s"
  unfolding c_str_def by (rule takeWhile_eq_all_conv [THEN iffD2]) auto

lemma full_path_same: "full_path api path \<Longrightarrow> c_str path = path \<and> GetAbsolutePath api path w = path"
  by (simp add: full_path_def GetAbsolutePath_def c_str_id)

text \<open>An archive is created on a path that nobody has open, in a place where the program may create it.\<close>

lemma create_archive:
  assumes p: "platform_ok p v" and path: "\<And>w. GetAbsolutePath (pl_api p) name w = path"
    "can_create v w path"
    and key: "32 \<le> length key" and page: "unat (w_page_size (pl_api p)) \<le> 2 ^ 30"
  obtains f hn w1 a w2 bs where "CVFSFile_Create (pl_api p) name False CVFSFile_new w = (True, f, w1)"
    "CVFSArchive_Create (pl_api p) (Some f) (Some key) (CVFSArchive_new mem) w1 = Some (Returns True, a, w2)"
    "archive_at v a w2 path True [] bs Map.empty" "m_vfsFile a = Some f" "m_archiveKey a = take 32 key"
    "ah_bytesPerBlock (ar_header a) = w_page_size (pl_api p)" "length bs < 2 ^ 32"
    "m_fileHandle f = Some hn" "m_mapHandle f = None" "m_mappedData f = None" "fv_open v w hn = None" "others v path hn w w2"
proof -
  let ?api = "pl_api p"
  have api: "win32_files ?api v" using p by (simp add: platform_ok_def)
  have c: "c_str path = path" using c_str_GetAbsolutePath [of ?api name w] path(1) by simp
  obtain ok f w1 where r1: "CVFSFile_Create ?api name False CVFSFile_new w = (ok, f, w1)"
    by (cases "CVFSFile_Create ?api name False CVFSFile_new w") auto
  have f: "ok" "file_at v f w1 path True 0 []" "m_fileName f = path" "fv_open v w (the (m_fileHandle f)) = None"
    "fv_open v w1 = (fv_open v w)(the (m_fileHandle f) \<mapsto> (path, True, 0))"
    "\<forall>q. q \<noteq> path \<longrightarrow> fv_disk v w1 q = fv_disk v w q" "fv_rest v w1 = fv_rest v w"
    using Create_outcome [OF api, of path name w False] r1 path(1) can_create_open [OF path(2), of CREATE_ALWAYS]
    by (auto split: option.splits)
  have h: "file_ok f \<and> holds v w f w1" by (rule run_Create [OF api holds_new [OF refl refl] r1])
  obtain hn where hn: "m_fileHandle f = Some hn" "m_mapHandle f = None" "m_mappedData f = None"
    using disk_handle [of v w f w1] h f(2) by (auto simp: file_at_def)
  obtain a w2 bs where r2: "CVFSArchive_Create ?api (Some f) (Some key) (CVFSArchive_new mem) w1 = Some (Returns True, a, w2)"
    "archive_at v a w2 path True [] bs Map.empty" "m_vfsFile a = Some f" "m_archiveKey a = take 32 key"
    "ah_bytesPerBlock (ar_header a) = w_page_size ?api" "length bs < 2 ^ 32" "others v path (handle f) w1 w2"
    by (rule Create_empty [OF api f(2) _ key page, of "CVFSArchive_new mem"]) (simp_all add: f(3) c CVFSArchive_new_def)
  have "others v path hn w w1" using f(4-7) hn(1) by (auto simp: others_def)
  then have "others v path hn w w2" using r2(7) hn(1) by (auto intro: others_trans)
  moreover have "CVFSFile_Create ?api name False CVFSFile_new w = (True, f, w1)" using r1 f(1) by simp
  ultimately show ?thesis using that r2(1-6) hn f(4) by simp
qed

lemma save_session_result:
  assumes p: "platform_ok p v" and path: "full_path (pl_api p) path" "can_create v w path"
    and key: "32 \<le> length key" and page: "unat (w_page_size (pl_api p)) \<le> 2 ^ 30"
    and ops: "list_all op_ok ops" "length ops < 2 ^ 29"
  obtains w' a es bs where "save_session p path key mem ops w = Some w'" "fv_open v w' = fv_open v w" "fv_rest v w' = fv_rest v w"
    "fv_disk v w' path = Some bs" "\<forall>q. q \<noteq> path \<longrightarrow> fv_disk v w' q = fv_disk v w q"
    "archive_holds a es bs (fold op_effect ops Map.empty)" "m_archiveKey a = take 32 key"
proof -
  let ?api = "pl_api p"
  have api: "win32_files ?api v" using p by (simp add: platform_ok_def)
  have same: "\<And>w. GetAbsolutePath ?api path w = path" using full_path_same [OF path(1)] by blast
  obtain f hn w1 a w2 bs where c: "CVFSFile_Create ?api path False CVFSFile_new w = (True, f, w1)"
    "CVFSArchive_Create ?api (Some f) (Some key) (CVFSArchive_new mem) w1 = Some (Returns True, a, w2)"
    "archive_at v a w2 path True [] bs Map.empty" "m_vfsFile a = Some f" "m_archiveKey a = take 32 key"
    "ah_bytesPerBlock (ar_header a) = w_page_size ?api" "length bs < 2 ^ 32"
    and hn: "m_fileHandle f = Some hn" "m_mapHandle f = None" "m_mappedData f = None" "fv_open v w hn = None" "others v path hn w w2"
    by (rule create_archive [OF p same path(2) key page])
  let ?e = "(p, v, path, a, w2)"
  have "archive_env ?e" using p page c(6) by (simp add: archive_env_def)
  moreover have "archive_state ?e (a, w2) (length bs) Map.empty" using c(3) by (auto simp: archive_state_def)
  moreover have "length bs + length ops * 2 ^ 32 < 2 ^ 62" using c(7) ops(2) by simp
  ultimately obtain n where n: "archive_state ?e (fold (archive_exec ?e) ops (a, w2)) n (fold op_effect ops Map.empty)"
    using archive.run_law [OF _ _ ops(1), of ?e "(a, w2)" "length bs" Map.empty] by blast
  obtain a' w3 where r3: "fold (run_op p) ops (a, w2) = (a', w3)" by (cases "fold (run_op p) ops (a, w2)") auto
  have "archive_exec ?e = run_op p" by (simp add: archive_exec_def fun_eq_iff)
  then obtain es' bs' where at: "archive_at v a' w3 path True es' bs' (fold op_effect ops Map.empty)"
    and sm: "same_archive v path a w2 a' w3"
    using n r3 by (auto simp: archive_state_def)
  have f': "m_vfsFile a' = Some f" "m_archiveKey a' = take 32 key" "others v path (handle f) w2 w3"
    using sm c(4,5) by (auto simp: same_archive_def)
  have unmapped: "fv_maps v w3 hn = None" using at f'(1) hn(1) by (auto simp: archive_at_def file_at_def)
  obtain a4 w4 where r4: "CVFSArchive_Unload ?api a' w3 = (a4, w4)" "fv_disk v w4 = fv_disk v w3"
    "fv_open v w4 = (fv_open v w3)(hn := None)" "fv_rest v w4 = fv_rest v w3"
    by (rule Unload_closes [OF api f'(1) hn(2,1,3) unmapped])
  have oth: "others v path hn w w3" using others_trans [OF hn(5)] f'(3) hn(1) by simp
  have "save_session p path key mem ops w = Some w4"
    using c(1,2) r3 r4(1) by (simp add: save_session_def)
  moreover have "fv_open v w4 = fv_open v w" unfolding r4(3) by (rule closed_again [OF oth hn(4)])
  moreover have "fv_rest v w4 = fv_rest v w" using oth r4(4) by (simp add: others_def)
  moreover have "fv_disk v w4 path = Some bs'" using at r4(2) by (auto simp: archive_at_def file_at_def)
  moreover have "\<forall>q. q \<noteq> path \<longrightarrow> fv_disk v w4 q = fv_disk v w q"
    using oth r4(2) by (simp add: others_def)
  moreover have "archive_holds a' es' bs' (fold op_effect ops Map.empty)" using at by (simp add: archive_at_def)
  ultimately show ?thesis using that f'(2) by blast
qed

text \<open>A program that opens an archive file that it may read, and loads it: all that changes is a new handle for reading.\<close>

definition world_grows :: "'w file_view \<Rightarrow> 'w \<Rightarrow> 'w \<Rightarrow> bool" where
  "world_grows v w w' \<longleftrightarrow> fv_disk v w' = fv_disk v w \<and> fv_rest v w' = fv_rest v w
     \<and> (\<forall>h x. fv_open v w h = Some x \<longrightarrow> fv_open v w' h = Some x)
     \<and> (\<forall>h path pos. fv_open v w' h = Some (path, True, pos) \<longrightarrow> fv_open v w h = Some (path, True, pos))"

lemma world_grows_same:
  "fv_disk v w' = fv_disk v w \<Longrightarrow> fv_open v w' = fv_open v w \<Longrightarrow> fv_rest v w' = fv_rest v w \<Longrightarrow> world_grows v w w'"
  by (simp add: world_grows_def)

lemma world_grows_read:
  assumes "world_grows v w w'" "can_read v w path"
  shows "can_read v w' path"
proof -
  have "fv_open v w' h \<noteq> Some (path, True, pos)" for h pos
    using assms unfolding world_grows_def can_read_def share_denied_read by metis
  then have "\<not> share_denied v w' path False" by (simp add: share_denied_read)
  then show ?thesis using assms by (simp add: world_grows_def can_read_def fv_rest_def)
qed

lemma world_grows_archive:
  "world_grows v w w' \<Longrightarrow> archive_at v a w path wr es bs M \<Longrightarrow> archive_at v a w' path wr es bs M"
  unfolding world_grows_def archive_at_def file_at_def fv_rest_def by (metis prod.inject)

lemma open_and_load:
  assumes api: "win32_files api v" and path: "c_str path = path" "can_read v w path"
    and disk: "fv_disk v w path = Some bs" and held: "archive_holds a es bs M" "m_archiveKey a = take 32 key" "32 \<le> length key"
  obtains f w1 a' w2 where "CVFSFile_Open api path CVFSFile_new w = (True, f, w1)" "m_fileName f = path"
    "CVFSArchive_Load api (Some f) (Some key) (CVFSArchive_new mem) w1 = Some (Returns True, a', w2)"
    "archive_at v a' w2 path False es bs M" "m_vfsFile a' = Some f" "world_grows v w w2"
proof -
  obtain ok f w1 where r1: "CVFSFile_Open api path CVFSFile_new w = (ok, f, w1)"
    by (cases "CVFSFile_Open api path CVFSFile_new w") auto
  have f: "ok" "file_at v f w1 path False 0 bs" "m_fileName f = path" "fv_disk v w1 = fv_disk v w"
    "fv_open v w1 = (fv_open v w)(the (m_fileHandle f) \<mapsto> (path, False, 0))" "fv_open v w (handle f) = None" "fv_rest v w1 = fv_rest v w"
    using Open_outcome [OF api, where name = path and w = w] r1 path disk by auto
  obtain a' w2 where l: "CVFSArchive_Load api (Some f) (Some key) (CVFSArchive_new mem) w1 = Some (Returns True, a', w2)"
    "archive_at v a' w2 path False es bs M" "m_vfsFile a' = Some f" "others v path (handle f) w1 w2"
    by (rule Load_correct [OF api f(2) _ held(1,3,2), of "CVFSArchive_new mem"]) (simp_all add: f(3) path(1) CVFSArchive_new_def)
  obtain pos where pos: "fv_open v w2 (handle f) = Some (path, False, pos)"
    using l(2,3) by (auto simp: archive_at_def file_at_def)
  have same: "fv_open v w2 h = fv_open v w h" if "h \<noteq> handle f" for h
    using l(4) f(5) that unfolding others_def by (metis fun_upd_other)
  have disk2: "fv_disk v w2 = fv_disk v w"
  proof
    fix q show "fv_disk v w2 q = fv_disk v w q"
      using l(2,4) f(4) disk by (cases "q = path") (auto simp: others_def archive_at_def file_at_def)
  qed
  have "world_grows v w w2"
    unfolding world_grows_def
  proof (intro conjI allI impI)
    fix h x assume "fv_open v w h = Some x"
    then show "fv_open v w2 h = Some x" using f(6) same [of h] by (cases "h = handle f") auto
  next
    fix h q pos' assume "fv_open v w2 h = Some (q, True, pos')"
    then show "fv_open v w h = Some (q, True, pos')" using pos same [of h] by (cases "h = handle f") auto
  qed (use disk2 l(4) f(7) in \<open>auto simp: others_def\<close>)
  moreover have "CVFSFile_Open api path CVFSFile_new w = (True, f, w1)" using r1 f(1) by simp
  ultimately show ?thesis using that f(3) l(1-3) by blast
qed

lemma read_session_result:
  assumes p: "platform_ok p v" and path: "full_path (pl_api p) path" "can_read v w path"
    and disk: "fv_disk v w path = Some bs" and held: "archive_holds a es bs M" "m_archiveKey a = take 32 key" "32 \<le> length key"
  obtains r w' where "read_session p path key mem name w = Some (Returns r, w')"
    "case M (GenerateNameIndex name) of None \<Rightarrow> r = None | Some d \<Rightarrow> \<exists>f. r = Some f \<and> memory_at f d 0"
proof -
  let ?api = "pl_api p"
  have api: "win32_files ?api v" using p by (simp add: platform_ok_def)
  have c: "c_str path = path" using full_path_same [OF path(1)] by blast
  obtain f w1 a' w2 where l: "CVFSFile_Open ?api path CVFSFile_new w = (True, f, w1)"
    "CVFSArchive_Load ?api (Some f) (Some key) (CVFSArchive_new mem) w1 = Some (Returns True, a', w2)"
    "archive_at v a' w2 path False es bs M" "world_grows v w w2"
    by (rule open_and_load [OF api c path(2) disk held])
  have read: "read_session p path key mem name w = Some (CVFSArchive_Open p (GenerateNameIndex name) a' w2)"
    using l(1,2) by (simp add: read_session_def CVFSArchive_Open_name_def)
  show ?thesis
  proof (cases "M (GenerateNameIndex name)")
    case None
    have holds: "archive_holds a' es bs M" using l(3) by (simp add: archive_at_def)
    have "CVFSArchive_Open p (GenerateNameIndex name) a' w2 = (Returns None, w2)"
      by (rule Open_absent [OF _ holds]) (rule None)
    then show ?thesis using that [of None w2] None read by simp
  next
    case (Some d)
    obtain f' w3 where "CVFSArchive_Open p (GenerateNameIndex name) a' w2 = (Returns (Some f'), w3)" "memory_at f' d 0"
      by (rule Open_correct [OF p l(3) Some world_grows_read [OF l(4) path(2)]])
    then show ?thesis using that [of "Some f'" w3] Some read by simp
  qed
qed

section \<open>A concrete archive\<close>

text \<open>A file of 1036 bytes with one file in it.\<close>

definition sample_platform :: "disk_world platform" where
  "sample_platform = \<lparr>pl_api = disk_api, pl_lz4 = sample_lz4, pl_junk = sample_junk\<rparr>"

definition sample_key :: "byte list" where
  "sample_key = replicate 32 5"

definition sample_header :: SArchiveHeader where
  "sample_header = \<lparr>ah_magic = ARCHIVE_MAGIC, ah_bytesPerBlock = 1024, ah_firstEntry = 12\<rparr>"

definition small_entry :: "u32 \<Rightarrow> wstring \<Rightarrow> SFileEntry" where
  "small_entry i n = \<lparr>fe_info = zero_info\<lparr>fi_index := i, fi_hash := XXH32 [1, 2, 3] 0, fi_rawsize := 3,
     fi_compressedsize := 3, fi_cryptedsize := 3, fi_filename := n\<rparr>, fe_finalSize = 3, fe_numBlocks = 1, fe_offset = 563\<rparr>"

definition small_bytes :: "SFileEntry \<Rightarrow> byte list" where
  "small_bytes e = header_bytes sample_header @ entry_bytes e @ [1, 2, 3] @ replicate 470 0"

definition sample_entry :: SFileEntry where
  "sample_entry = small_entry 7 (replicate 255 0)"

definition sample_bytes :: "byte list" where
  "sample_bytes = small_bytes sample_entry"

definition sample_file :: "bool \<Rightarrow> CVFSFile" where
  "sample_file wr = CVFSFile_new\<lparr>m_fileHandle := Some 1, m_fileName := [97],
     m_fileType := (if wr then FILE_TYPE_OUTPUT else FILE_TYPE_INPUT)\<rparr>"

definition sample_world :: "bool \<Rightarrow> disk_world" where
  "sample_world wr = \<lparr>dw_disk = [[97] \<mapsto> sample_bytes], dw_open = [(1, [97], wr, 0)], dw_maps = [], dw_views = [], dw_denied = []\<rparr>"

definition sample_archive :: "bool \<Rightarrow> CVFSArchive" where
  "sample_archive wr = \<lparr>m_vfsFile = Some (sample_file wr), m_archiveKey = sample_key, ar_header = sample_header,
     ar_files = [7 \<mapsto> sample_entry], ar_entries = []\<rparr>"

lemma sample_platform_ok: "platform_ok sample_platform disk_view"
  using disk_api_files by (simp add: platform_ok_def sample_platform_def junk_ok_def sample_junk_def)

lemma small_entry_ok: "length n = 255 \<Longrightarrow> entry_ok (small_entry i n)"
  by (simp add: entry_ok_def small_entry_def)

lemma small_length: "length n = 255 \<Longrightarrow> length (small_bytes (small_entry i n)) = 1036"
  using small_entry_ok [of n i] by (simp add: small_bytes_def)

lemma small_layout:
  assumes "length n = 255"
  shows "layout sample_header [small_entry i n] (small_bytes (small_entry i n))"
proof -
  note ok = small_entry_ok [OF assms, of i]
  have "slice 12 551 (small_bytes (small_entry i n)) = entry_bytes (small_entry i n)"
    using ok by (simp add: small_bytes_def slice_append_right)
  then have "entry_at 1024 (small_bytes (small_entry i n)) (small_entry i n)"
    using ok by (simp add: entry_at_def block_length_def) (simp add: small_entry_def)
  moreover have "take 12 (small_bytes (small_entry i n)) = header_bytes sample_header" by (simp add: small_bytes_def)
  ultimately show ?thesis
    using small_length [OF assms, of i]
    by (simp add: layout_def) (simp add: sample_header_def small_entry_def block_length_def)
qed

lemma small_stored:
  assumes "length n = 255"
  shows "stored (small_entry i n) (small_bytes (small_entry i n)) = [1, 2, 3]"
proof -
  have "stored (small_entry i n) (small_bytes (small_entry i n)) = slice 563 3 (small_bytes (small_entry i n))"
    by (simp add: stored_def small_entry_def)
  also have "\<dots> = [1, 2, 3]" using small_entry_ok [OF assms, of i] by (simp add: small_bytes_def slice_append_right)
  finally show ?thesis .
qed

lemma small_holds:
  assumes "length n = 255" "i \<noteq> 0"
  shows "archive_holds \<lparr>m_vfsFile = f, m_archiveKey = sample_key, ar_header = sample_header,
      ar_files = [i \<mapsto> small_entry i n], ar_entries = []\<rparr> [small_entry i n] (small_bytes (small_entry i n)) [i \<mapsto> [1, 2, 3]]"
proof -
  have "packs sample_key (fe_info (small_entry i n)) [1, 2, 3] [1, 2, 3]"
    by (rule packs_sealed [where fl = 0 and c = "[1, 2, 3]"])
      (simp_all add: sample_key_def sealed_def payload_def small_entry_def zero_info_def)
  moreover have "entry_index (small_entry i n) = i" by (simp add: entry_index_def small_entry_def)
  ultimately show ?thesis
    using small_layout [OF assms(1), of i] small_stored [OF assms(1), of i] assms(2)
    by (auto simp: archive_holds_def archive_ok_def sample_key_def)
qed

lemma sample_entry_ok: "entry_ok sample_entry"
  by (simp add: sample_entry_def small_entry_ok)

lemma sample_holds: "archive_holds (sample_archive wr) [sample_entry] sample_bytes [7 \<mapsto> [1, 2, 3]]"
  using small_holds [of "replicate 255 0" 7 "Some (sample_file wr)"]
  by (simp add: sample_archive_def sample_bytes_def sample_entry_def)

lemma sample_at: "archive_at disk_view (sample_archive wr) (sample_world wr) [97] wr [sample_entry] sample_bytes [7 \<mapsto> [1, 2, 3]]"
  using sample_holds by (simp add: archive_at_def)
    (simp add: sample_archive_def sample_file_def sample_world_def file_at_def disk_view_def c_str_def)

lemma sample_length: "length sample_bytes = 1036"
  by (simp add: sample_bytes_def sample_entry_def small_length)

section \<open>Properties\<close>

text \<open>
  C1. What is written is what is found: after an archive has been created on a path, any files written and
  deleted in it and the archive unloaded, a program that opens the path, loads the archive with the same
  key and opens a name gets a file with the data last written under this name, and nothing for a name that
  was deleted or never written; the abstract map says which. No handle stays open, no other file changes.
\<close>

theorem archive_session_round_trip:
  assumes "platform_ok p v" "full_path (pl_api p) path" "can_create v w path" "fv_grants v w path False"
    and "32 \<le> length key" "unat (w_page_size (pl_api p)) \<le> 2 ^ 30" "list_all op_ok ops" "length ops < 2 ^ 29"
  shows "\<exists>w'. save_session p path key mem ops w = Some w' \<and> fv_open v w' = fv_open v w
    \<and> (\<forall>q. q \<noteq> path \<longrightarrow> fv_disk v w' q = fv_disk v w q)
    \<and> (\<forall>name mem'. \<exists>r w''. read_session p path key mem' name w' = Some (Returns r, w'')
        \<and> (case fold op_effect ops Map.empty (GenerateNameIndex name) of
             None \<Rightarrow> r = None | Some d \<Rightarrow> \<exists>f. r = Some f \<and> memory_at f d 0))"
proof -
  obtain w' a es bs where s: "save_session p path key mem ops w = Some w'" "fv_open v w' = fv_open v w" "fv_rest v w' = fv_rest v w"
    "fv_disk v w' path = Some bs" "\<forall>q. q \<noteq> path \<longrightarrow> fv_disk v w' q = fv_disk v w q"
    "archive_holds a es bs (fold op_effect ops Map.empty)" "m_archiveKey a = take 32 key"
    by (rule save_session_result [OF assms(1-3,5-)])
  have read: "can_read v w' path"
    using assms(3,4) s(2,3) by (auto simp: can_create_def can_read_def share_denied_def fv_rest_def)
  have "\<exists>r w''. read_session p path key mem' name w' = Some (Returns r, w'')
      \<and> (case fold op_effect ops Map.empty (GenerateNameIndex name) of
           None \<Rightarrow> r = None | Some d \<Rightarrow> \<exists>f. r = Some f \<and> memory_at f d 0)" for name mem'
    by (rule read_session_result [OF assms(1,2) read s(4,6,7) assms(5), of mem' name]) blast
  then show ?thesis using s by blast
qed

text \<open>Two files, one of them deleted again.\<close>

theorem archive_session_round_trip_witness:
  "\<exists>w' f w'' w3. save_session sample_platform [98] sample_key []
       [WriteFile [97] [1, 2, 3] 3 0, WriteFile [] [9] 1 0, DeleteFile []] (disk_with [97] []) = Some w'
     \<and> read_session sample_platform [98] sample_key [] [97] w' = Some (Returns (Some f), w'') \<and> memory_at f [1, 2, 3] 0
     \<and> read_session sample_platform [98] sample_key [] [] w' = Some (Returns None, w3)"
proof -
  let ?ops = "[WriteFile [97] [1, 2, 3] 3 0, WriteFile [] [9] 1 0, DeleteFile []]"
  have idx: "GenerateNameIndex [97] \<noteq> 0" "GenerateNameIndex [] \<noteq> 0" "GenerateNameIndex [97] \<noteq> GenerateNameIndex []"
    by code_simp+
  have ops: "list_all op_ok ?ops" using idx by (simp add: c_str_def MAX_INPUT_def)
  have path: "full_path (pl_api sample_platform) [98]"
    by (simp add: full_path_def sample_platform_def disk_api_def)
  have free: "can_create disk_view (disk_with [97] []) [98]" "fv_grants disk_view (disk_with [97] []) [98] False"
    by (simp_all add: disk_view_def disk_with_def can_create_def share_denied_def path_mapped_def)
  have page: "unat (w_page_size (pl_api sample_platform)) \<le> 2 ^ 30"
    by (simp add: sample_platform_def disk_api_def)
  have key: "32 \<le> length sample_key" by (simp add: sample_key_def)
  obtain w' where w': "save_session sample_platform [98] sample_key [] ?ops (disk_with [97] []) = Some w'"
    and read: "\<And>name mem'. \<exists>r w''. read_session sample_platform [98] sample_key mem' name w' = Some (Returns r, w'')
        \<and> (case fold op_effect ?ops Map.empty (GenerateNameIndex name) of
             None \<Rightarrow> r = None | Some d \<Rightarrow> \<exists>f. r = Some f \<and> memory_at f d 0)"
    using archive_session_round_trip [OF sample_platform_ok path free key page ops, of "[]"] by auto
  have M: "fold op_effect ?ops Map.empty (GenerateNameIndex [97]) = Some [1, 2, 3]"
    "fold op_effect ?ops Map.empty (GenerateNameIndex []) = None"
    using idx by (simp_all add: store_file_def)
  obtain f w'' where "read_session sample_platform [98] sample_key [] [97] w' = Some (Returns (Some f), w'')" "memory_at f [1, 2, 3] 0"
    using read [of "[]" "[97]"] unfolding M by auto
  moreover obtain w3 where "read_session sample_platform [98] sample_key [] [] w' = Some (Returns None, w3)"
    using read [of "[]" "[]"] unfolding M by auto
  ultimately show ?thesis using w' by blast
qed

text \<open>
  C4. \<^verbatim>\<open>Write\<close> on an archive that is open for writing succeeds and has stored the data, compressed and encrypted
  as the flags say, under the index of the name: the archive is well-formed and holds the updated map.
  The file grows by less than 4 GiB and nothing else changes.
\<close>

theorem Write_updates:
  assumes "platform_ok p v" "archive_at v a w path True es bs M"
    and "GenerateNameIndex filename \<noteq> 0" "length (c_str filename) < 255"
    and "unat len \<le> length data" "unat len \<le> MAX_INPUT"
    and "unat (ah_bytesPerBlock (ar_header a)) \<le> 2 ^ 30" "length bs + 2 ^ 32 < 2 ^ 62"
  shows "\<exists>a' w' es' bs'. CVFSArchive_Write p filename data len flags version a w = (Returns True, a', w')
    \<and> archive_at v a' w' path True es' bs' (store_file (GenerateNameIndex filename) (take (unat len) data) M)
    \<and> length bs' < length bs + 2 ^ 32 \<and> same_archive v path a w a' w'"
  by (rule Write_correct [OF assms, of flags version]) blast

theorem Write_updates_witness:
  "\<exists>a' w' es' bs'. CVFSArchive_Write sample_platform [97] [4, 5] 2 3 0 (sample_archive True) (sample_world True) = (Returns True, a', w')
    \<and> archive_at disk_view a' w' [97] True es' bs' (store_file (GenerateNameIndex [97]) (take (unat (2 :: u32)) [4, 5]) [7 \<mapsto> [1, 2, 3]])
    \<and> length bs' < length sample_bytes + 2 ^ 32 \<and> same_archive disk_view [97] (sample_archive True) (sample_world True) a' w'"
proof (rule Write_updates [OF sample_platform_ok sample_at])
  show "GenerateNameIndex [97] \<noteq> 0" by code_simp
qed (simp_all add: c_str_def MAX_INPUT_def sample_archive_def sample_header_def sample_length)

text \<open>
  C16. \<^verbatim>\<open>Delete\<close> says whether the index was there, and removes it: the archive stays well-formed, the other files
  are untouched, the block is free for a later \<^verbatim>\<open>Write\<close>, and the file keeps its size.
\<close>

theorem Delete_removes:
  assumes "win32_files api v" "archive_at v a w path True es bs M"
  shows "\<exists>a' w' es' bs'. CVFSArchive_Delete api i a w = (M i \<noteq> None, a', w')
    \<and> archive_at v a' w' path True es' bs' (M(i := None)) \<and> length bs' = length bs \<and> same_archive v path a w a' w'"
proof -
  obtain r a' w' es' bs' where "CVFSArchive_Delete api i a w = (r, a', w')"
    "archive_at v a' w' path True es' bs' (M(i := None))" "ar_files a' i = None"
    "m_vfsFile a' = m_vfsFile a" "ar_header a' = ar_header a" "m_archiveKey a' = m_archiveKey a"
    "length bs' = length bs" "others v path (handle (the (m_vfsFile a))) w w'" "r \<longleftrightarrow> ar_files a i \<noteq> None"
    by (rule Delete_any [OF assms])
  moreover have "M i = None \<longleftrightarrow> ar_files a i = None"
    using assms(2) archive_holds_iff by (auto simp: archive_at_def)
  ultimately show ?thesis by (auto simp: same_archive_def)
qed

theorem Delete_removes_witness:
  "\<exists>a' w' es' bs'. CVFSArchive_Delete disk_api 7 (sample_archive True) (sample_world True) = (True, a', w')
    \<and> archive_at disk_view a' w' [97] True es' bs' ([7 \<mapsto> [1, 2, 3]](7 := None))"
  using Delete_removes [OF disk_api_files sample_at, of 7] by auto

text \<open>
  C3. The archive refines the map: whatever files are written and deleted, in whatever order and with
  blocks reused, the archive on disk and in memory is the one of the map after the same operations.
\<close>

theorem archive_run_refines:
  assumes "platform_ok p v" "archive_at v a w path True es bs M" "unat (ah_bytesPerBlock (ar_header a)) \<le> 2 ^ 30"
    and "list_all op_ok ops" "length bs + length ops * 2 ^ 32 < 2 ^ 62"
  shows "case fold (run_op p) ops (a, w) of (a', w') \<Rightarrow>
    (\<exists>es' bs'. archive_at v a' w' path True es' bs' (fold op_effect ops M)
       \<and> length bs' \<le> length bs + length ops * 2 ^ 32) \<and> same_archive v path a w a' w'"
proof -
  let ?e = "(p, v, path, a, w)"
  have "archive_env ?e" using assms(1,3) by (simp add: archive_env_def)
  moreover have "archive_state ?e (a, w) (length bs) M" using assms(2) by (auto simp: archive_state_def)
  moreover have "archive_exec ?e = run_op p" by (simp add: archive_exec_def fun_eq_iff)
  ultimately show ?thesis
    using archive.run_law [OF _ _ assms(4), of ?e "(a, w)" "length bs" M] assms(5)
    by (auto simp: archive_state_def split: prod.splits)
qed

theorem archive_run_refines_witness:
  "case fold (run_op sample_platform) [DeleteFile [65], WriteFile [97] [4, 5] 3 0] (sample_archive True, sample_world True) of
    (a', w') \<Rightarrow> (\<exists>es' bs'. archive_at disk_view a' w' [97] True es' bs'
        (fold op_effect [DeleteFile [65], WriteFile [97] [4, 5] 3 0] [7 \<mapsto> [1, 2, 3]])
       \<and> length bs' \<le> length sample_bytes + length [DeleteFile [65], WriteFile [97] [4, 5] 3 0] * 2 ^ 32)
     \<and> same_archive disk_view [97] (sample_archive True) (sample_world True) a' w'"
proof (rule archive_run_refines [OF sample_platform_ok sample_at])
  have "GenerateNameIndex [97] \<noteq> 0" by code_simp
  then show "list_all op_ok [DeleteFile [65], WriteFile [97] [4, 5] 3 0]" by (simp add: c_str_def MAX_INPUT_def)
qed (simp_all add: sample_archive_def sample_header_def sample_length)

text \<open>
  C6. \<^verbatim>\<open>Load\<close> of a well-formed archive file returns (its loop ends), and the archive in memory holds exactly the
  contents it held when the file was written, from whatever object and with whatever state.
\<close>

theorem Load_recovers:
  assumes "win32_files api v" "file_at v f w path wr pos bs" "c_str (m_fileName f) = path"
    and "archive_holds a0 es bs M" "32 \<le> length key" "m_archiveKey a0 = take 32 key" "m_vfsFile a = None"
  shows "\<exists>a' w'. CVFSArchive_Load api (Some f) (Some key) a w = Some (Returns True, a', w')
    \<and> archive_at v a' w' path wr es bs M \<and> others v path (handle f) w w'"
  by (rule Load_correct [OF assms(1-6), of a]) (use assms(7) in auto)

theorem Load_recovers_witness:
  "\<exists>a' w'. CVFSArchive_Load disk_api (Some (sample_file False)) (Some sample_key) (CVFSArchive_new []) (sample_world False)
      = Some (Returns True, a', w') \<and> archive_at disk_view a' w' [97] False [sample_entry] sample_bytes [7 \<mapsto> [1, 2, 3]]
    \<and> others disk_view [97] (handle (sample_file False)) (sample_world False) w'"
proof (rule Load_recovers [OF disk_api_files _ _ sample_holds [of True]])
  show "file_at disk_view (sample_file False) (sample_world False) [97] False 0 sample_bytes"
    by (simp add: sample_file_def sample_world_def file_at_def disk_view_def)
qed (simp_all add: sample_file_def c_str_def sample_archive_def sample_key_def CVFSArchive_new_def)

text \<open>
  C15. \<^verbatim>\<open>Open\<close> gives a memory file with the contents, whatever compression and encryption they were stored with,
  and leaves all files and handles as they were; an index that is not there gives a null pointer.
\<close>

theorem Open_reads_contents:
  assumes "platform_ok p v" "archive_at v a w path wr es bs M" "can_read v w path"
  shows "\<exists>r w'. CVFSArchive_Open p i a w = (Returns r, w') \<and> fv_disk v w' = fv_disk v w \<and> fv_open v w' = fv_open v w
    \<and> (case M i of None \<Rightarrow> r = None | Some d \<Rightarrow> \<exists>f. r = Some f \<and> memory_at f d 0)"
proof (cases "M i")
  case None
  have holds: "archive_holds a es bs M" using assms(2) by (simp add: archive_at_def)
  have "CVFSArchive_Open p i a w = (Returns None, w)" by (rule Open_absent [OF _ holds]) (rule None)
  then show ?thesis using None by simp
next
  case (Some d)
  show ?thesis by (rule Open_correct [OF assms(1,2) Some assms(3)]) (use Some in auto)
qed

theorem Open_reads_contents_witness:
  "\<exists>f w'. CVFSArchive_Open sample_platform 7 (sample_archive False) (sample_world False) = (Returns (Some f), w')
     \<and> memory_at f [1, 2, 3] 0"
proof -
  have "can_read disk_view (sample_world False) [97]"
    by (auto simp: can_read_def share_denied_def sample_world_def disk_view_def)
  then show ?thesis using Open_reads_contents [OF sample_platform_ok sample_at, of False 7] by auto
qed

end
