(* ===== verification/Archive_Errors.thy ===== *)
theory Archive_Errors
  imports Archive_Theorems
begin

text \<open>
  The codec, the search for a block and the images of entries on their own, and what archives do at their
  limits: refused arguments, equal hashes, files in use, damaged files, raw data and copying.
\<close>

section \<open>Lemmas\<close>

text \<open>A loop over blocks that comes back to where it was.\<close>

lemma load_loop_stuck:
  assumes api: "win32_files api v" and f: "file_at v f w path wr pos bs" and len: "length bs < 2 ^ 62" "pos + 551 \<le> length bs"
    and e: "entry_ok e" "slice pos 551 bs = entry_bytes e" "unat (fe_offset e - 551 + ucast (fe_numBlocks e * bpb)) = pos"
  shows "load_loop api bpb f files entries w = None"
proof -
  have "api' = api \<longrightarrow> bpb' = bpb \<longrightarrow> f' = f \<longrightarrow> \<not> file_at v f w path wr pos bs"
    if "load_loop api' bpb' f' files entries w = Some r" for api' bpb' f' files entries w r
    using that
  proof (rule load_loop.raw_induct [where P = "\<lambda>api' bpb' f' files entries w r.
      api' = api \<longrightarrow> bpb' = bpb \<longrightarrow> f' = f \<longrightarrow> \<not> file_at v f w path wr pos bs", rotated], goal_cases)
    case (1 load_loop api' bpb' f' files entries w r)
    show ?case
    proof (intro impI notI)
      assume same: "api' = api" "bpb' = bpb" "f' = f" and fw: "file_at v f w path wr pos bs"
      obtain w1 where w1: "CVFSFile_GetPosition api f w = (of_nat pos, w1)" "file_at v f w1 path wr pos bs"
        by (rule file_tell [OF api fw]) (use len in simp)
      obtain mem w2 where w2: "w_uninitialised api 551 w1 = (mem, w2)" "length mem = 551" "file_at v f w2 path wr pos bs"
        by (rule file_memory [OF api w1(2)])
      obtain w3 where w3: "CVFSFile_Read api 551 f w2 = (Returns (slice pos (unat (551 :: u32)) bs), f, w3)"
        "file_at v f w3 path wr (pos + length (slice pos (unat (551 :: u32)) bs)) bs"
        by (rule file_read [OF api w2(3)])
      have read: "CVFSFile_Read api 551 f w2 = (Returns (entry_bytes e), f, w3)" using w3(1) e(2) by simp
      have image: "bytes_entry (overwrite 0 (entry_bytes e) mem) = e"
        using w2(2) e(1) by (simp add: overwrite_def entry_inverse)
      obtain w4 where w4: "CVFSFile_SetPosition api (fe_offset e - 551 + ucast (fe_numBlocks e * bpb)) False f w3 = (f, w4)"
        "file_at v f w4 path wr pos bs"
        by (rule file_seek [OF api w3(2), of "fe_offset e - 551 + ucast (fe_numBlocks e * bpb)", unfolded e(3)])
          (use len in auto)
      have lt: "(of_nat pos :: u64) < CVFSFile_GetSize api f w1"
        using len by (simp add: file_size [OF api w1(2)] word_less_nat_alt unat_of_nat)
      have "\<exists>files' entries'. load_loop api bpb f files' entries' w4 = Some r"
        using 1(2) w1(1) lt w2(1) read w4(1) by (auto simp: Let_def image same)
      then show False using 1(1) w4(2) by blast
    qed
  qed
  then show ?thesis using f by (cases "load_loop api bpb f files entries w") auto
qed

text \<open>Deleting all files that are listed.\<close>

lemma delete_all_state:
  assumes "win32_files api v" "archive_at v a w path True es bs M"
  shows "\<exists>a' w' es' bs'. delete_all api is a w = (a', w')
    \<and> archive_at v a' w' path True es' bs' (\<lambda>i. if i \<in> fi_index ` set is then None else M i)"
  using assms(2)
proof (induction "is" arbitrary: a w es bs M)
  case Nil
  then show ?case by auto
next
  case (Cons x xs)
  obtain r a1 w1 es1 bs1 where d: "CVFSArchive_Delete api (fi_index x) a w = (r, a1, w1)"
    "archive_at v a1 w1 path True es1 bs1 (M(fi_index x := None))"
    by (rule Delete_any [OF assms(1) Cons.prems, of "fi_index x"])
  have "(\<lambda>i. if i \<in> fi_index ` set xs then None else (M(fi_index x := None)) i)
      = (\<lambda>i. if i \<in> fi_index ` set (x # xs) then None else M i)" by auto
  then show ?case using Cons.IH [OF d(2)] d(1) by simp
qed

lemma listed_indices:
  assumes "archive_ok a es bs" "set (order (ar_files a)) = dom (ar_files a)"
  shows "fi_index ` set (EnumerateFiles order a) = dom (ar_files a)"
proof -
  have "fi_index (fe_info (the (ar_files a i))) = i" if "i \<in> dom (ar_files a)" for i
  proof -
    obtain e where e: "ar_files a i = Some e" using \<open>i \<in> dom (ar_files a)\<close> by blast
    then have "entry_index e = i" using assms(1) by (simp add: archive_ok_def)
    then show ?thesis using e by (simp add: entry_index_def)
  qed
  then show ?thesis using assms(2) by (auto simp: EnumerateFiles_def image_image intro!: image_eqI)
qed

section \<open>Properties\<close>

text \<open>
  C17. The codec is loss-free: what \<^verbatim>\<open>Write\<close> stores for data of up to \<^verbatim>\<open>LZ4_MAX_INPUT_SIZE\<close> bytes, under any flags
  and key, \<^verbatim>\<open>Open\<close> unpacks to the data, whatever the memory of the compressor and of the cipher objects holds; the stored form exceeds the data by less than 0.4 percent and 32 bytes.
\<close>

theorem pack_unpack:
  assumes "junk_ok (pl_junk p)" "length key = 32"
    and "unat len \<le> length data" "unat len \<le> MAX_INPUT"
  shows "\<exists>cb cr fl. pack_data p key data len flags = Returns (cb, cr, fl)
    \<and> unat (get_size cr) \<le> unat len + unat len div 255 + 32
    \<and> (\<forall>j info. junk_ok j \<and> fi_flags info = fl \<and> fi_rawsize info = len \<and> fi_compressedsize info = get_size cb
         \<and> fi_hash info = XXH32 (take (unat len) data) 0
         \<longrightarrow> (\<exists>b. unpack_data j key info (contents cr) = Returns (Some b) \<and> contents b = take (unat len) data))"
proof -
  obtain cb cr fl where pack: "pack_data p key data len flags = Returns (cb, cr, fl)" "buffer_ok cb" "buffer_ok cr"
    "payload fl (contents cb) (take (unat len) data)" "sealed key fl (contents cr) (contents cb)"
    "length (contents cb) + 2048 < 2 ^ 31" "length (contents cr) \<le> unat len + unat len div 255 + 32"
    by (rule pack_data_sealed [OF assms, of flags])
  have sz: "unat (get_size cr) = length (contents cr)" "unat (get_size cb) = length (contents cb)"
    using length_contents pack(2,3) by metis+
  have cbs: "get_size cb = of_nat (length (contents cb))" by (simp flip: sz(2))
  have small: "length (contents cr) < 2 ^ 32" "length (take (unat len) data) < 2 ^ 31"
    using sz(1) unsigned_less [of "get_size cr", where 'a = nat] assms(4) by (simp_all add: MAX_INPUT_def)
  have "\<exists>b. unpack_data j key info (contents cr) = Returns (Some b) \<and> contents b = take (unat len) data"
    if "junk_ok j" "fi_flags info = fl" "fi_rawsize info = len" "fi_compressedsize info = get_size cb"
      "fi_hash info = XXH32 (take (unat len) data) 0" for j info
    using unpack_sealed [OF assms(2) that(1) pack(5,4) small(1) pack(6) small(2) that(2) _ _ that(5)] that(3,4) assms(3) cbs
    by auto
  then show ?thesis using pack(1,7) sz(1) by fastforce
qed

theorem pack_unpack_witness:
  "\<exists>cb cr fl. pack_data sample_platform sample_key [1, 2, 3] 3 3 = Returns (cb, cr, fl)
    \<and> unat (get_size cr) \<le> 3 + 3 div 255 + 32"
  using pack_unpack [of sample_platform sample_key 3 "[1, 2, 3]" 3] sample_platform_ok
  by (auto simp: platform_ok_def sample_key_def MAX_INPUT_def)

text \<open>
  C18. The block that is reused is the smallest free one that is large enough, the first of several; a new
  one is appended exactly when no free block fits.
\<close>

theorem best_fit_optimal:
  "case best_fit bpb need es of
     (e, None) \<Rightarrow> fe_numBlocks e = 0xffffffff \<and> (\<forall>x\<in>set es. \<not> fits bpb need x)
   | (e, Some i) \<Rightarrow> i < length es \<and> e = es ! i \<and> fits bpb need e
       \<and> (\<forall>x\<in>set es. fits bpb need x \<longrightarrow> fe_numBlocks e \<le> fe_numBlocks x)
       \<and> (\<forall>j<i. fits bpb need (es ! j) \<longrightarrow> fe_numBlocks e < fe_numBlocks (es ! j))"
  using best_fit_result [of bpb need es]
  by (auto simp: best_fit_result_def split: prod.splits option.splits)

theorem best_fit_optimal_witness:
  "best_fit 1024 3 [zero_entry\<lparr>fe_numBlocks := 9\<rparr>, zero_entry\<lparr>fe_numBlocks := 2\<rparr>] = (zero_entry\<lparr>fe_numBlocks := 2\<rparr>, Some 1)
    \<and> fits 1024 3 (zero_entry\<lparr>fe_numBlocks := 2\<rparr>)"
proof -
  have "best_fit 1024 3 [zero_entry\<lparr>fe_numBlocks := 9\<rparr>, zero_entry\<lparr>fe_numBlocks := 2\<rparr>] = (zero_entry\<lparr>fe_numBlocks := 2\<rparr>, Some 1)"
    by (simp add: best_fit_def zero_entry_def)
  then show ?thesis
    using best_fit_optimal [where bpb = 1024 and need = 3 and es = "[zero_entry\<lparr>fe_numBlocks := 9\<rparr>, zero_entry\<lparr>fe_numBlocks := 2\<rparr>]"] by simp
qed

text \<open>
  C33. The format of the archive file is what the declarations of the structures and \<^verbatim>\<open>pragma pack\<close> make it: the images of
  entry and header, as the operations write and read them, are those of the C layout, members in the declared order
  without padding, of the sizes that \<^verbatim>\<open>sizeof\<close> has. They are read back as they were written, and any bytes of these
  sizes are the image of what is read from them.
\<close>

theorem struct_images:
  shows "(entry_ok e \<longrightarrow> entry_bytes e = c_image 1 SFileEntry_type (entry_value e) \<and> bytes_entry (c_image 1 SFileEntry_type (entry_value e)) = e)
    \<and> header_bytes h = c_image 1 SArchiveHeader_type (header_value h) \<and> bytes_header (c_image 1 SArchiveHeader_type (header_value h)) = h
    \<and> sizeof_SFileEntry = c_size 1 SFileEntry_type \<and> sizeof_SArchiveHeader = c_size 1 SArchiveHeader_type
    \<and> sizeof_SFileInformation = c_size 1 SFileInformation_type
    \<and> (length bs = sizeof_SFileEntry \<longrightarrow> entry_ok (bytes_entry bs) \<and> c_image 1 SFileEntry_type (entry_value (bytes_entry bs)) = bs)
    \<and> (length hs = sizeof_SArchiveHeader \<longrightarrow> c_image 1 SArchiveHeader_type (header_value (bytes_header hs)) = hs)"
proof -
  have "c_image 1 SFileEntry_type (entry_value (bytes_entry bs)) = bs" if "length bs = 551"
    using entry_image [OF that] entry_c_image [of "bytes_entry bs"] by simp
  moreover have "entry_ok e \<Longrightarrow> bytes_entry (c_image 1 SFileEntry_type (entry_value e)) = e"
    using entry_inverse [of e] entry_c_image [of e] by simp
  ultimately show ?thesis
    using entry_c_image [of e] header_c_image header_inverse [of h] header_image [of hs] info_c_size(2) c_sizes
    by (simp add: sizeof_SFileEntry_def sizeof_SArchiveHeader_def sizeof_SFileInformation_def)
qed

theorem struct_images_witness:
  "entry_bytes sample_entry = c_image 1 SFileEntry_type (entry_value sample_entry)
    \<and> c_image 1 SFileEntry_type (entry_value (bytes_entry (replicate 551 7))) = replicate 551 7
    \<and> c_image 1 SArchiveHeader_type (header_value (bytes_header (replicate 12 7))) = replicate 12 7"
  using struct_images [of sample_entry sample_header "replicate 551 7" "replicate 12 7"] sample_entry_ok
  by (simp add: sizeof_SFileEntry_def sizeof_SArchiveHeader_def)

text \<open>
  A file whose present contents have the same 32-bit hash as the new data is not written: \<^verbatim>\<open>Write\<close> reports
  success and changes nothing, whatever the data, the flags and the version.
\<close>

theorem Write_keeps_equal_hash:
  assumes "archive_at v a w path True es bs M" "M (GenerateNameIndex filename) = Some old"
    and "XXH32 old 0 = XXH32 (take (unat len) data) 0" "unat len \<le> length data"
  shows "CVFSArchive_Write p filename data len flags version a w = (Returns True, a, w)"
  using assms by (rule Write_same_hash)

theorem Write_keeps_equal_hash_witness:
  "case fold (run_op sample_platform) [WriteFile [97] [4, 5] 3 0] (sample_archive True, sample_world True) of (a, w) \<Rightarrow>
     CVFSArchive_Write sample_platform [65] [4, 5] 2 0 9 a w = (Returns True, a, w)"
proof -
  have idx: "GenerateNameIndex [97] \<noteq> 0" "GenerateNameIndex [65] = GenerateNameIndex [97]" "GenerateNameIndex [97] \<noteq> 7"
    by code_simp+
  obtain a' w' es' bs' where r: "CVFSArchive_Write sample_platform [97] [4, 5] 2 3 0 (sample_archive True) (sample_world True) = (Returns True, a', w')"
    "archive_at disk_view a' w' [97] True es' bs' (store_file (GenerateNameIndex [97]) (take (unat (2 :: u32)) [4, 5]) [7 \<mapsto> [1, 2, 3]])"
    by (rule Write_correct [OF sample_platform_ok sample_at idx(1), of 2 "[4, 5]" 3 0])
      (simp_all add: c_str_def MAX_INPUT_def sample_archive_def sample_header_def sample_length)
  have "CVFSArchive_Write sample_platform [65] [4, 5] 2 0 9 a' w' = (Returns True, a', w')"
    by (rule Write_keeps_equal_hash [OF r(2), where old = "[4, 5]"]) (use idx in \<open>simp_all add: store_file_def\<close>)
  then show ?thesis using r(1) by simp
qed

text \<open>
  As long as an archive is open for writing, no file in it can be opened: \<^verbatim>\<open>Open\<close> opens the archive file a
  second time, which the sharing mode of the first handle refuses.
\<close>

theorem Open_refused_while_writing:
  assumes "win32_files (pl_api p) v" "archive_at v a w path True es bs M"
  shows "\<exists>w'. CVFSArchive_Open p i a w = (Returns None, w') \<and> fv_disk v w' = fv_disk v w \<and> fv_open v w' = fv_open v w"
  by (rule Open_while_writing [OF assms]) blast

theorem Open_refused_while_writing_witness:
  "\<exists>w'. CVFSArchive_Open sample_platform 7 (sample_archive True) (sample_world True) = (Returns None, w')"
  using Open_refused_while_writing [of sample_platform, OF _ sample_at, of 7] sample_platform_ok
  by (auto simp: platform_ok_def)

text \<open>
  C38. Loading a damaged file need not end: when an entry, the first one for instance, states a position and a
  number of blocks that lead back to itself, \<^verbatim>\<open>Load\<close> reads this entry for ever.
\<close>

theorem Load_may_not_return:
  assumes "win32_files api v" "file_at v f w path wr pos bs" "length bs < 2 ^ 62" "32 \<le> length key"
    and "m_vfsFile a = None" "take 12 bs = header_bytes h" "ah_magic h = ARCHIVE_MAGIC"
    and "unat (ah_firstEntry h) + 551 \<le> length bs" "entry_ok e" "slice (unat (ah_firstEntry h)) 551 bs = entry_bytes e"
    and "fe_offset e - 551 + ucast (fe_numBlocks e * ah_bytesPerBlock h) = ucast (ah_firstEntry h)"
  shows "CVFSArchive_Load api (Some f) (Some key) a w = None"
proof -
  obtain w1 where w1: "CVFSFile_SetPosition api 0 False f w = (f, w1)" "file_at v f w1 path wr 0 bs"
    by (rule file_seek [OF assms(1,2), of 0]) auto
  have sl: "slice 0 (unat (12 :: u32)) bs = header_bytes h" using assms(6) by (simp add: slice_def)
  obtain w2 where w2: "CVFSFile_Read api 12 f w1 = (Returns (header_bytes h), f, w2)" "file_at v f w2 path wr 12 bs"
    by (rule file_read [OF assms(1) w1(2), of 12, unfolded sl length_header_bytes]) simp
  obtain w3 where w3: "CVFSFile_SetPosition api (ucast (ah_firstEntry h)) False f w2 = (f, w3)"
    "file_at v f w3 path wr (unat (ah_firstEntry h)) bs"
    by (rule file_seek [OF assms(1) w2(2), of "ucast (ah_firstEntry h)", unfolded unat_ucast_u32])
      (use unsigned_less [of "ah_firstEntry h", where 'a = nat] in auto)
  have stuck: "load_loop api (ah_bytesPerBlock h) f Map.empty [] w3 = None"
    by (rule load_loop_stuck [OF assms(1) w3(2) assms(3,8,9,10)]) (simp only: assms(11) unat_ucast_u32)
  have hdr: "bytes_header (overwrite 0 (header_bytes h) (header_bytes zero_header)) = h"
    by (simp add: overwrite_def header_inverse)
  show ?thesis
    using file_at_valid [OF assms(2)] assms(4,5,7) w1(1) w2(1) w3(1) stuck
    by (simp add: CVFSArchive_Load_def unload_keeping_def Let_def hdr linorder_not_less)
qed

text \<open>The sample file with the number of blocks of its entry set to 0.\<close>

theorem Load_may_not_return_witness:
  "CVFSArchive_Load disk_api (Some (sample_file False)) (Some sample_key) (CVFSArchive_new [])
     ((sample_world False)\<lparr>dw_disk := [[97] \<mapsto> header_bytes sample_header @ entry_bytes (sample_entry\<lparr>fe_numBlocks := 0\<rparr>)]\<rparr>) = None"
proof (rule Load_may_not_return [OF disk_api_files, where h = sample_header and e = "sample_entry\<lparr>fe_numBlocks := 0\<rparr>"])
  have ok: "entry_ok (sample_entry\<lparr>fe_numBlocks := 0\<rparr>)" using sample_entry_ok by (simp add: entry_ok_def)
  show "entry_ok (sample_entry\<lparr>fe_numBlocks := 0\<rparr>)" by (rule ok)
  show "unat (ah_firstEntry sample_header) + 551
      \<le> length (header_bytes sample_header @ entry_bytes (sample_entry\<lparr>fe_numBlocks := 0\<rparr>))"
    using ok by (simp add: sample_header_def)
  show "slice (unat (ah_firstEntry sample_header)) 551
      (header_bytes sample_header @ entry_bytes (sample_entry\<lparr>fe_numBlocks := 0\<rparr>)) = entry_bytes (sample_entry\<lparr>fe_numBlocks := 0\<rparr>)"
  proof -
    have "unat (ah_firstEntry sample_header) = 12" by (simp add: sample_header_def)
    then show ?thesis using ok by (simp add: slice_append_right)
  qed
  show "length (header_bytes sample_header @ entry_bytes (sample_entry\<lparr>fe_numBlocks := 0\<rparr>)) < 2 ^ 62"
    using ok by simp
  show "file_at disk_view (sample_file False) ((sample_world False)\<lparr>dw_disk := [[97] \<mapsto> header_bytes sample_header
      @ entry_bytes (sample_entry\<lparr>fe_numBlocks := 0\<rparr>)]\<rparr>) [97] False 0
      (header_bytes sample_header @ entry_bytes (sample_entry\<lparr>fe_numBlocks := 0\<rparr>))"
    by (simp add: sample_file_def sample_world_def file_at_def disk_view_def)
qed (simp_all add: sample_key_def CVFSArchive_new_def sample_header_def sample_entry_def small_entry_def)

text \<open>
  C37. When \<^verbatim>\<open>Load\<close> fails: always without a file, with a file that cannot be read and without a key, before anything
  is read; and with a file and a key exactly if the file is shorter than a header or does not start with the
  magic number. The archive then holds no files, and in the last case no key.
\<close>

theorem Load_rejects:
  assumes "win32_files api v" "file_at v f w path wr pos bs" "32 \<le> length key" "m_vfsFile a = None"
  shows "(\<exists>a'. CVFSArchive_Load api None k a w = Some (Returns False, a', w) \<and> ar_files a' = Map.empty \<and> ar_entries a' = [])
    \<and> (\<not> CVFSFile_IsReadable g \<longrightarrow>
        (\<exists>a'. CVFSArchive_Load api (Some g) k a w = Some (Returns False, a', w) \<and> ar_files a' = Map.empty \<and> ar_entries a' = []))
    \<and> (\<exists>a'. CVFSArchive_Load api (Some f) None a w = Some (Returns False, a', w) \<and> ar_files a' = Map.empty \<and> ar_entries a' = [])
    \<and> (if length bs < 12 \<or> ah_magic (bytes_header bs) \<noteq> ARCHIVE_MAGIC
       then \<exists>a' w'. CVFSArchive_Load api (Some f) (Some key) a w = Some (Returns False, a', w')
         \<and> ar_files a' = Map.empty \<and> ar_entries a' = [] \<and> m_archiveKey a' = replicate 32 0
       else \<forall>a' w'. CVFSArchive_Load api (Some f) (Some key) a w \<noteq> Some (Returns False, a', w'))"
proof -
  obtain w1 where w1: "CVFSFile_SetPosition api 0 False f w = (f, w1)" "file_at v f w1 path wr 0 bs"
    by (rule file_seek [OF assms(1,2), of 0]) auto
  obtain w2 where w2: "CVFSFile_Read api 12 f w1 = (Returns (slice 0 (unat (12 :: u32)) bs), f, w2)"
    by (rule file_read [OF assms(1) w1(2), of 12]) simp
  have read: "CVFSFile_Read api 12 f w1 = (Returns (take 12 bs), f, w2)" using w2 by (simp add: slice_def)
  have header: "bytes_header (overwrite 0 (take 12 bs) (header_bytes zero_header)) = bytes_header bs" if "\<not> length bs < 12"
  proof -
    have "bytes_header (take 12 bs) = bytes_header bs"
      by (simp add: bytes_header_def slice_def drop_take min_def)
    then show ?thesis using that by (simp add: overwrite_def)
  qed
  have "if length bs < 12 \<or> ah_magic (bytes_header bs) \<noteq> ARCHIVE_MAGIC
     then \<exists>a' w'. CVFSArchive_Load api (Some f) (Some key) a w = Some (Returns False, a', w')
       \<and> ar_files a' = Map.empty \<and> ar_entries a' = [] \<and> m_archiveKey a' = replicate 32 0
     else \<forall>a' w'. CVFSArchive_Load api (Some f) (Some key) a w \<noteq> Some (Returns False, a', w')"
    using file_at_valid [OF assms(2)] assms(3,4) w1(1) read header
    by (cases "length bs < 12")
      (auto simp: CVFSArchive_Load_def unload_keeping_def Let_def split: prod.splits outcome.splits)
  then show ?thesis
    using file_at_valid [OF assms(2)] assms(4)
    by (simp add: CVFSArchive_Load_def unload_keeping_def)
qed

text \<open>A file of two bytes.\<close>

theorem Load_rejects_witness:
  "\<exists>a' w'. CVFSArchive_Load disk_api (Some (sample_file False)) (Some sample_key) (CVFSArchive_new [])
     ((sample_world False)\<lparr>dw_disk := [[97] \<mapsto> [1, 2]]\<rparr>) = Some (Returns False, a', w') \<and> ar_files a' = Map.empty"
proof -
  have "file_at disk_view (sample_file False) ((sample_world False)\<lparr>dw_disk := [[97] \<mapsto> [1, 2]]\<rparr>) [97] False 0 [1, 2]"
    by (simp add: sample_file_def sample_world_def file_at_def disk_view_def)
  from Load_rejects [OF disk_api_files this, of sample_key "CVFSArchive_new []" None CVFSFile_new] show ?thesis
    by (auto simp: sample_key_def CVFSArchive_new_def)
qed

text \<open>
  C39. \<^verbatim>\<open>CopyArchive\<close> copies nothing: after it has deleted the files of the target it runs over the files of the
  target again instead of those of the source. Whatever the source holds, it reports success and leaves the
  target empty.
\<close>

theorem CopyArchive_copies_nothing:
  assumes "win32_files api v" "archive_at v out w path True es bs M" "\<And>m. set (order m) = dom m"
  shows "\<exists>out' w' es' bs'. CopyArchive api order (Some inp) (Some out) w = (Returns True, Some out', w')
    \<and> archive_at v out' w' path True es' bs' Map.empty"
proof -
  have holds: "archive_holds out es bs M" and ok: "archive_ok out es bs"
    using assms(2) by (auto simp: archive_at_def archive_holds_def)
  obtain out' w' es' bs' where d: "delete_all api (EnumerateFiles order out) out w = (out', w')"
    "archive_at v out' w' path True es' bs' (\<lambda>i. if i \<in> fi_index ` set (EnumerateFiles order out) then None else M i)"
    using delete_all_state [OF assms(1,2)] by blast
  have "fi_index ` set (EnumerateFiles order out) = dom M"
    using listed_indices [OF ok, of order] assms(3) holds by (simp add: archive_holds_def)
  then have "(\<lambda>i. if i \<in> fi_index ` set (EnumerateFiles order out) then None else M i) = Map.empty"
    by (auto simp: dom_def)
  with d(2) have at: "archive_at v out' w' path True es' bs' Map.empty" by simp
  then have "ar_files out' = Map.empty"
    using archive_holds_iff [of out' es' bs' Map.empty] by (auto simp: archive_at_def)
  then have "EnumerateFiles order out' = []"
    using assms(3) [of Map.empty] by (simp add: EnumerateFiles_def)
  then show ?thesis using d(1) at by (auto simp: CopyArchive_def)
qed

theorem CopyArchive_copies_nothing_witness:
  "\<exists>out' w' es' bs'. CopyArchive disk_api (\<lambda>m. sorted_list_of_set (dom m)) (Some (sample_archive False)) (Some (sample_archive True)) (sample_world True)
      = (Returns True, Some out', w') \<and> archive_at disk_view out' w' [97] True es' bs' Map.empty"
  by (rule CopyArchive_copies_nothing [OF disk_api_files sample_at]) simp

text \<open>
  C40. \<^verbatim>\<open>ReadRawData\<close> gives the entry, and then not the stored data but bytes of the file from the offset of the
  data rounded down to the allocation granularity, in a small archive from its start.
\<close>

theorem ReadRawData_wrong_bytes:
  assumes "win32_files api v" "archive_at v a w path False es bs M" "can_read v w path"
    and "\<And>f u. m_vfsFile a = Some f \<Longrightarrow> GetAbsolutePath api (m_fileName f) u = path"
    and "ar_files a i = Some e" "fe_finalSize e \<noteq> 0" "unat maxlength = 551 + unat (fe_finalSize e)"
    and "start = unat (fe_offset e) - unat (fe_offset e) mod unat (w_allocation_granularity api)"
  shows "fst (ReadRawData api i maxlength a w)
    = Returns (551 + fe_finalSize e, entry_bytes e @ slice start (unat (fe_finalSize e)) bs)"
proof -
  have ok: "archive_ok a es bs" using assms(2) by (simp add: archive_at_def archive_holds_def)
  obtain g pos where g: "m_vfsFile a = Some g" "file_at v g w path False pos bs"
    using assms(2) by (auto simp: archive_at_def)
  have "e \<in> set es" using archive_block [OF ok] assms(5) by blast
  then obtain xs ys where es: "es = xs @ e # ys" by (meson split_list)
  have lay: "layout (ar_header a) (xs @ e # ys) bs" using ok es by (simp add: archive_ok_def)
  note block = layout_block [OF lay refl]
  have fit: "unat (fe_offset e) + unat (fe_finalSize e) \<le> length bs"
    using block(1,2) conjunct1 [OF conjunct2 [OF conjunct2 [OF block(3) [unfolded entry_at_def]]]] by linarith
  have len: "start + unat (fe_finalSize e) \<le> length bs" using fit assms(8) by simp
  have disk: "fv_disk v w path = Some bs" using g(2) by (simp add: file_at_def)
  obtain stream w1 where m: "CVFSFile_Map api (m_fileName g) (fe_offset e) (fe_finalSize e) CVFSFile_new w = (True, stream, w1)"
    "CVFSFile_GetData stream = Some (slice start (unat (fe_finalSize e)) bs)" "CVFSFile_GetSize api stream w1 = ucast (fe_finalSize e)"
    using Map_rounded [OF assms(1) assms(4) [OF g(1)] disk assms(3,6) _ assms(8) len] block(4) by (auto split: prod.splits)
  have gt: "551 < maxlength" using assms(6,7) by (simp add: word_less_nat_alt unat_gt_0)
  have "maxlength - 551 = fe_finalSize e"
    using gt assms(7) by (simp add: word_unat_eq_iff unat_sub word_le_nat_alt)
  moreover have "(ucast (ucast (fe_finalSize e) :: u64) :: u32) = fe_finalSize e"
    by (simp add: word_unat_eq_iff unsigned_ucast_eq take_bit_word_eq_self)
  ultimately show ?thesis
    using assms(5) gt g(1) file_at_valid [OF g(2)] m len
    by (simp add: ReadRawData_def CVFSFile_GetFileName_def Let_def length_slice)
qed

text \<open>Of the sample archive, whose file has the data 1, 2, 3, it gives the first bytes of the header.\<close>

theorem ReadRawData_wrong_bytes_witness:
  "fst (ReadRawData disk_api 7 554 (sample_archive False) (sample_world False)) = Returns (554, entry_bytes sample_entry @ [0x69, 0x31, 0])"
proof -
  have "fst (ReadRawData disk_api 7 554 (sample_archive False) (sample_world False))
      = Returns (551 + fe_finalSize sample_entry, entry_bytes sample_entry @ slice 0 (unat (fe_finalSize sample_entry)) sample_bytes)"
    by (rule ReadRawData_wrong_bytes [OF disk_api_files sample_at])
      (auto simp: can_read_def share_denied_def sample_world_def disk_view_def sample_archive_def sample_file_def GetAbsolutePath_def
        disk_api_def c_str_def sample_entry_def small_entry_def)
  moreover have "slice 0 3 sample_bytes = [0x69, 0x31, 0]"
    by (simp add: sample_bytes_def small_bytes_def header_bytes_def sample_header_def ARCHIVE_MAGIC_def le_bytes_def upt_rec slice_def)
  ultimately show ?thesis by (simp add: sample_entry_def small_entry_def)
qed

end
