(* ===== verification/Vfs_Pack.thy ===== *)
theory Vfs_Pack
  imports Archive_Theorems
begin

text \<open>
  \<^verbatim>\<open>VFSLib/src/VFSPack.cpp\<close>: the front end that knows the keys, the registered names and the loaded archives, and
  through which programs open files. Archives are shared objects: the list of the pack holds the objects with
  a number for their identity, which is what a pointer to them is; an object stays open as long as someone holds
  it. \<^verbatim>\<open>tolower\<close> and \<^verbatim>\<open>towlower\<close> are those of the "C" locale. Not modelled: the logger, the singleton pointer
  and the mutex.
\<close>

section \<open>State\<close>

record CVFSPack =
  m_archiveKeys :: "wstring \<Rightarrow> byte list option"
  m_registiredArchives :: "wstring \<Rightarrow> wstring option"
  m_archiveNames :: "wstring list"
  m_archives :: "(nat \<times> CVFSArchive) list"
  pk_next :: nat

definition CVFSPack_new :: CVFSPack where
  "CVFSPack_new = \<lparr>m_archiveKeys = Map.empty, m_registiredArchives = Map.empty, m_archiveNames = [],
     m_archives = [], pk_next = 0\<rparr>"

definition LITE_CRYPT_KEY :: "byte list" where
  "LITE_CRYPT_KEY = replicate 31 0 @ [1]"

text \<open>The working directory and the path of the executable.\<close>

record 'w directories =
  dr_SetCurrentDirectory :: "wstring \<Rightarrow> 'w \<Rightarrow> 'w"
  dr_GetCurrentDirectory :: "'w \<Rightarrow> wstring"
  dr_GetModuleFileName :: wstring

abbreviation lower :: "wstring \<Rightarrow> wstring" where
  "lower \<equiv> map towlower"

section \<open>Registered archives and keys\<close>

definition RegisterArchive :: "wstring \<Rightarrow> wstring \<Rightarrow> CVFSPack \<Rightarrow> CVFSPack" where
  "RegisterArchive name path pk =
     (let path = lower path; name = lower name
      in pk\<lparr>m_registiredArchives := insert_new path name (m_registiredArchives pk),
            m_archiveNames := m_archiveNames pk @ [name]\<rparr>)"

text \<open>\<open>order\<close> is the order in which the hash table walks its keys; the first match is erased.\<close>

definition UnregisterArchive ::
  "((wstring \<Rightarrow> wstring option) \<Rightarrow> wstring list) \<Rightarrow> wstring \<Rightarrow> CVFSPack \<Rightarrow> CVFSPack" where
  "UnregisterArchive order name pk =
     (let name = lower name
      in case find (\<lambda>path. m_registiredArchives pk path = Some name) (order (m_registiredArchives pk)) of
           None \<Rightarrow> pk
         | Some path \<Rightarrow> pk\<lparr>m_registiredArchives := (m_registiredArchives pk)(path := None)\<rparr>)"

definition SetArchiveKey :: "wstring \<Rightarrow> byte list \<Rightarrow> CVFSPack \<Rightarrow> CVFSPack outcome" where
  "SetArchiveKey name key pk =
     (if length key < KEY_LENGTH then Undefined
      else Returns (pk\<lparr>m_archiveKeys := (m_archiveKeys pk)(lower name \<mapsto> take KEY_LENGTH key)\<rparr>))"

section \<open>Loaded archives\<close>

text \<open>The first loaded archive whose file has the name; an archive without a file is a null pointer.\<close>

fun find_stream :: "wstring \<Rightarrow> (nat \<times> CVFSArchive) list \<Rightarrow> nat option outcome" where
  "find_stream filename [] = Returns None"
| "find_stream filename ((i, a) # as) =
     (case CVFSArchive_GetFileStream a of
        None \<Rightarrow> Undefined
      | Some f \<Rightarrow> if CVFSFile_GetFileName f = filename then Returns (Some i) else find_stream filename as)"

definition FindArchive :: "wstring \<Rightarrow> CVFSPack \<Rightarrow> nat option outcome" where
  "FindArchive filename pk = find_stream (lower filename) (m_archives pk)"

text \<open>\<open>None\<close> outside is a \<^verbatim>\<open>Load\<close> that does not return. An archive that fails to load is destroyed with its file.\<close>

definition LoadArchive ::
  "'w win32 \<Rightarrow> byte list \<Rightarrow> wstring \<Rightarrow> CVFSPack \<Rightarrow> 'w \<Rightarrow> (nat option outcome \<times> CVFSPack \<times> 'w) option" where
  "LoadArchive api memory filename pk w =
     (let filename = lower filename
      in case find_stream filename (m_archives pk) of
           Undefined \<Rightarrow> Some (Undefined, pk, w)
         | Returns (Some i) \<Rightarrow> Some (Returns (Some i), pk, w)
         | Returns None \<Rightarrow>
             (case CVFSFile_Open api (GetAbsolutePath api filename w) CVFSFile_new w of
                (_, file, w) \<Rightarrow>
                  (case CVFSArchive_Load api (Some file) (m_archiveKeys pk filename) (CVFSArchive_new memory) w of
                     None \<Rightarrow> None
                   | Some (Undefined, a, w) \<Rightarrow> Some (Undefined, pk, w)
                   | Some (Returns False, a, w) \<Rightarrow> Some (Returns None, pk, snd (CVFSFile_Close api file w))
                   | Some (Returns True, a, w) \<Rightarrow>
                       Some (Returns (Some (pk_next pk)),
                             pk\<lparr>m_archives := m_archives pk @ [(pk_next pk, a)], pk_next := Suc (pk_next pk)\<rparr>, w))))"

text \<open>\<^verbatim>\<open>abort()\<close> is \<open>Returns False\<close>; \<open>names\<close> is the order in which the parallel loop gets the mutex.\<close>

fun load_each ::
  "'w win32 \<Rightarrow> byte list \<Rightarrow> wstring list \<Rightarrow> CVFSPack \<Rightarrow> 'w \<Rightarrow> (bool outcome \<times> CVFSPack \<times> 'w) option" where
  "load_each api memory [] pk w = Some (Returns True, pk, w)"
| "load_each api memory (n # names) pk w =
     (case LoadArchive api memory n pk w of
        None \<Rightarrow> None
      | Some (Undefined, pk, w) \<Rightarrow> Some (Undefined, pk, w)
      | Some (Returns None, pk, w) \<Rightarrow> Some (Returns False, pk, w)
      | Some (Returns (Some _), pk, w) \<Rightarrow> load_each api memory names pk w)"

definition LoadRegistiredArchives ::
  "'w win32 \<Rightarrow> (wstring list \<Rightarrow> wstring list) \<Rightarrow> byte list \<Rightarrow> CVFSPack \<Rightarrow> 'w
     \<Rightarrow> (bool outcome \<times> CVFSPack \<times> 'w) option" where
  "LoadRegistiredArchives api schedule memory pk w =
     load_each api memory (schedule (rev (m_archiveNames pk))) pk w"

text \<open>The caller still holds the archive, so nothing is closed yet.\<close>

definition UnloadArchive :: "nat \<Rightarrow> CVFSPack \<Rightarrow> CVFSPack" where
  "UnloadArchive archive pk = pk\<lparr>m_archives := filter (\<lambda>(i, a). i \<noteq> archive) (m_archives pk)\<rparr>"

section \<open>Files\<close>

definition CVFSPack_Create ::
  "'w win32 \<Rightarrow> wstring \<Rightarrow> bool \<Rightarrow> CVFSPack \<Rightarrow> 'w \<Rightarrow> CVFSFile option \<times> 'w" where
  "CVFSPack_Create api filename append' pk w =
     (case CVFSFile_Create api (GetAbsolutePath api filename w) append' CVFSFile_new w of
        (ok, f, w) \<Rightarrow> if ok then (Some f, w) else (None, snd (CVFSFile_Close api f w)))"

fun open_in ::
  "'w platform \<Rightarrow> wstring \<Rightarrow> (nat \<times> CVFSArchive) list \<Rightarrow> 'w \<Rightarrow> CVFSFile option outcome \<times> 'w" where
  "open_in p filename [] w = (Returns None, w)"
| "open_in p filename ((i, a) # as) w =
     (case CVFSArchive_Open_name p filename a w of
        (Undefined, w) \<Rightarrow> (Undefined, w)
      | (Returns (Some f), w) \<Rightarrow> (Returns (Some f), w)
      | (Returns None, w) \<Rightarrow> open_in p filename as w)"

definition CVFSPack_Open ::
  "'w platform \<Rightarrow> wstring \<Rightarrow> CVFSPack \<Rightarrow> 'w \<Rightarrow> CVFSFile option outcome \<times> 'w" where
  "CVFSPack_Open p filename pk w =
     (let filename = lower filename
      in case open_in p filename (m_archives pk) w of
           (Undefined, w) \<Rightarrow> (Undefined, w)
         | (Returns (Some f), w) \<Rightarrow> (Returns (Some f), w)
         | (Returns None, w) \<Rightarrow>
             (case CVFSFile_Open (pl_api p) filename CVFSFile_new w of
                (ok, f, w) \<Rightarrow> if ok then (Returns (Some f), w) else (Returns None, snd (CVFSFile_Close (pl_api p) f w))))"

section \<open>Directories\<close>

definition SetWorkingDirectory :: "'w win32 \<Rightarrow> 'w directories \<Rightarrow> wstring \<Rightarrow> 'w \<Rightarrow> 'w" where
  "SetWorkingDirectory api d dir w = dr_SetCurrentDirectory d (GetAbsolutePath api dir w) w"

definition GetWorkingDirectory :: "'w directories \<Rightarrow> 'w \<Rightarrow> wstring" where
  "GetWorkingDirectory d w = c_str (dr_GetCurrentDirectory d w)"

definition is_slash :: "u16 \<Rightarrow> bool" where
  "is_slash c \<longleftrightarrow> c = 0x5C \<or> c = 0x2F"

text \<open>The loop from the end that puts a zero over the last separator, unless that is the first character.\<close>

fun cut_at_slash :: "wstring \<Rightarrow> nat \<Rightarrow> wstring" where
  "cut_at_slash s 0 = s"
| "cut_at_slash s (Suc i) = (if Suc i < length s \<and> is_slash (s ! Suc i) then take (Suc i) s else cut_at_slash s i)"

definition GetExecutableDirectory :: "'w directories \<Rightarrow> wstring" where
  "GetExecutableDirectory d =
     (let buffer = c_str (dr_GetModuleFileName d);
          buffer = cut_at_slash buffer (length buffer)
      in map (\<lambda>c. if c = 0x5C then 0x2F else c) buffer)"

section \<open>Utilities\<close>

text \<open>The recursion is on C strings: the characters before the terminator.\<close>

function wildcard_loop :: "wstring \<Rightarrow> wstring \<Rightarrow> bool" where
  "wildcard_loop pString [] \<longleftrightarrow> pString = []"
| "wildcard_loop pString (m # pMatch) \<longleftrightarrow>
     (if m = 0x3F then (case pString of [] \<Rightarrow> False | _ # pString \<Rightarrow> wildcard_loop pString pMatch)
      else if m = 0x2A
      then wildcard_loop pString pMatch
        \<or> (case pString of [] \<Rightarrow> False | _ # pString \<Rightarrow> wildcard_loop pString (m # pMatch))
      else (case pString of [] \<Rightarrow> False | c # pString \<Rightarrow> c = m \<and> wildcard_loop pString pMatch))"
  by pat_completeness auto
termination
  by (relation "measure (\<lambda>(s, m). length s + length m)") auto

definition WildcardMatch :: "wstring \<Rightarrow> wstring \<Rightarrow> bool" where
  "WildcardMatch str match \<longleftrightarrow> wildcard_loop (c_str str) (c_str match)"

definition ConvertKeyFromAscii :: "bstring \<Rightarrow> byte list" where
  "ConvertKeyFromAscii src = convert_ascii src"

definition ToString :: "wstring \<Rightarrow> bstring" where
  "ToString wstInput = map ucast wstInput"

definition ToWstring :: "bstring \<Rightarrow> wstring" where
  "ToWstring stInput = map scast stInput"

end
