(* ===== verification/Pack_Theorems.thy ===== *)
theory Pack_Theorems
  imports Vfs_Pack
begin

text \<open>
  Wildcard patterns against their specification, the invariant of the pack over its operations, and reading a
  file through the pack from an archive that another program has written.
\<close>

section \<open>Patterns\<close>

text \<open>What a pattern means: a question mark is one character, a star any characters, the rest themselves.\<close>

inductive glob :: "wstring \<Rightarrow> wstring \<Rightarrow> bool" where
  glob_end: "glob [] []"
| glob_any: "glob ms cs \<Longrightarrow> glob (0x3F # ms) (c # cs)"
| glob_star: "glob ms cs \<Longrightarrow> glob (0x2A # ms) (pre @ cs)"
| glob_char: "m \<noteq> 0x3F \<Longrightarrow> m \<noteq> 0x2A \<Longrightarrow> glob ms cs \<Longrightarrow> glob (m # ms) (m # cs)"

inductive_simps glob_Nil: "glob [] s"
inductive_simps glob_Cons: "glob (m # ms) s"

lemma glob_star_step: "glob (0x2A # ms) s \<longleftrightarrow> glob ms s \<or> (\<exists>c s'. s = c # s' \<and> glob (0x2A # ms) s')"
proof
  assume "glob (0x2A # ms) s"
  then obtain pre cs where s: "s = pre @ cs" "glob ms cs" by (auto simp: glob_Cons)
  then show "glob ms s \<or> (\<exists>c s'. s = c # s' \<and> glob (0x2A # ms) s')"
    by (cases pre) (auto intro: glob_star)
next
  assume "glob ms s \<or> (\<exists>c s'. s = c # s' \<and> glob (0x2A # ms) s')"
  then show "glob (0x2A # ms) s"
  proof
    assume "glob ms s"
    then show ?thesis using glob_star [of ms s "[]"] by simp
  next
    assume "\<exists>c s'. s = c # s' \<and> glob (0x2A # ms) s'"
    then obtain c pre cs where "s = (c # pre) @ cs" "glob ms cs" by (auto simp: glob_Cons)
    then show ?thesis using glob_star by metis
  qed
qed

declare wildcard_loop.simps(2) [simp del]

lemma wildcard_loop_glob: "wildcard_loop s m \<longleftrightarrow> glob m s"
proof (induction s m rule: wildcard_loop.induct)
  case (1 s)
  then show ?case by (auto simp: glob_Nil)
next
  case (2 s m ms)
  consider (any) "m = 0x3F" | (star) "m = 0x2A" | (char) "m \<noteq> 0x3F" "m \<noteq> 0x2A" by blast
  then show ?case
  proof cases
    case any
    then show ?thesis using 2 by (cases s) (auto simp: glob_Cons wildcard_loop.simps(2))
  next
    case star
    note loop = wildcard_loop.simps(2) [of s m ms]
    show ?thesis
    proof (cases s)
      case Nil
      then show ?thesis using 2(2) star loop glob_star_step [of ms "[]"] by simp
    next
      case (Cons c s')
      then show ?thesis using 2(2,3) star loop glob_star_step [of ms "c # s'"] by simp
    qed
  next
    case char
    then show ?thesis using 2 by (cases s) (auto simp: glob_Cons wildcard_loop.simps(2))
  qed
qed

section \<open>Names\<close>

lemma towlower_idem: "towlower (towlower c) = towlower c"
proof -
  have "\<not> (65 \<le> c + 32 \<and> c + 32 \<le> 90)" if "65 \<le> c" "c \<le> 90"
    using that by (auto simp: word_le_nat_alt unat_word_ariths)
  then show ?thesis by (auto simp: towlower_def)
qed

lemma towlower_backslash: "towlower c = 0x5C \<longleftrightarrow> c = 0x5C"
proof -
  have "c + 32 \<noteq> 0x5C" if "65 \<le> c" "c \<le> 90"
  proof
    assume "c + 32 = 0x5C"
    then have "c = 0x5C - 32" by (simp add: eq_diff_eq)
    then show False using that by simp
  qed
  then show ?thesis by (auto simp: towlower_def)
qed

lemma GenerateNameIndex_lower: "GenerateNameIndex (lower s) = GenerateNameIndex s"
proof -
  have "towlower (if towlower c = 0x5C then 0x2F else towlower c) = towlower (if c = 0x5C then 0x2F else c)" for c
    using towlower_backslash [of c] towlower_idem [of c] by auto
  then show ?thesis by (simp add: GenerateNameIndex_def comp_def)
qed

section \<open>The invariant of a pack\<close>

definition pack_ok :: "CVFSPack \<Rightarrow> bool" where
  "pack_ok pk \<longleftrightarrow> (\<forall>(i, a) \<in> set (m_archives pk). m_vfsFile a \<noteq> None \<and> i < pk_next pk)
     \<and> distinct (map fst (m_archives pk)) \<and> (\<forall>n k. m_archiveKeys pk n = Some k \<longrightarrow> length k = KEY_LENGTH \<and> lower n = n)"

text \<open>A pack and the world, from a new pack through any operations, successful or not.\<close>

inductive pack_run :: "'w win32 \<Rightarrow> CVFSPack \<Rightarrow> 'w \<Rightarrow> bool" for api where
  pr_new: "pack_run api CVFSPack_new w"
| pr_register: "pack_run api pk w \<Longrightarrow> pack_run api (RegisterArchive name path pk) w"
| pr_unregister: "pack_run api pk w \<Longrightarrow> pack_run api (UnregisterArchive order name pk) w"
| pr_key: "pack_run api pk w \<Longrightarrow> SetArchiveKey name key pk = Returns pk' \<Longrightarrow> pack_run api pk' w"
| pr_load: "pack_run api pk w \<Longrightarrow> LoadArchive api memory name pk w = Some (Returns r, pk', w') \<Longrightarrow> pack_run api pk' w'"
| pr_load_all: "pack_run api pk w \<Longrightarrow> LoadRegistiredArchives api schedule memory pk w = Some (Returns r, pk', w')
    \<Longrightarrow> pack_run api pk' w'"
| pr_unload: "pack_run api pk w \<Longrightarrow> pack_run api (UnloadArchive i pk) w"
| pr_world: "pack_run api pk w \<Longrightarrow> pack_run api pk w'"

lemma find_stream_defined:
  "\<forall>(i, a) \<in> set as. m_vfsFile a \<noteq> None \<Longrightarrow> find_stream filename as \<noteq> Undefined
     \<and> (\<forall>i. find_stream filename as = Returns (Some i) \<longrightarrow> i \<in> fst ` set as)"
  by (induction as) (auto simp: CVFSArchive_GetFileStream_def split: if_splits)

lemma Load_true_has_file:
  "CVFSArchive_Load api file key a w = Some (Returns True, a', w') \<Longrightarrow> m_vfsFile a' \<noteq> None"
  by (auto simp: CVFSArchive_Load_def Let_def case_prod_unfold split: option.splits if_splits outcome.splits)
    (metis (full_types) old.unit.exhaust outcome.exhaust)

lemma pack_ok_add:
  assumes "pack_ok pk" "m_vfsFile a = Some f"
  shows "pack_ok (pk\<lparr>m_archives := m_archives pk @ [(pk_next pk, a)], pk_next := Suc (pk_next pk)\<rparr>)"
proof -
  have less: "m_vfsFile x \<noteq> None \<and> i < pk_next pk" if "(i, x) \<in> set (m_archives pk)" for i x
    using assms(1) that by (auto simp: pack_ok_def)
  then have "pk_next pk \<notin> fst ` set (m_archives pk)" by fastforce
  moreover have "\<forall>(i, x) \<in> set (m_archives pk @ [(pk_next pk, a)]). m_vfsFile x \<noteq> None \<and> i < Suc (pk_next pk)"
    using less assms(2) by (auto intro: less_SucI)
  ultimately show ?thesis using assms(1) by (simp add: pack_ok_def)
qed

lemma LoadArchive_ok:
  assumes "pack_ok pk" "LoadArchive api memory name pk w = Some (r, pk', w')"
  shows "pack_ok pk'"
  using assms
  by (auto simp: LoadArchive_def Let_def intro: pack_ok_add dest!: Load_true_has_file
      split: option.splits outcome.splits prod.splits bool.splits)

lemma load_each_ok:
  "pack_ok pk \<Longrightarrow> load_each api memory names pk w = Some (r, pk', w') \<Longrightarrow> pack_ok pk'"
proof (induction names arbitrary: pk w)
  case Nil
  then show ?case by simp
next
  case (Cons n names)
  then show ?case using LoadArchive_ok [OF Cons.prems(1)]
    by (fastforce split: option.splits outcome.splits prod.splits)
qed

lemma pack_run_invariant: "pack_run api pk w \<Longrightarrow> pack_ok pk"
proof (induction rule: pack_run.induct)
  case (pr_unload pk w i)
  have "distinct (map fst (filter P xs))" if "distinct (map fst xs)" for P and xs :: "(nat \<times> CVFSArchive) list"
    using that by (induction xs) auto
  then show ?case using pr_unload by (auto simp: pack_ok_def UnloadArchive_def)
next
  case (pr_key pk w name key pk')
  have "lower (lower name) = lower name" by (simp add: towlower_idem)
  then show ?case using pr_key by (auto simp: pack_ok_def SetArchiveKey_def split: if_splits)
next
  case (pr_load_all pk w schedule memory r pk' w')
  then show ?case using load_each_ok by (simp add: LoadRegistiredArchives_def)
next
  case (pr_load pk w memory name r pk' w')
  show ?case by (rule LoadArchive_ok [OF pr_load.IH pr_load.hyps(2)])
qed (auto simp: pack_ok_def CVFSPack_new_def RegisterArchive_def UnregisterArchive_def Let_def split: option.splits)

section \<open>Loading an archive through the pack\<close>

text \<open>An archive of the pack that holds the contents \<open>M\<close> in a file that can be opened once more for reading.\<close>

definition archive_loaded :: "'w file_view \<Rightarrow> 'w \<Rightarrow> nat \<times> CVFSArchive \<Rightarrow> (u32 \<Rightarrow> byte list option) \<Rightarrow> bool" where
  "archive_loaded v w x M \<longleftrightarrow> (\<exists>path es bs. archive_at v (snd x) w path False es bs M \<and> can_read v w path)"

text \<open>The contents of a pack: of the files with one index the one in the archive that was loaded first.\<close>

primrec first_of :: "('k \<Rightarrow> 'd option) list \<Rightarrow> 'k \<Rightarrow> 'd option" where
  "first_of [] k = None"
| "first_of (M # Ms) k = (case M k of None \<Rightarrow> first_of Ms k | Some d \<Rightarrow> Some d)"

definition unnamed :: "wstring \<Rightarrow> CVFSPack \<Rightarrow> bool" where
  "unnamed n pk \<longleftrightarrow> (\<forall>(i, a) \<in> set (m_archives pk). \<exists>f. m_vfsFile a = Some f \<and> m_fileName f \<noteq> n)"

lemma find_stream_unnamed:
  "\<forall>(i, a) \<in> set as. \<exists>f. m_vfsFile a = Some f \<and> m_fileName f \<noteq> n \<Longrightarrow> find_stream n as = Returns None"
  by (induction as) (auto simp: CVFSArchive_GetFileStream_def CVFSFile_GetFileName_def)

lemma LoadArchive_new:
  assumes api: "win32_files api v" and pk: "unnamed (lower name) pk" "m_archiveKeys pk (lower name) = Some key" "length key = 32"
    and path: "path = GetAbsolutePath api (lower name) w" "can_read v w path"
    and disk: "fv_disk v w path = Some bs" "archive_holds a0 es bs M" "m_archiveKey a0 = key"
  obtains a f w' where "LoadArchive api mem name pk w = Some (Returns (Some (pk_next pk)),
      pk\<lparr>m_archives := m_archives pk @ [(pk_next pk, a)], pk_next := Suc (pk_next pk)\<rparr>, w')"
    "archive_at v a w' path False es bs M" "m_vfsFile a = Some f" "m_fileName f = path" "world_grows v w w'"
proof -
  have c: "c_str path = path" unfolding path(1) by (rule c_str_GetAbsolutePath)
  have key: "m_archiveKey a0 = take 32 key" "32 \<le> length key" using disk(3) pk(3) by simp_all
  have new: "find_stream (lower name) (m_archives pk) = Returns None"
    using pk(1) by (simp add: unnamed_def find_stream_unnamed)
  obtain f w1 a w2 where l: "CVFSFile_Open api path CVFSFile_new w = (True, f, w1)" "m_fileName f = path"
    "CVFSArchive_Load api (Some f) (Some key) (CVFSArchive_new mem) w1 = Some (Returns True, a, w2)"
    "archive_at v a w2 path False es bs M" "m_vfsFile a = Some f" "world_grows v w w2"
    by (rule open_and_load [OF api c path(2) disk(1,2) key])
  have "LoadArchive api mem name pk w = Some (Returns (Some (pk_next pk)),
      pk\<lparr>m_archives := m_archives pk @ [(pk_next pk, a)], pk_next := Suc (pk_next pk)\<rparr>, w2)"
    using l(1,3) pk new by (simp add: LoadArchive_def flip: path(1))
  then show ?thesis using that l by blast
qed

lemma open_in_first:
  assumes p: "platform_ok p v"
  shows "list_all2 (archive_loaded v w) as Ms \<Longrightarrow>
    (case first_of Ms (GenerateNameIndex filename) of
       Some d \<Rightarrow> \<exists>f w'. open_in p (lower filename) as w = (Returns (Some f), w') \<and> memory_at f d 0
     | None \<Rightarrow> open_in p (lower filename) as w = (Returns None, w))"
proof (induction as arbitrary: Ms)
  case (Cons x as)
  obtain i a where x: "x = (i, a)" by (cases x) auto
  obtain M Ms' where Ms: "Ms = M # Ms'" "archive_loaded v w x M" "list_all2 (archive_loaded v w) as Ms'"
    using Cons.prems by (auto simp: list_all2_Cons1)
  obtain path es bs where at: "archive_at v a w path False es bs M" "can_read v w path"
    using Ms(2) x by (auto simp: archive_loaded_def)
  show ?case
  proof (cases "M (GenerateNameIndex filename)")
    case (Some d)
    obtain f' w' where "CVFSArchive_Open p (GenerateNameIndex filename) a w = (Returns (Some f'), w')" "memory_at f' d 0"
      by (rule Open_correct [OF p at(1) Some at(2)])
    then show ?thesis using Some by (simp add: Ms(1) x CVFSArchive_Open_name_def GenerateNameIndex_lower)
  next
    case None
    have holds: "archive_holds a es bs M" using at(1) by (simp add: archive_at_def)
    have "CVFSArchive_Open p (GenerateNameIndex filename) a w = (Returns None, w)"
      by (rule Open_absent [OF _ holds]) (rule None)
    then show ?thesis
      using None Cons.IH [OF Ms(3)]
      by (cases "first_of Ms' (GenerateNameIndex filename)") (simp_all add: Ms(1) x CVFSArchive_Open_name_def GenerateNameIndex_lower)
  qed
qed simp

text \<open>What opening a name through the pack gives: a file of an archive, a file of the disk, or nothing.\<close>

definition opens_as ::
  "'w file_view \<Rightarrow> (u32 \<Rightarrow> byte list option) \<Rightarrow> wstring \<Rightarrow> 'w \<Rightarrow> CVFSFile option \<times> 'w \<Rightarrow> bool" where
  "opens_as v M filename w x \<longleftrightarrow> (case x of (r, w') \<Rightarrow>
     (case M (GenerateNameIndex filename) of
        Some d \<Rightarrow> \<exists>f. r = Some f \<and> memory_at f d 0
      | None \<Rightarrow>
          (case fv_disk v w (c_str (lower filename)) of
             Some bs \<Rightarrow>
               if can_read v w (c_str (lower filename))
               then \<exists>f. r = Some f \<and> file_at v f w' (c_str (lower filename)) False 0 bs else r = None
           | None \<Rightarrow> r = None)))"

lemma CVFSPack_Open_loaded:
  assumes p: "platform_ok p v" and as: "list_all2 (archive_loaded v w) (m_archives pk) Ms"
  shows "\<exists>r w'. CVFSPack_Open p filename pk w = (Returns r, w') \<and> opens_as v (first_of Ms) filename w (r, w')"
proof (cases "first_of Ms (GenerateNameIndex filename)")
  case (Some d)
  then show ?thesis using open_in_first [OF p as, of filename] by (auto simp: CVFSPack_Open_def opens_as_def)
next
  case None
  have api: "win32_files (pl_api p) v" using p by (simp add: platform_ok_def)
  have o: "open_in p (lower filename) (m_archives pk) w = (Returns None, w)"
    using open_in_first [OF p as, of filename] None by simp
  obtain ok f w1 where r: "CVFSFile_Open (pl_api p) (lower filename) CVFSFile_new w = (ok, f, w1)"
    by (cases "CVFSFile_Open (pl_api p) (lower filename) CVFSFile_new w") auto
  let ?w = "if ok then w1 else snd (CVFSFile_Close (pl_api p) f w1)"
  have "CVFSPack_Open p filename pk w = (Returns (if ok then Some f else None), ?w)"
    using o r by (simp add: CVFSPack_Open_def)
  moreover have "opens_as v (first_of Ms) filename w (if ok then Some f else None, ?w)"
    using Open_outcome [OF api, where name = "lower filename" and w = w] r None
    by (auto simp: opens_as_def split: option.split if_splits)
  ultimately show ?thesis by blast
qed

lemma world_grows_read_iff: "world_grows v w w' \<Longrightarrow> can_read v w' path \<longleftrightarrow> can_read v w path"
proof (rule iffI)
  assume g: "world_grows v w w'" "can_read v w' path"
  have "fv_open v w h \<noteq> Some (path, True, pos)" for h pos
    using g unfolding world_grows_def can_read_def share_denied_read by metis
  then have "\<not> share_denied v w path False" by (simp add: share_denied_read)
  then show "can_read v w path" using g by (simp add: world_grows_def can_read_def fv_rest_def)
qed (rule world_grows_read)

lemma opens_as_grows:
  assumes "world_grows v w w'"
  shows "opens_as v M filename w' x = opens_as v M filename w x"
proof -
  have "fv_disk v w' = fv_disk v w" using assms unfolding world_grows_def by blast
  then show ?thesis unfolding opens_as_def world_grows_read_iff [OF assms] by (simp only:)
qed

lemma archive_loaded_grows: "world_grows v w w' \<Longrightarrow> archive_loaded v w x M \<Longrightarrow> archive_loaded v w' x M"
  unfolding archive_loaded_def using world_grows_archive world_grows_read by metis

lemma load_and_open:
  assumes p: "platform_ok p v" and as: "list_all2 (archive_loaded v w) (m_archives pk) Ms"
    and pk: "unnamed (lower name) pk" "m_archiveKeys pk (lower name) = Some key" "length key = 32"
    and path: "path = GetAbsolutePath (pl_api p) (lower name) w" "can_read v w path"
    and disk: "fv_disk v w path = Some bs" "archive_holds a0 es bs M" "m_archiveKey a0 = key"
  shows "\<exists>i pk' w'. LoadArchive (pl_api p) mem name pk w = Some (Returns (Some i), pk', w') \<and> world_grows v w w'
    \<and> list_all2 (archive_loaded v w') (m_archives pk') (Ms @ [M])
    \<and> (\<forall>filename. \<exists>r w''. CVFSPack_Open p filename pk' w' = (Returns r, w'')
        \<and> opens_as v (first_of (Ms @ [M])) filename w (r, w''))"
proof -
  have api: "win32_files (pl_api p) v" using p by (simp add: platform_ok_def)
  obtain a f w' where l: "LoadArchive (pl_api p) mem name pk w = Some (Returns (Some (pk_next pk)),
      pk\<lparr>m_archives := m_archives pk @ [(pk_next pk, a)], pk_next := Suc (pk_next pk)\<rparr>, w')"
    "archive_at v a w' path False es bs M" "world_grows v w w'"
    by (rule LoadArchive_new [OF api pk path disk])
  let ?pk = "pk\<lparr>m_archives := m_archives pk @ [(pk_next pk, a)], pk_next := Suc (pk_next pk)\<rparr>"
  have "archive_loaded v w' (pk_next pk, a) M"
    using l(2) world_grows_read [OF l(3) path(2)] by (auto simp: archive_loaded_def)
  moreover have "list_all2 (archive_loaded v w') (m_archives pk) Ms"
    using as archive_loaded_grows [OF l(3)] by (rule list_all2_mono)
  ultimately have loaded: "list_all2 (archive_loaded v w') (m_archives ?pk) (Ms @ [M])"
    by (simp add: list_all2_appendI)
  have "\<exists>r w''. CVFSPack_Open p filename ?pk w' = (Returns r, w'') \<and> opens_as v (first_of (Ms @ [M])) filename w (r, w'')" for filename
    using CVFSPack_Open_loaded [OF p loaded, of filename] by (simp add: opens_as_grows [OF l(3)])
  then show ?thesis
    by (intro exI [of _ "pk_next pk"] exI [of _ ?pk] exI [of _ w'] conjI allI l(1,3) loaded)
qed

section \<open>Properties\<close>

text \<open>
  C29. \<^verbatim>\<open>WildcardMatch\<close>, which recurses on both strings and always returns, decides the usual meaning of a
  pattern: a question mark is one character, a star is any characters, others are themselves.
\<close>

theorem WildcardMatch_is_glob: "WildcardMatch str match \<longleftrightarrow> glob (c_str match) (c_str str)"
  by (simp add: WildcardMatch_def wildcard_loop_glob)

text \<open>
  C5. Through the pack a program reads what its archives hold: after the key has been set and a further archive loaded,
  under any spelling of its name, opening a file name in any case and with either slash gives a memory file
  with the contents from the first archive, in the order of loading, that has the name; a name that no archive has is
  looked for on the disk. The pack is then again one with loaded archives, so this holds for any number of them.
\<close>

theorem pack_reads_archive:
  assumes "platform_ok p v" "list_all2 (archive_loaded v w) (m_archives pk) Ms" "unnamed (lower name) pk"
    and "SetArchiveKey name key pk = Returns pk1" "lower name' = lower name"
    and "path = GetAbsolutePath (pl_api p) (lower name) w" "can_read v w path"
    and "fv_disk v w path = Some bs" "archive_holds a0 es bs M" "m_archiveKey a0 = take 32 key"
  shows "\<exists>i pk' w'. LoadArchive (pl_api p) mem name' pk1 w = Some (Returns (Some i), pk', w') \<and> world_grows v w w'
    \<and> list_all2 (archive_loaded v w') (m_archives pk') (Ms @ [M])
    \<and> (\<forall>filename. \<exists>r w''. CVFSPack_Open p filename pk' w' = (Returns r, w'')
        \<and> opens_as v (first_of (Ms @ [M])) filename w (r, w''))"
proof -
  have pk1: "m_archives pk1 = m_archives pk" "unnamed (lower name') pk1" "m_archiveKeys pk1 (lower name') = Some (take 32 key)"
    "length (take 32 key) = 32"
    using assms(3-5) by (auto simp: SetArchiveKey_def KEY_LENGTH_def unnamed_def split: if_splits)
  have path: "path = GetAbsolutePath (pl_api p) (lower name') w" by (simp add: assms(5,6))
  have as: "list_all2 (archive_loaded v w) (m_archives pk1) Ms" using assms(2) pk1(1) by simp
  show ?thesis by (rule load_and_open [OF assms(1) as pk1(2-4) path assms(7-10)])
qed

text \<open>
  A pack that has loaded the sample archive loads a second one, on another path, whose file is called "a"; then this
  file is read from the second archive.
\<close>

definition second_entry :: SFileEntry where
  "second_entry = small_entry (GenerateNameIndex [97]) (97 # replicate 254 0)"

definition second_world :: disk_world where
  "second_world = (sample_world False)\<lparr>dw_disk := [[97] \<mapsto> sample_bytes, [98] \<mapsto> small_bytes second_entry]\<rparr>"

theorem pack_reads_archive_witness:
  "\<exists>i pk' w' f w''. LoadArchive disk_api [] [66] (CVFSPack_new\<lparr>m_archives := [(0, sample_archive False)], pk_next := 1,
       m_archiveKeys := [[98] \<mapsto> sample_key]\<rparr>) second_world = Some (Returns (Some i), pk', w')
     \<and> CVFSPack_Open sample_platform [65] pk' w' = (Returns (Some f), w'') \<and> memory_at f [1, 2, 3] 0"
proof -
  let ?pk = "CVFSPack_new\<lparr>m_archives := [(0, sample_archive False)], pk_next := 1\<rparr>"
  let ?i = "GenerateNameIndex [97]"
  have i: "?i \<noteq> 0" "?i \<noteq> 7" "GenerateNameIndex [65] = ?i" by code_simp+
  have p: "pl_api sample_platform = disk_api" by (simp add: sample_platform_def)
  have key: "SetArchiveKey [98] sample_key ?pk = Returns (?pk\<lparr>m_archiveKeys := [[98] \<mapsto> sample_key]\<rparr>)"
    by (simp add: SetArchiveKey_def KEY_LENGTH_def sample_key_def CVFSPack_new_def towlower_def)
  have "archive_at disk_view (sample_archive False) second_world [97] False [sample_entry] sample_bytes [7 \<mapsto> [1, 2, 3]]"
    using sample_holds [of False] by (simp add: archive_at_def)
      (simp add: sample_archive_def sample_file_def second_world_def sample_world_def file_at_def disk_view_def c_str_def)
  moreover have read: "can_read disk_view second_world q" for q
    by (simp add: can_read_def share_denied_read second_world_def sample_world_def disk_view_def)
  ultimately have as: "list_all2 (archive_loaded disk_view second_world) (m_archives ?pk) [[7 \<mapsto> [1, 2, 3]]]"
    by (auto simp: archive_loaded_def)
  have un: "unnamed (lower [98]) ?pk"
    by (simp add: unnamed_def sample_archive_def sample_file_def towlower_def)
  have path: "[98] = GetAbsolutePath (pl_api sample_platform) (lower [98]) second_world"
    by (simp add: GetAbsolutePath_def p disk_api_def c_str_def towlower_def)
  have disk: "fv_disk disk_view second_world [98] = Some (small_bytes second_entry)"
    by (simp add: disk_view_def second_world_def)
  have "archive_holds \<lparr>m_vfsFile = None, m_archiveKey = sample_key, ar_header = sample_header,
      ar_files = [?i \<mapsto> second_entry], ar_entries = []\<rparr> [second_entry] (small_bytes second_entry) [?i \<mapsto> [1, 2, 3]]"
    unfolding second_entry_def by (rule small_holds) (simp_all add: i)
  from pack_reads_archive [OF sample_platform_ok as un key _ path read disk this, of "[66]" "[]"]
  obtain j pk' w' where r: "LoadArchive disk_api [] [66] (?pk\<lparr>m_archiveKeys := [[98] \<mapsto> sample_key]\<rparr>) second_world = Some (Returns (Some j), pk', w')"
    "\<And>filename. \<exists>r w''. CVFSPack_Open sample_platform filename pk' w' = (Returns r, w'')
        \<and> opens_as disk_view (first_of ([[7 \<mapsto> [1, 2, 3]]] @ [[?i \<mapsto> [1, 2, 3]]])) filename second_world (r, w'')"
    by (auto simp: p towlower_def sample_key_def)
  then show ?thesis
    using r(2) [of "[65]"] i by (fastforce simp: opens_as_def)
qed

text \<open>
  C28. Whatever is done with a pack, its archives have their files and distinct identities and its keys have 32
  bytes and lower-case names: \<^verbatim>\<open>FindArchive\<close> never uses a null pointer and gives an archive of the list.
\<close>

theorem pack_run_safe:
  assumes "pack_run api pk w"
  shows "pack_ok pk \<and> FindArchive name pk \<noteq> Undefined
    \<and> (\<forall>i. FindArchive name pk = Returns (Some i) \<longrightarrow> i \<in> fst ` set (m_archives pk))"
proof -
  have ok: "pack_ok pk" by (rule pack_run_invariant [OF assms])
  then have "\<forall>(i, a) \<in> set (m_archives pk). m_vfsFile a \<noteq> None" by (auto simp: pack_ok_def)
  from find_stream_defined [OF this, of "lower name"] show ?thesis using ok by (simp add: FindArchive_def)
qed

theorem pack_run_safe_witness:
  "pack_ok (UnloadArchive 0 (RegisterArchive [65] [42] CVFSPack_new)) \<and> FindArchive [97] (UnloadArchive 0 (RegisterArchive [65] [42] CVFSPack_new)) \<noteq> Undefined"
proof -
  have "pack_run disk_api (UnloadArchive 0 (RegisterArchive [65] [42] CVFSPack_new)) (disk_with [] [])"
    by (rule pr_unload [OF pr_register [OF pr_new]])
  from pack_run_safe [OF this, of "[97]"] show ?thesis by blast
qed

text \<open>
  An archive that has been loaded is found again only if its name is the full path in lower case:
  \<^verbatim>\<open>LoadArchive\<close> and \<^verbatim>\<open>FindArchive\<close> compare the name they are given with the full path of the file. Under any other
  name it is not found.
\<close>

theorem FindArchive_needs_full_path:
  assumes "win32_files api v" "m_archives pk = []" "m_archiveKeys pk (lower name) = Some key" "length key = 32"
    and "path = GetAbsolutePath api (lower name) w" "can_read v w path"
    and "fv_disk v w path = Some bs" "archive_holds a0 es bs M" "m_archiveKey a0 = key"
  shows "\<exists>i pk' w'. LoadArchive api mem name pk w = Some (Returns (Some i), pk', w')
    \<and> (\<forall>other. FindArchive other pk' = Returns (if lower other = path then Some i else None))"
proof -
  have "unnamed (lower name) pk" using assms(2) by (simp add: unnamed_def)
  then obtain a f w' where l: "LoadArchive api mem name pk w = Some (Returns (Some (pk_next pk)),
      pk\<lparr>m_archives := m_archives pk @ [(pk_next pk, a)], pk_next := Suc (pk_next pk)\<rparr>, w')"
    "m_vfsFile a = Some f" "m_fileName f = path"
    using LoadArchive_new [OF assms(1) _ assms(3-9), of mem] by blast
  have "FindArchive other (pk\<lparr>m_archives := m_archives pk @ [(pk_next pk, a)], pk_next := Suc (pk_next pk)\<rparr>)
      = Returns (if lower other = path then Some (pk_next pk) else None)" for other
    using assms(2) by (auto simp: FindArchive_def CVFSArchive_GetFileStream_def CVFSFile_GetFileName_def l(2,3))
  then show ?thesis using l(1) by blast
qed

text \<open>A system whose working directory is on another path than the archive's name.\<close>

definition dir_api :: "disk_world win32" where
  "dir_api = disk_api\<lparr>w_wfullpath := (\<lambda>path w. if 0 \<in> set path then None
     else if take 2 path = [67, 58] then Some path else Some ([67, 58, 47] @ path))\<rparr>"

lemma dir_api_files: "win32_files dir_api disk_view"
proof -
  have path: "law_path dir_api" by (auto simp: law_path_def dir_api_def)
  have same: "law_create dir_api v = law_create disk_api v" "law_close dir_api v = law_close disk_api v"
    "law_read dir_api v = law_read disk_api v" "law_write dir_api v = law_write disk_api v"
    "law_seek dir_api v = law_seek disk_api v" "law_size dir_api v = law_size disk_api v"
    "law_map dir_api v = law_map disk_api v" "law_mapping dir_api v = law_mapping disk_api v"
    "law_view dir_api v = law_view disk_api v" "law_unmap dir_api v = law_unmap disk_api v" for v
    by (simp_all add: law_create_def law_close_def law_read_def law_write_def law_seek_def law_size_def law_map_def
        law_mapping_def law_view_def law_unmap_def dir_api_def del: split_paired_All split_paired_Ex cong: if_cong)
  have mem: "law_memory dir_api = law_memory disk_api" by (simp add: law_memory_def fun_eq_iff dir_api_def)
  have "w_page_size dir_api = w_page_size disk_api" "w_allocation_granularity dir_api = w_allocation_granularity disk_api"
    by (simp_all add: dir_api_def)
  then show ?thesis using disk_api_files path by (simp add: win32_files_def same mem)
qed

theorem FindArchive_needs_full_path_witness:
  "\<exists>i pk' w'. LoadArchive dir_api [] [97] (CVFSPack_new\<lparr>m_archiveKeys := [[97] \<mapsto> sample_key]\<rparr>) (disk_with [67, 58, 47, 97] sample_bytes)
     = Some (Returns (Some i), pk', w') \<and> FindArchive [97] pk' = Returns None"
proof -
  let ?pk = "CVFSPack_new\<lparr>m_archiveKeys := [[97] \<mapsto> sample_key]\<rparr>"
  let ?w = "disk_with [67, 58, 47, 97] sample_bytes"
  have path: "[67, 58, 47, 97] = GetAbsolutePath dir_api (lower [97]) ?w"
    by (simp add: GetAbsolutePath_def dir_api_def c_str_def towlower_def)
  have pk: "m_archives ?pk = []" "m_archiveKeys ?pk (lower [97]) = Some sample_key"
    by (simp_all add: CVFSPack_new_def towlower_def)
  have len: "length sample_key = 32" by (simp add: sample_key_def)
  have closed: "can_read disk_view ?w [67, 58, 47, 97]"
    by (simp add: can_read_def share_denied_read disk_view_def disk_with_def)
  have disk: "fv_disk disk_view ?w [67, 58, 47, 97] = Some sample_bytes" by (simp add: disk_view_def disk_with_def)
  have key: "m_archiveKey (sample_archive True) = sample_key" by (simp add: sample_archive_def)
  obtain i pk' w' where r: "LoadArchive dir_api [] [97] ?pk ?w = Some (Returns (Some i), pk', w')"
    "\<And>other. FindArchive other pk' = Returns (if lower other = [67, 58, 47, 97] then Some i else None)"
    using FindArchive_needs_full_path [OF dir_api_files pk len path closed disk sample_holds key, of "[]"] by blast
  from r(2) [of "[97]"] have "FindArchive [97] pk' = Returns None" by (simp add: towlower_def)
  with r(1) show ?thesis by blast
qed

end
