(* ===== verification/Std_String.thy ===== *)
theory Std_String
  imports Prelude
begin

text \<open>
  What the programs use of the string class of the standard library: searching, splitting at a separator and
  replacing, as \<^verbatim>\<open>VFSLib/src/VFSPropertyManager.cpp\<close> and \<^verbatim>\<open>VFSArchiver/src/main.cpp\<close> write them, with their
  specifications. The loops of the property manager do not end for an empty separator or pattern: then their
  value is \<open>None\<close>.
\<close>

section \<open>Searching\<close>

text \<open>\<^verbatim>\<open>std::basic_string::find\<close>: the first occurrence at or behind a position; no result is \<^verbatim>\<open>npos\<close>.\<close>

function str_find :: "'a list \<Rightarrow> 'a list \<Rightarrow> nat \<Rightarrow> nat option" where
  "str_find str tok pos =
     (if length str < pos + length tok then None
      else if take (length tok) (drop pos str) = tok then Some pos
      else str_find str tok (Suc pos))"
  by pat_completeness auto
termination
  by (relation "measure (\<lambda>(str, tok, pos). Suc (length str) - pos)") auto

declare str_find.simps [simp del]

definition occurs_at :: "'a list \<Rightarrow> 'a list \<Rightarrow> nat \<Rightarrow> bool" where
  "occurs_at str tok p \<longleftrightarrow> p + length tok \<le> length str \<and> take (length tok) (drop p str) = tok"

lemma str_find_result:
  "case str_find str tok pos of
     None \<Rightarrow> \<forall>p\<ge>pos. \<not> occurs_at str tok p
   | Some p \<Rightarrow> pos \<le> p \<and> occurs_at str tok p \<and> (\<forall>q. pos \<le> q \<and> q < p \<longrightarrow> \<not> occurs_at str tok q)"
proof (induction str tok pos rule: str_find.induct)
  case (1 str tok pos)
  consider (short) "length str < pos + length tok"
    | (here) "\<not> length str < pos + length tok" "take (length tok) (drop pos str) = tok"
    | (later) "\<not> length str < pos + length tok" "take (length tok) (drop pos str) \<noteq> tok" by blast
  then show ?case
  proof cases
    case later
    then have "\<not> occurs_at str tok pos" by (simp add: occurs_at_def)
    moreover have "str_find str tok pos = str_find str tok (Suc pos)"
      using later by (subst str_find.simps) simp
    ultimately show ?thesis
      using 1 [OF later] by (auto split: option.splits) (metis Suc_leI le_neq_implies_less)+
  qed (auto simp: str_find.simps [of str tok pos] occurs_at_def)
qed

lemma str_find_None: "str_find str tok pos = None \<longleftrightarrow> (\<forall>p\<ge>pos. \<not> occurs_at str tok p)"
  using str_find_result [where str = str and tok = tok and pos = pos] by (auto split: option.splits)

lemma str_find_Some:
  assumes "str_find str tok pos = Some p"
  shows "pos \<le> p" "p + length tok \<le> length str" "take (length tok) (drop p str) = tok"
    "pos \<le> q \<Longrightarrow> q < p \<Longrightarrow> \<not> occurs_at str tok q"
  using str_find_result [where str = str and tok = tok and pos = pos] assms by (auto simp: occurs_at_def)

section \<open>Splitting\<close>

partial_function (option) split_loop :: "'a list \<Rightarrow> 'a list \<Rightarrow> nat \<Rightarrow> nat option \<Rightarrow> 'a list list \<Rightarrow> 'a list list option" where
  "split_loop str tok prev cur output =
     (case cur of
        None \<Rightarrow> Some (output @ [drop prev str])
      | Some cur \<Rightarrow>
          split_loop str tok (cur + length tok) (str_find str tok (cur + length tok))
            (output @ [take (cur - prev) (drop prev str)]))"

declare split_loop.simps [code]

definition SplitString :: "'a list \<Rightarrow> 'a list \<Rightarrow> 'a list list option" where
  "SplitString str tok = split_loop str tok 0 (str_find str tok 0) []"

text \<open>The pieces with the separator between them.\<close>

fun joined :: "'a list \<Rightarrow> 'a list list \<Rightarrow> 'a list" where
  "joined tok [] = []"
| "joined tok [p] = p"
| "joined tok (p # q # ps) = p @ tok @ joined tok (q # ps)"

lemma joined_Cons: "ps \<noteq> [] \<Longrightarrow> joined tok (p # ps) = p @ tok @ joined tok ps"
  by (cases ps) simp_all

lemma occurs_in_piece:
  assumes "occurs_at (take n (drop prev str)) tok p" "prev + n \<le> length str"
  shows "occurs_at str tok (prev + p)" "p + length tok \<le> n"
proof -
  have p: "p + length tok \<le> n" "take (length tok) (drop p (take n (drop prev str))) = tok"
    using assms by (auto simp: occurs_at_def)
  then have "take (length tok) (drop (prev + p) str) = tok"
    by (simp add: drop_take min_def add.commute split: if_splits)
  then show "occurs_at str tok (prev + p)" "p + length tok \<le> n" using p(1) assms(2) by (auto simp: occurs_at_def)
qed

lemma piece_without_token:
  assumes "str_find str tok prev = Some cur" "tok \<noteq> []"
  shows "str_find (take (cur - prev) (drop prev str)) tok 0 = None"
proof -
  note found = str_find_Some [OF assms(1)]
  have "\<not> occurs_at (take (cur - prev) (drop prev str)) tok p" for p
  proof
    assume "occurs_at (take (cur - prev) (drop prev str)) tok p"
    then have "occurs_at str tok (prev + p)" "p + length tok \<le> cur - prev"
      by (rule occurs_in_piece, use found(1,2) in simp)+
    moreover from this have "prev + p < cur" using assms(2) by (cases tok) auto
    ultimately show False using found(4) [of "prev + p"] by simp
  qed
  then show ?thesis by (simp add: str_find_None)
qed

lemma split_loop_result:
  assumes "tok \<noteq> []" "prev \<le> length str"
  shows "\<exists>ps. split_loop str tok prev (str_find str tok prev) out = Some (out @ ps) \<and> ps \<noteq> []
    \<and> joined tok ps = drop prev str \<and> (\<forall>p\<in>set ps. str_find p tok 0 = None)"
  using assms(2)
proof (induction "length str - prev" arbitrary: prev out rule: less_induct)
  case less
  show ?case
  proof (cases "str_find str tok prev")
    case None
    have "str_find (drop prev str) tok 0 = None"
      using None less.prems occurs_in_piece(1) [of "length str - prev" prev str tok]
      by (auto simp: str_find_None)
    then show ?thesis using None by (simp add: split_loop.simps)
  next
    case (Some cur)
    note found = str_find_Some [OF Some]
    let ?p = "take (cur - prev) (drop prev str)" and ?prev = "cur + length tok"
    have "length str - ?prev < length str - prev" "?prev \<le> length str" using found(1,2) assms(1) by (cases tok; simp)+
    then obtain ps where ps: "split_loop str tok ?prev (str_find str tok ?prev) (out @ [?p]) = Some ((out @ [?p]) @ ps)"
      "ps \<noteq> []" "joined tok ps = drop ?prev str" "\<forall>p\<in>set ps. str_find p tok 0 = None"
      using less.hyps by blast
    have "drop prev str = ?p @ drop cur str"
      using found(1) append_take_drop_id [of "cur - prev" "drop prev str"] by simp
    moreover have "drop cur str = tok @ drop ?prev str"
      using found(3) append_take_drop_id [of "length tok" "drop cur str"] by (simp add: add.commute)
    ultimately have "joined tok (?p # ps) = drop prev str" using ps(2,3) by (simp add: joined_Cons)
    moreover have "split_loop str tok prev (str_find str tok prev) out = Some (out @ (?p # ps))"
      using Some ps(1) by (simp add: split_loop.simps [of str tok prev])
    moreover have "\<forall>p\<in>set (?p # ps). str_find p tok 0 = None"
      using ps(4) piece_without_token [OF Some assms(1)] by simp
    ultimately show ?thesis by blast
  qed
qed

text \<open>Splitting ends, loses nothing and leaves no separator in a piece.\<close>

lemma SplitString_result:
  assumes "tok \<noteq> []"
  obtains ps where "SplitString str tok = Some ps" "ps \<noteq> []" "joined tok ps = str" "\<forall>p\<in>set ps. str_find p tok 0 = None"
  using split_loop_result [OF assms, of 0 str "[]"] that by (auto simp: SplitString_def)

section \<open>Replacing\<close>

partial_function (option) replace_loop :: "'a list \<Rightarrow> 'a list \<Rightarrow> nat \<Rightarrow> 'a list \<Rightarrow> 'a list option" where
  "replace_loop from to pos output =
     (case str_find output from pos of
        None \<Rightarrow> Some output
      | Some pos \<Rightarrow> replace_loop from to (pos + length to) (take pos output @ to @ drop (pos + length from) output))"

declare replace_loop.simps [code]

definition ReplaceString :: "'a list \<Rightarrow> 'a list \<Rightarrow> 'a list \<Rightarrow> 'a list option" where
  "ReplaceString str from to = replace_loop from to 0 str"

text \<open>Removing a single character, the only use there is.\<close>

lemma occurs_one: "occurs_at str [q] p \<longleftrightarrow> p < length str \<and> str ! p = q"
  by (auto simp: occurs_at_def take_Suc hd_drop_conv_nth)

lemma replace_loop_remove:
  "pos \<le> length out \<Longrightarrow> replace_loop [q] [] pos out = Some (take pos out @ filter (\<lambda>c. c \<noteq> q) (drop pos out))"
proof (induction "length out - pos" arbitrary: pos out rule: less_induct)
  case less
  show ?case
  proof (cases "str_find out [q] pos")
    case None
    then have none: "out ! i \<noteq> q" if "pos \<le> i" "i < length out" for i
      using that by (simp add: str_find_None occurs_one)
    have "\<forall>c\<in>set (drop pos out). c \<noteq> q"
    proof
      fix c assume "c \<in> set (drop pos out)"
      then obtain i where "i < length out - pos" "c = out ! (pos + i)" by (auto simp: in_set_conv_nth)
      then show "c \<noteq> q" using none [of "pos + i"] by simp
    qed
    then have "filter (\<lambda>c. c \<noteq> q) (drop pos out) = drop pos out" by simp
    then show ?thesis using None by (simp add: replace_loop.simps)
  next
    case (Some p)
    have p: "pos \<le> p" "p < length out" "out ! p = q" "\<And>i. pos \<le> i \<Longrightarrow> i < p \<Longrightarrow> out ! i \<noteq> q"
      using str_find_Some [OF Some] str_find_result [where str = out and tok = "[q]" and pos = pos] Some
      by (auto simp: occurs_one)
    let ?out = "take p out @ drop (Suc p) out"
    have "length ?out - p < length out - pos" "p \<le> length ?out" using p(1,2) by auto
    then have IH: "replace_loop [q] [] p ?out = Some (take p ?out @ filter (\<lambda>c. c \<noteq> q) (drop p ?out))"
      using less.hyps by blast
    have "drop p out = q # drop (Suc p) out" using p(2,3) Cons_nth_drop_Suc [of p out] by simp
    then have out: "drop pos out = take (p - pos) (drop pos out) @ q # drop (Suc p) out"
      using append_take_drop_id [of "p - pos" "drop pos out"] p(1) by simp
    have "\<forall>c\<in>set (take (p - pos) (drop pos out)). c \<noteq> q"
    proof
      fix c assume "c \<in> set (take (p - pos) (drop pos out))"
      then obtain i where "i < p - pos" "c = out ! (pos + i)" using p(2) by (auto simp: in_set_conv_nth)
      then show "c \<noteq> q" using p(4) [of "pos + i"] by simp
    qed
    then have "filter (\<lambda>c. c \<noteq> q) (drop pos out) = take (p - pos) (drop pos out) @ filter (\<lambda>c. c \<noteq> q) (drop (Suc p) out)"
      by (subst out) simp
    moreover have "take p out = take pos out @ take (p - pos) (drop pos out)"
      using p(1) take_add [of pos "p - pos" out] by simp
    moreover have "replace_loop [q] [] pos out = replace_loop [q] [] p ?out"
      using Some by (simp add: replace_loop.simps [of "[q]" "[]" pos out])
    moreover have "take p ?out = take p out" "drop p ?out = drop (Suc p) out" using p(2) by simp_all
    ultimately show ?thesis using IH by (simp only: append_assoc)
  qed
qed

lemma ReplaceString_remove: "ReplaceString str [q] [] = Some (filter (\<lambda>c. c \<noteq> q) str)"
  by (simp add: ReplaceString_def replace_loop_remove)

section \<open>Narrow strings\<close>

text \<open>String literals of the sources, and what a C function sees of a narrow string.\<close>

definition ascii :: "string \<Rightarrow> bstring" where
  "ascii s = map of_char s"

definition c_bytes :: "bstring \<Rightarrow> bstring" where
  "c_bytes s = takeWhile (\<lambda>c. c \<noteq> 0) s"

lemma c_bytes_id: "0 \<notin> set s \<Longrightarrow> c_bytes s = s"
  unfolding c_bytes_def by (rule takeWhile_eq_all_conv [THEN iffD2]) auto

lemma c_bytes_no_zero: "0 \<notin> set (c_bytes s)"
  by (auto simp: c_bytes_def dest: set_takeWhileD)

end
