(* ===== verification/Json_Lexer.thy ===== *)
theory Json_Lexer
  imports Prelude
begin

text \<open>
  The lexer of \<^verbatim>\<open>VFSLib/include/json.hpp\<close>, which reads the configuration of the archiver. The input is the list
  of the bytes that are left; \<^verbatim>\<open>get\<close> takes the first one, at the end of the list it returns EOF, and \<^verbatim>\<open>unget\<close> leaves the
  character where it is. A token carries its value. The texts of the error messages and the positions in them are
  not modelled. The locale is C; \<^verbatim>\<open>double\<close> is the binary format of 64 bits, and \<^verbatim>\<open>strtod\<close> rounds to the nearest value.
\<close>

datatype token_type =
  literal_true | literal_false | literal_null | value_string bstring
  | value_unsigned u64 | value_integer u64 | value_float bool
  | begin_array | begin_object | end_array | end_object | name_separator | value_separator
  | parse_error | end_of_input

section \<open>Strings\<close>

definition hex_digit :: "byte \<Rightarrow> nat option" where
  "hex_digit c =
     (if 0x30 \<le> c \<and> c \<le> 0x39 then Some (unat c - 0x30)
      else if 0x41 \<le> c \<and> c \<le> 0x46 then Some (unat c - 0x37)
      else if 0x61 \<le> c \<and> c \<le> 0x66 then Some (unat c - 0x57)
      else None)"

fun codepoint_loop :: "nat list \<Rightarrow> nat \<Rightarrow> bstring \<Rightarrow> (nat \<times> bstring) option" where
  "codepoint_loop [] codepoint inp = Some (codepoint, inp)"
| "codepoint_loop (factor # factors) codepoint [] = None"
| "codepoint_loop (factor # factors) codepoint (current # inp) =
     (case hex_digit current of
        None \<Rightarrow> None
      | Some d \<Rightarrow> codepoint_loop factors (codepoint + push_bit factor d) inp)"

definition get_codepoint :: "bstring \<Rightarrow> (nat \<times> bstring) option" where
  "get_codepoint inp = codepoint_loop [12, 8, 4, 0] 0 inp"

text \<open>The code point as bytes.\<close>

definition codepoint_bytes :: "nat \<Rightarrow> bstring" where
  "codepoint_bytes codepoint =
     (if codepoint < 0x80 then [of_nat codepoint]
      else if codepoint \<le> 0x7FF
      then [0xC0 OR of_nat (drop_bit 6 codepoint), 0x80 OR (of_nat codepoint AND 0x3F)]
      else if codepoint \<le> 0xFFFF
      then [0xE0 OR of_nat (drop_bit 12 codepoint), 0x80 OR (of_nat (drop_bit 6 codepoint) AND 0x3F),
            0x80 OR (of_nat codepoint AND 0x3F)]
      else [0xF0 OR of_nat (drop_bit 18 codepoint), 0x80 OR (of_nat (drop_bit 12 codepoint) AND 0x3F),
            0x80 OR (of_nat (drop_bit 6 codepoint) AND 0x3F), 0x80 OR (of_nat codepoint AND 0x3F)])"

definition unicode_escape :: "bstring \<Rightarrow> (bstring \<times> bstring) option" where
  "unicode_escape inp =
     (case get_codepoint inp of
        None \<Rightarrow> None
      | Some (codepoint1, inp) \<Rightarrow>
          if 0xD800 \<le> codepoint1 \<and> codepoint1 \<le> 0xDBFF
          then (case inp of
                  c1 # c2 # inp \<Rightarrow>
                    if c1 = 0x5C \<and> c2 = 0x75
                    then (case get_codepoint inp of
                            None \<Rightarrow> None
                          | Some (codepoint2, inp) \<Rightarrow>
                              if 0xDC00 \<le> codepoint2 \<and> codepoint2 \<le> 0xDFFF
                              then Some (codepoint_bytes (push_bit 10 codepoint1 + codepoint2 - 0x35FDC00), inp)
                              else None)
                    else None
                | _ \<Rightarrow> None)
          else if 0xDC00 \<le> codepoint1 \<and> codepoint1 \<le> 0xDFFF then None
          else Some (codepoint_bytes codepoint1, inp))"

text \<open>What stands for itself after a backslash, and the letters.\<close>

definition escape_char :: "byte \<Rightarrow> byte option" where
  "escape_char c =
     (if c = 0x22 \<or> c = 0x5C \<or> c = 0x2F then Some c
      else if c = 0x62 then Some 0x08
      else if c = 0x66 then Some 0x0C
      else if c = 0x6E then Some 0x0A
      else if c = 0x72 then Some 0x0D
      else if c = 0x74 then Some 0x09
      else None)"

definition scan_escape :: "bstring \<Rightarrow> (bstring \<times> bstring) option" where
  "scan_escape inp =
     (case inp of
        [] \<Rightarrow> None
      | c # inp \<Rightarrow>
          if c = 0x75 then unicode_escape inp
          else (case escape_char c of None \<Rightarrow> None | Some b \<Rightarrow> Some ([b], inp)))"

text \<open>The ranges of the bytes that follow a first byte, \<open>None\<close> for a control character or an ill-formed byte.\<close>

definition byte_ranges :: "byte \<Rightarrow> (byte \<times> byte) list option" where
  "byte_ranges c =
     (if c < 0x20 then None
      else if c < 0x80 then Some []
      else if 0xC2 \<le> c \<and> c \<le> 0xDF then Some [(0x80, 0xBF)]
      else if c = 0xE0 then Some [(0xA0, 0xBF), (0x80, 0xBF)]
      else if 0xE1 \<le> c \<and> c \<le> 0xEC \<or> c = 0xEE \<or> c = 0xEF then Some [(0x80, 0xBF), (0x80, 0xBF)]
      else if c = 0xED then Some [(0x80, 0x9F), (0x80, 0xBF)]
      else if c = 0xF0 then Some [(0x90, 0xBF), (0x80, 0xBF), (0x80, 0xBF)]
      else if 0xF1 \<le> c \<and> c \<le> 0xF3 then Some [(0x80, 0xBF), (0x80, 0xBF), (0x80, 0xBF)]
      else if c = 0xF4 then Some [(0x80, 0x8F), (0x80, 0xBF), (0x80, 0xBF)]
      else None)"

fun ranges_loop :: "(byte \<times> byte) list \<Rightarrow> bstring \<Rightarrow> bstring \<Rightarrow> (bstring \<times> bstring) option" where
  "ranges_loop [] token_buffer inp = Some (token_buffer, inp)"
| "ranges_loop ((lo, hi) # ranges) token_buffer [] = None"
| "ranges_loop ((lo, hi) # ranges) token_buffer (current # inp) =
     (if lo \<le> current \<and> current \<le> hi then ranges_loop ranges (token_buffer @ [current]) inp else None)"

definition next_byte_in_range :: "(byte \<times> byte) list \<Rightarrow> byte \<Rightarrow> bstring \<Rightarrow> bstring \<Rightarrow> (bstring \<times> bstring) option" where
  "next_byte_in_range ranges current token_buffer inp = ranges_loop ranges (token_buffer @ [current]) inp"

lemma codepoint_loop_length: "codepoint_loop fs cp inp = Some (cp', inp') \<Longrightarrow> length inp' \<le> length inp"
  by (induction fs cp inp rule: codepoint_loop.induct) (fastforce split: option.splits)+

lemma scan_escape_length: "scan_escape inp = Some (bs, inp') \<Longrightarrow> length inp' \<le> length inp"
  by (auto simp: scan_escape_def unicode_escape_def get_codepoint_def dest!: codepoint_loop_length
      split: list.splits option.splits prod.splits if_splits)

lemma ranges_loop_length: "ranges_loop rs buf inp = Some (buf', inp') \<Longrightarrow> length inp' \<le> length inp"
  by (induction rs buf inp rule: ranges_loop.induct) (fastforce split: if_splits)+

text \<open>From behind the opening quote: the string and what is left.\<close>

function scan_string :: "bstring \<Rightarrow> bstring \<Rightarrow> (bstring \<times> bstring) option" where
  "scan_string token_buffer [] = None"
| "scan_string token_buffer (c # inp) =
     (if c = 0x22 then Some (token_buffer, inp)
      else if c = 0x5C
      then (case scan_escape inp of
              None \<Rightarrow> None
            | Some (bs, inp) \<Rightarrow> scan_string (token_buffer @ bs) inp)
      else (case byte_ranges c of
              None \<Rightarrow> None
            | Some ranges \<Rightarrow>
                (case next_byte_in_range ranges c token_buffer inp of
                   None \<Rightarrow> None
                 | Some (token_buffer, inp) \<Rightarrow> scan_string token_buffer inp)))"
  by pat_completeness auto
termination
  by (relation "measure (\<lambda>(buf, inp). length inp)")
    (auto simp: next_byte_in_range_def dest!: scan_escape_length ranges_loop_length)

section \<open>Numbers\<close>

text \<open>The labels of \<^verbatim>\<open>scan_number\<close>, and where its switches go.\<close>

datatype number_state =
  scan_number_minus | scan_number_zero | scan_number_any1 | scan_number_decimal1 | scan_number_decimal2
  | scan_number_exponent | scan_number_sign | scan_number_any2

datatype number_move = goto number_state | scan_number_done | scan_number_error

definition is_digit :: "byte \<Rightarrow> bool" where
  "is_digit c \<longleftrightarrow> 0x30 \<le> c \<and> c \<le> 0x39"

fun number_default :: "number_state \<Rightarrow> number_move" where
  "number_default scan_number_minus = scan_number_error"
| "number_default scan_number_decimal1 = scan_number_error"
| "number_default scan_number_exponent = scan_number_error"
| "number_default scan_number_sign = scan_number_error"
| "number_default _ = scan_number_done"

fun number_step :: "number_state \<Rightarrow> byte \<Rightarrow> number_move" where
  "number_step scan_number_minus c =
     (if c = 0x30 then goto scan_number_zero else if is_digit c then goto scan_number_any1
      else number_default scan_number_minus)"
| "number_step scan_number_zero c =
     (if c = 0x2E then goto scan_number_decimal1 else if c = 0x65 \<or> c = 0x45 then goto scan_number_exponent
      else number_default scan_number_zero)"
| "number_step scan_number_any1 c =
     (if is_digit c then goto scan_number_any1 else if c = 0x2E then goto scan_number_decimal1
      else if c = 0x65 \<or> c = 0x45 then goto scan_number_exponent else number_default scan_number_any1)"
| "number_step scan_number_decimal1 c =
     (if is_digit c then goto scan_number_decimal2 else number_default scan_number_decimal1)"
| "number_step scan_number_decimal2 c =
     (if is_digit c then goto scan_number_decimal2 else if c = 0x65 \<or> c = 0x45 then goto scan_number_exponent
      else number_default scan_number_decimal2)"
| "number_step scan_number_exponent c =
     (if c = 0x2B \<or> c = 0x2D then goto scan_number_sign else if is_digit c then goto scan_number_any2
      else number_default scan_number_exponent)"
| "number_step scan_number_sign c =
     (if is_digit c then goto scan_number_any2 else number_default scan_number_sign)"
| "number_step scan_number_any2 c =
     (if is_digit c then goto scan_number_any2 else number_default scan_number_any2)"

datatype number_type = num_unsigned | num_integer | num_float

text \<open>What a label does to the type.\<close>

fun number_label :: "number_state \<Rightarrow> number_type \<Rightarrow> number_type" where
  "number_label scan_number_minus t = num_integer"
| "number_label scan_number_decimal1 t = num_float"
| "number_label scan_number_exponent t = num_float"
| "number_label _ t = t"

fun number_loop :: "number_state \<Rightarrow> number_type \<Rightarrow> bstring \<Rightarrow> bstring \<Rightarrow> (number_type \<times> bstring \<times> bstring) option" where
  "number_loop s t token_buffer [] =
     (if number_default s = scan_number_done then Some (number_label s t, token_buffer, []) else None)"
| "number_loop s t token_buffer (c # inp) =
     (case number_step s c of
        goto s' \<Rightarrow> number_loop s' (number_label s t) (token_buffer @ [c]) inp
      | scan_number_done \<Rightarrow> Some (number_label s t, token_buffer, c # inp)
      | scan_number_error \<Rightarrow> None)"

definition digits_value :: "bstring \<Rightarrow> nat" where
  "digits_value ds = foldl (\<lambda>n c. 10 * n + (unat c - 0x30)) 0 ds"

text \<open>
  Whether \<^verbatim>\<open>strtod\<close> returns a finite value for a text of the form that the state machine accepts: a decimal number from
  \<^verbatim>\<open>DBL_MAX\<close> plus half a unit in the last place on rounds to infinity.
\<close>

definition strtod_finite :: "bstring \<Rightarrow> bool" where
  "strtod_finite s =
     (let u = (if s \<noteq> [] \<and> hd s = 0x2D then tl s else s);
          mantissa = takeWhile (\<lambda>c. c \<noteq> 0x65 \<and> c \<noteq> 0x45) u;
          ex = tl (dropWhile (\<lambda>c. c \<noteq> 0x65 \<and> c \<noteq> 0x45) u);
          whole = takeWhile (\<lambda>c. c \<noteq> 0x2E) mantissa;
          fraction = tl (dropWhile (\<lambda>c. c \<noteq> 0x2E) mantissa);
          m = digits_value (whole @ fraction);
          e = (if ex = [] then 0
               else if hd ex = 0x2D then - int (digits_value (tl ex))
               else if hd ex = 0x2B then int (digits_value (tl ex))
               else int (digits_value ex)) - int (length fraction)
      in if e \<ge> 0 then m * 10 ^ nat e < 2 ^ 1024 - 2 ^ 970 else m < (2 ^ 1024 - 2 ^ 970) * 10 ^ nat (- e))"

text \<open>The conversion: what does not fit into 64 bits becomes a floating-point number.\<close>

definition number_token :: "number_type \<Rightarrow> bstring \<Rightarrow> token_type" where
  "number_token t token_buffer =
     (if t = num_unsigned \<and> digits_value token_buffer < 2 ^ 64 then value_unsigned (of_nat (digits_value token_buffer))
      else if t = num_integer \<and> digits_value (tl token_buffer) \<le> 2 ^ 63
      then value_integer (- of_nat (digits_value (tl token_buffer)))
      else value_float (strtod_finite token_buffer))"

definition scan_number :: "byte \<Rightarrow> bstring \<Rightarrow> token_type \<times> bstring" where
  "scan_number current inp =
     (case number_loop (if current = 0x2D then scan_number_minus
                        else if current = 0x30 then scan_number_zero else scan_number_any1)
             num_unsigned [current] inp of
        None \<Rightarrow> (parse_error, inp)
      | Some (t, token_buffer, inp) \<Rightarrow> (number_token t token_buffer, inp))"

section \<open>Tokens\<close>

text \<open>The rest of a literal behind its first character.\<close>

fun scan_literal :: "bstring \<Rightarrow> token_type \<Rightarrow> bstring \<Rightarrow> token_type \<times> bstring" where
  "scan_literal [] return_type inp = (return_type, inp)"
| "scan_literal (c # literal_text) return_type [] = (parse_error, [])"
| "scan_literal (c # literal_text) return_type (current # inp) =
     (if current \<noteq> c then (parse_error, inp) else scan_literal literal_text return_type inp)"

definition is_space :: "byte \<Rightarrow> bool" where
  "is_space c \<longleftrightarrow> c = 0x20 \<or> c = 0x09 \<or> c = 0x0A \<or> c = 0x0D"

definition scan :: "bstring \<Rightarrow> token_type \<times> bstring" where
  "scan inp =
     (case dropWhile is_space inp of
        [] \<Rightarrow> (end_of_input, [])
      | c # inp \<Rightarrow>
          if c = 0x5B then (begin_array, inp)
          else if c = 0x5D then (end_array, inp)
          else if c = 0x7B then (begin_object, inp)
          else if c = 0x7D then (end_object, inp)
          else if c = 0x3A then (name_separator, inp)
          else if c = 0x2C then (value_separator, inp)
          else if c = 0x74 then scan_literal [0x72, 0x75, 0x65] literal_true inp
          else if c = 0x66 then scan_literal [0x61, 0x6C, 0x73, 0x65] literal_false inp
          else if c = 0x6E then scan_literal [0x75, 0x6C, 0x6C] literal_null inp
          else if c = 0x22
          then (case scan_string [] inp of None \<Rightarrow> (parse_error, inp) | Some (s, inp) \<Rightarrow> (value_string s, inp))
          else if c = 0x2D \<or> is_digit c then scan_number c inp
          else if c = 0 then (end_of_input, inp)
          else (parse_error, inp))"

text \<open>Before the first token: \<open>None\<close> for a byte order mark that is not complete.\<close>

definition skip_bom :: "bstring \<Rightarrow> bstring option" where
  "skip_bom inp =
     (case inp of
        [] \<Rightarrow> Some []
      | c # rest \<Rightarrow>
          if c = 0xEF then (if take 2 rest = [0xBB, 0xBF] then Some (drop 2 rest) else None) else Some inp)"

definition first_token :: "bstring \<Rightarrow> token_type \<times> bstring" where
  "first_token inp = (case skip_bom inp of None \<Rightarrow> (parse_error, inp) | Some inp \<Rightarrow> scan inp)"

section \<open>Every token takes something\<close>

lemma scan_string_length: "scan_string buf inp = Some (s, inp') \<Longrightarrow> length inp' < length inp"
proof (induction buf inp rule: scan_string.induct)
  case (2 buf c inp)
  show ?case
    using 2 by (fastforce simp: next_byte_in_range_def dest!: scan_escape_length ranges_loop_length
        split: if_splits option.splits prod.splits)
qed simp

lemma number_loop_length: "number_loop s t buf inp = Some (t', buf', inp') \<Longrightarrow> length inp' \<le> length inp"
  by (induction s t buf inp rule: number_loop.induct) (fastforce split: number_move.splits if_splits)+

lemma scan_literal_length: "scan_literal cs t inp = (t', inp') \<Longrightarrow> length inp' \<le> length inp"
  by (induction cs t inp rule: scan_literal.induct) (fastforce split: if_splits)+

lemma scan_length:
  assumes "scan inp = (t, inp')"
  shows "length inp' \<le> length inp" "t \<noteq> end_of_input \<Longrightarrow> length inp' < length inp"
proof -
  have "length (dropWhile is_space inp) \<le> length inp" by (rule length_dropWhile_le)
  moreover have "length inp' \<le> length (dropWhile is_space inp) \<and> (t \<noteq> end_of_input \<longrightarrow> length inp' < length (dropWhile is_space inp))"
    using assms unfolding scan_def scan_number_def
    by (auto simp: less_Suc_eq_le dest!: scan_literal_length scan_string_length number_loop_length
        split: list.splits if_splits option.splits prod.splits)
  ultimately show "length inp' \<le> length inp" "t \<noteq> end_of_input \<Longrightarrow> length inp' < length inp" by linarith+
qed

end
