(* ===== verification/Json_Parser.thy ===== *)
theory Json_Parser
  imports Json_Lexer "HOL-Library.List_Lexorder"
begin

text \<open>
  The parser of \<^verbatim>\<open>VFSLib/include/json.hpp\<close> (\<^verbatim>\<open>parser::sax_parse_internal\<close>, a loop with a stack of states) and the
  handler that builds the value (\<^verbatim>\<open>json_sax_dom_parser\<close>). Where the handler has a stack of pointers into the value that
  it builds, here a container that is open is on the stack itself, and goes to its place when it is closed.
\<close>

section \<open>Values\<close>

text \<open>A JSON value as the library presents it; members are in the order of their names. \<open>JFloat\<close> values are never read.\<close>

datatype json =
  JNull | JBoolean bool | JInteger u64 | JUnsigned u64 | JFloat | JString bstring
  | JArray "json list" | JObject "(bstring \<times> json) list"

text \<open>The value of a name in a \<^verbatim>\<open>std::map\<close> with the order of strings is set.\<close>

fun put_member :: "bstring \<Rightarrow> json \<Rightarrow> (bstring \<times> json) list \<Rightarrow> (bstring \<times> json) list" where
  "put_member k v [] = [(k, v)]"
| "put_member k v ((k', v') # ms) =
     (if k = k' then (k, v) # ms else if k < k' then (k, v) # (k', v') # ms else (k', v') # put_member k v ms)"

section \<open>The handler\<close>

text \<open>An open container; an object with the name of the element that \<^verbatim>\<open>object_element\<close> points to.\<close>

datatype container = Array_at "json list" | Object_at "(bstring \<times> json) list" bstring

record json_sax_dom_parser =
  ref_stack :: "container list"
  sax_root :: json

definition handle_value :: "json \<Rightarrow> json_sax_dom_parser \<Rightarrow> json_sax_dom_parser" where
  "handle_value v sax =
     (case ref_stack sax of
        [] \<Rightarrow> sax\<lparr>sax_root := v\<rparr>
      | Array_at xs # refs \<Rightarrow> sax\<lparr>ref_stack := Array_at (xs @ [v]) # refs\<rparr>
      | Object_at ms k # refs \<Rightarrow> sax\<lparr>ref_stack := Object_at (put_member k v ms) k # refs\<rparr>)"

definition start_object :: "json_sax_dom_parser \<Rightarrow> json_sax_dom_parser" where
  "start_object sax = sax\<lparr>ref_stack := Object_at [] [] # ref_stack sax\<rparr>"

definition start_array :: "json_sax_dom_parser \<Rightarrow> json_sax_dom_parser" where
  "start_array sax = sax\<lparr>ref_stack := Array_at [] # ref_stack sax\<rparr>"

definition sax_key :: "bstring \<Rightarrow> json_sax_dom_parser \<Rightarrow> json_sax_dom_parser" where
  "sax_key k sax =
     (case ref_stack sax of
        Object_at ms _ # refs \<Rightarrow>
          sax\<lparr>ref_stack := Object_at (if k \<in> fst ` set ms then ms else put_member k JNull ms) k # refs\<rparr>
      | _ \<Rightarrow> sax)"

text \<open>\<^verbatim>\<open>end_object\<close> and \<^verbatim>\<open>end_array\<close>.\<close>

definition end_container :: "json_sax_dom_parser \<Rightarrow> json_sax_dom_parser" where
  "end_container sax =
     (case ref_stack sax of
        [] \<Rightarrow> sax
      | Array_at xs # refs \<Rightarrow> handle_value (JArray xs) (sax\<lparr>ref_stack := refs\<rparr>)
      | Object_at ms k # refs \<Rightarrow> handle_value (JObject ms) (sax\<lparr>ref_stack := refs\<rparr>))"

section \<open>The loop\<close>

text \<open>
  A turn starts with the last token. Behind its \<^verbatim>\<open>switch\<close> the parser goes on with the next turn, or the value is
  complete and the state is evaluated, or there is an error, which is an exception.
\<close>

datatype sax_step =
  Sax_error | Sax_continue "bool list" token_type bstring json_sax_dom_parser | Sax_value bstring json_sax_dom_parser

text \<open>A name and the separator behind it, when the token that should be a name has been read.\<close>

definition parse_key ::
  "bool list \<Rightarrow> token_type \<times> bstring \<Rightarrow> json_sax_dom_parser \<Rightarrow> sax_step" where
  "parse_key states tok sax =
     (case tok of
        (value_string k, inp) \<Rightarrow>
          (case scan inp of
             (t, inp) \<Rightarrow>
               if t \<noteq> name_separator then Sax_error
               else (case scan inp of (t, inp) \<Rightarrow> Sax_continue states t inp (sax_key k sax)))
      | _ \<Rightarrow> Sax_error)"

definition parse_token :: "bool list \<Rightarrow> token_type \<Rightarrow> bstring \<Rightarrow> json_sax_dom_parser \<Rightarrow> sax_step" where
  "parse_token states last_token inp sax =
     (case last_token of
        begin_object \<Rightarrow>
          (case scan inp of
             (t, inp) \<Rightarrow>
               if t = end_object then Sax_value inp (end_container (start_object sax))
               else parse_key (False # states) (t, inp) (start_object sax))
      | begin_array \<Rightarrow>
          (case scan inp of
             (t, inp) \<Rightarrow>
               if t = end_array then Sax_value inp (end_container (start_array sax))
               else Sax_continue (True # states) t inp (start_array sax))
      | value_float isfinite \<Rightarrow> if \<not> isfinite then Sax_error else Sax_value inp (handle_value JFloat sax)
      | literal_false \<Rightarrow> Sax_value inp (handle_value (JBoolean False) sax)
      | literal_null \<Rightarrow> Sax_value inp (handle_value JNull sax)
      | literal_true \<Rightarrow> Sax_value inp (handle_value (JBoolean True) sax)
      | value_integer n \<Rightarrow> Sax_value inp (handle_value (JInteger n) sax)
      | value_string s \<Rightarrow> Sax_value inp (handle_value (JString s) sax)
      | value_unsigned n \<Rightarrow> Sax_value inp (handle_value (JUnsigned n) sax)
      | _ \<Rightarrow> Sax_error)"

text \<open>
  The evaluation of the state: the next turn, which skips the \<^verbatim>\<open>switch\<close> when a container has been closed, or the end.
\<close>

datatype sax_next = Next_error | Next_done | Next_turn bool "bool list" token_type bstring json_sax_dom_parser

definition evaluate_state :: "bool list \<Rightarrow> bstring \<Rightarrow> json_sax_dom_parser \<Rightarrow> sax_next" where
  "evaluate_state states inp sax =
     (case states of
        [] \<Rightarrow> Next_done
      | state # states' \<Rightarrow>
          (case scan inp of
             (t, inp) \<Rightarrow>
               if state
               then (if t = value_separator then (case scan inp of (t, inp) \<Rightarrow> Next_turn False states t inp sax)
                     else if t = end_array then Next_turn True states' t inp (end_container sax)
                     else Next_error)
               else (if t = value_separator
                     then (case parse_key states (scan inp) sax of
                             Sax_continue states t inp sax \<Rightarrow> Next_turn False states t inp sax
                           | _ \<Rightarrow> Next_error)
                     else if t = end_object then Next_turn True states' t inp (end_container sax)
                     else Next_error)))"

text \<open>What is left to read before a turn; the end of the input counts nothing.\<close>

definition to_read :: "bool \<Rightarrow> token_type \<Rightarrow> bstring \<Rightarrow> nat" where
  "to_read skip t inp = length inp + (if \<not> skip \<and> t = end_of_input then 0 else 1)"

lemma scan_to_read: "scan inp = (t, inp') \<Longrightarrow> to_read False t inp' \<le> length inp"
  using scan_length [of inp t inp'] by (auto simp: to_read_def)

lemma parse_key_to_read:
  assumes "parse_key states (scan inp) sax = Sax_continue states' t inp' sax'"
  shows "to_read False t inp' \<le> length inp"
proof -
  obtain k inp1 inp2 where k: "scan inp = (value_string k, inp1)" "scan inp1 = (name_separator, inp2)" "scan inp2 = (t, inp')"
    using assms by (auto simp: parse_key_def split: prod.splits token_type.splits if_splits)
  show ?thesis using scan_length(1) [OF k(1)] scan_length(1) [OF k(2)] scan_to_read [OF k(3)] by linarith
qed

lemma parse_token_to_read:
  assumes "parse_token states tok inp sax = Sax_continue states' t inp' sax'"
  shows "to_read False t inp' < to_read False tok inp"
proof -
  obtain t1 inp1 where s: "scan inp = (t1, inp1)" by fastforce
  note l = scan_length [OF s] and t = scan_to_read [OF s]
  have "parse_key st (scan inp) sax' = Sax_continue states' t inp' sax'' \<Longrightarrow> ?thesis"
    if "tok = begin_object" for st sax' sax''
    using parse_key_to_read [of st inp] that by (fastforce simp: to_read_def)
  then show ?thesis
    using assms s t by (auto simp: parse_token_def to_read_def split: token_type.splits if_splits)
qed

lemma parse_token_value:
  assumes "parse_token states tok inp sax = Sax_value inp' sax'"
  shows "length inp' < to_read False tok inp"
proof -
  obtain t1 inp1 where s: "scan inp = (t1, inp1)" by fastforce
  show ?thesis
    using assms s scan_length(1) [OF s]
    by (auto simp: parse_token_def to_read_def parse_key_def split: token_type.splits prod.splits if_splits)
qed

lemma evaluate_state_to_read:
  assumes "evaluate_state states inp sax = Next_turn skip states' t inp' sax'"
  shows "to_read skip t inp' \<le> length inp"
proof -
  obtain t1 inp1 t2 inp2 where s: "scan inp = (t1, inp1)" "scan inp1 = (t2, inp2)" by fastforce
  have l: "t1 \<noteq> end_of_input \<Longrightarrow> length inp1 < length inp" "to_read False t2 inp2 \<le> length inp1"
    by (rule scan_length(2) [OF s(1)], assumption) (rule scan_to_read [OF s(2)])
  have "to_read False t inp' \<le> length inp1" if "parse_key st (t2, inp2) sax'' = Sax_continue states' t inp' sax'" for st sax''
    using that s(2) by (intro parse_key_to_read [of st inp1 sax'']) simp
  then show ?thesis
    using assms s l by (fastforce simp: evaluate_state_def to_read_def split: list.splits if_splits sax_step.splits)
qed

function sax_loop :: "bool \<Rightarrow> bool list \<Rightarrow> token_type \<Rightarrow> bstring \<Rightarrow> json_sax_dom_parser \<Rightarrow> json option" where
  "sax_loop skip_to_state_evaluation states last_token inp sax =
     (case (if skip_to_state_evaluation then Sax_value inp sax else parse_token states last_token inp sax) of
        Sax_error \<Rightarrow> None
      | Sax_continue states last_token inp sax \<Rightarrow> sax_loop False states last_token inp sax
      | Sax_value inp sax \<Rightarrow>
          (case evaluate_state states inp sax of
             Next_error \<Rightarrow> None
           | Next_done \<Rightarrow> Some (sax_root sax)
           | Next_turn skip states last_token inp sax \<Rightarrow> sax_loop skip states last_token inp sax))"
  by pat_completeness auto
termination
  by (relation "measure (\<lambda>(skip, states, t, inp, sax). to_read skip t inp)")
    (auto simp: to_read_def [of True] dest!: parse_token_to_read parse_token_value evaluate_state_to_read split: if_splits)

declare sax_loop.simps [simp del]

text \<open>The constructor, which reads the first token, and \<^verbatim>\<open>parse\<close> without the strict mode: what follows the value is ignored.\<close>

definition json_parse :: "bstring \<Rightarrow> json option" where
  "json_parse inp =
     (case first_token inp of
        (last_token, inp) \<Rightarrow> sax_loop False [] last_token inp \<lparr>ref_stack = [], sax_root = JNull\<rparr>)"

end
