(* ===== verification/Archiver.thy ===== *)
theory Archiver
  imports Pack_Theorems Std_String Json_Parser
begin

text \<open>
  \<^verbatim>\<open>VFSArchiver/src/main.cpp\<close>: the tool that work directories into archives as a configuration file says, and the
  shared part of \<^verbatim>\<open>VFSTest/src/main.cpp\<close>. The JSON library, the directory iterator and the existence test are
  parameters; \<^verbatim>\<open>config.h\<close> defines \<^verbatim>\<open>VFS_PRECOMPILED_LITE\<close>. A directory is listed once, before its files are packed.
\<close>

section \<open>Contexts and strings\<close>

record SPatchContext =
  pt_from :: wstring
  pt_to :: wstring

record SArchiveContext =
  strArchiveName :: wstring
  arArchiveKey :: "byte list"
  stArchiveDirectory :: wstring
  strVisualDirectory :: wstring
  iType :: u32
  iVersion :: u32
  vIgnores :: "wstring list"
  vPatches :: "SPatchContext list"

definition FindAndReplaceString :: "wstring \<Rightarrow> wstring \<Rightarrow> wstring \<Rightarrow> bool \<times> wstring" where
  "FindAndReplaceString str from to =
     (case str_find str from 0 of
        None \<Rightarrow> (False, str)
      | Some start_pos \<Rightarrow> (True, take start_pos str @ to @ drop (start_pos + length from) str))"

definition slashes :: "wstring \<Rightarrow> wstring" where
  "slashes = map (\<lambda>c. if c = 0x5C then 0x2F else c)"

text \<open>The directory and the backslash behind it are cut out of a path.\<close>

definition strip_directory :: "wstring \<Rightarrow> wstring \<Rightarrow> wstring" where
  "strip_directory directory path =
     (case str_find path (directory @ [0x5C]) 0 of
        None \<Rightarrow> path
      | Some pos \<Rightarrow> take pos path @ drop (pos + (length directory + 1)) path)"

definition apply_patches :: "SPatchContext list \<Rightarrow> wstring \<Rightarrow> wstring" where
  "apply_patches patches name =
     foldl (\<lambda>name patch. snd (FindAndReplaceString name (pt_from patch) (pt_to patch))) name patches"

text \<open>The visual directory is normalised unless it ends with a separator.\<close>

definition fix_visual :: "wstring \<Rightarrow> wstring" where
  "fix_visual visual =
     (if visual \<noteq> [] \<and> last visual \<noteq> 0x5C \<and> last visual \<noteq> 0x2F then slashes visual else visual)"

section \<open>Packing\<close>

text \<open>
  One file of a directory is opened, read and written to the archive; its file object is closed at the end of
  the iteration. The result is that of the iteration: false leaves \<^verbatim>\<open>ProcessArchiveFile\<close>.
\<close>

definition pack_file ::
  "'w platform \<Rightarrow> wstring \<Rightarrow> wstring \<Rightarrow> byte \<Rightarrow> u32 \<Rightarrow> CVFSArchive \<Rightarrow> 'w \<Rightarrow> bool outcome \<times> CVFSArchive \<times> 'w" where
  "pack_file p path name flags version a w =
     (case CVFSFile_Open (pl_api p) path CVFSFile_new w of
        (ok, entryfile, w) \<Rightarrow>
          if \<not> ok then (Returns False, a, snd (CVFSFile_Close (pl_api p) entryfile w))
          else
            let entryfilesize = CVFSFile_GetSize (pl_api p) entryfile w
            in if entryfilesize = 0 then (Returns True, a, snd (CVFSFile_Close (pl_api p) entryfile w))
               else if (ucast entryfilesize :: u32) = 0 then (Undefined, a, w)
               else
                 let vEntryData = replicate (unat (ucast entryfilesize :: u32)) 0
                 in case CVFSFile_Read (pl_api p) (ucast entryfilesize) entryfile w of
                      (Undefined, entryfile, w) \<Rightarrow> (Undefined, a, w)
                    | (Returns bs, entryfile, w) \<Rightarrow>
                        if length bs \<noteq> unat entryfilesize
                        then (Returns False, a, snd (CVFSFile_Close (pl_api p) entryfile w))
                        else
                          (case CVFSArchive_Write p name (overwrite 0 bs vEntryData)
                                  (of_nat (length vEntryData)) flags version a w of
                             (Undefined, a, w) \<Rightarrow> (Undefined, a, w)
                           | (Returns r, a, w) \<Rightarrow> (Returns r, a, snd (CVFSFile_Close (pl_api p) entryfile w))))"

definition entry_name :: "SArchiveContext \<Rightarrow> wstring \<Rightarrow> wstring" where
  "entry_name pack path =
     slashes (apply_patches (vPatches pack) (strip_directory (stArchiveDirectory pack) path))"

definition skip_file :: "SArchiveContext \<Rightarrow> wstring \<Rightarrow> bool" where
  "skip_file pack name \<longleftrightarrow> list_ex (\<lambda>ignore. WildcardMatch (c_str name) (c_str ignore)) (vIgnores pack)"

text \<open>An entry of a directory is its path and whether it is a directory.\<close>

fun process_entries ::
  "'w platform \<Rightarrow> (wstring \<times> bool) list \<Rightarrow> SArchiveContext \<Rightarrow> CVFSArchive \<Rightarrow> 'w
     \<Rightarrow> bool outcome \<times> SArchiveContext \<times> CVFSArchive \<times> 'w" where
  "process_entries p [] pack a w = (Returns True, pack, a, w)"
| "process_entries p ((path, is_directory) # entries) pack a w =
     (if is_directory then process_entries p entries pack a w
      else
        let namewithoutpath = entry_name pack path;
            pack = pack\<lparr>strVisualDirectory := fix_visual (strVisualDirectory pack)\<rparr>
        in if skip_file pack namewithoutpath then process_entries p entries pack a w
           else
             (case pack_file p path (strVisualDirectory pack @ namewithoutpath) (ucast (iType pack)) (iVersion pack) a w of
                (Undefined, a, w) \<Rightarrow> (Undefined, pack, a, w)
              | (Returns False, a, w) \<Rightarrow> (Returns False, pack, a, w)
              | (Returns True, a, w) \<Rightarrow> process_entries p entries pack a w))"

text \<open>
  \<open>walk\<close> is the recursive directory iterator, which throws when the directory cannot be read: an exception is
  \<open>Returns None\<close>. The archive and its file are destroyed on every way out.
\<close>

definition close_archive :: "'w platform \<Rightarrow> CVFSArchive \<Rightarrow> CVFSFile \<Rightarrow> 'w \<Rightarrow> 'w" where
  "close_archive p a file w =
     snd (CVFSFile_Close (pl_api p) (case m_vfsFile a of None \<Rightarrow> file | Some f \<Rightarrow> f) w)"

definition ProcessArchiveFile ::
  "'w platform \<Rightarrow> (wstring \<Rightarrow> 'w \<Rightarrow> (wstring \<times> bool) list option) \<Rightarrow> byte list \<Rightarrow> SArchiveContext \<Rightarrow> CVFSPack \<Rightarrow> 'w
     \<Rightarrow> (bool option outcome \<times> SArchiveContext \<times> CVFSPack \<times> 'w) option" where
  "ProcessArchiveFile p walk memory pack pk w =
     (case CVFSFile_Create (pl_api p) (strArchiveName pack) False CVFSFile_new w of
        (ok, file, w) \<Rightarrow>
          if \<not> ok then Some (Returns (Some False), pack, pk, snd (CVFSFile_Close (pl_api p) file w))
          else
            (case SetArchiveKey (strArchiveName pack) (arArchiveKey pack) pk of
               Undefined \<Rightarrow> Some (Undefined, pack, pk, w)
             | Returns pk \<Rightarrow>
                 (case CVFSArchive_Create (pl_api p) (Some file) (Some (arArchiveKey pack)) (CVFSArchive_new memory) w of
                    None \<Rightarrow> None
                  | Some (Undefined, a, w) \<Rightarrow> Some (Undefined, pack, pk, w)
                  | Some (Returns False, a, w) \<Rightarrow> Some (Returns (Some False), pack, pk, close_archive p a file w)
                  | Some (Returns True, a, w) \<Rightarrow>
                      (case walk (stArchiveDirectory pack) w of
                         None \<Rightarrow> Some (Returns None, pack, pk, close_archive p a file w)
                       | Some entries \<Rightarrow>
                           (case process_entries p entries pack a w of
                              (Undefined, pack, a, w) \<Rightarrow> Some (Undefined, pack, pk, w)
                            | (Returns r, pack, a, w) \<Rightarrow>
                                Some (Returns (Some r), pack, pk, close_archive p a file w))))))"

section \<open>The configuration file\<close>

text \<open>What the archiver does with a JSON value.\<close>

definition json_size :: "json \<Rightarrow> nat" where
  "json_size j = (case j of JNull \<Rightarrow> 0 | JArray xs \<Rightarrow> length xs | JObject ms \<Rightarrow> length ms | _ \<Rightarrow> 1)"

text \<open>Iteration over a value that is neither array nor object gives the value itself.\<close>

definition json_elements :: "json \<Rightarrow> json list" where
  "json_elements j = (case j of JNull \<Rightarrow> [] | JArray xs \<Rightarrow> xs | JObject ms \<Rightarrow> map snd ms | _ \<Rightarrow> [j])"

text \<open>The constant subscript operator asserts that the member is there.\<close>

definition with_member :: "bstring \<Rightarrow> (bstring \<times> json) list \<Rightarrow> (json \<Rightarrow> 'a outcome) \<Rightarrow> 'a outcome" where
  "with_member k members f = (case map_of members k of None \<Rightarrow> Undefined | Some v \<Rightarrow> f v)"

fun is_jstring :: "json \<Rightarrow> bool" where
  "is_jstring (JString s) = True"
| "is_jstring _ = False"

fun jint32 :: "json \<Rightarrow> u32 option" where
  "jint32 (JInteger n) = Some (ucast n)"
| "jint32 (JUnsigned n) = Some (ucast n)"
| "jint32 _ = None"

fun jstring :: "json \<Rightarrow> wstring option" where
  "jstring (JString s) = Some (map scast s)"
| "jstring _ = None"

text \<open>Whether a path exists, and the bytes that a stream in text mode reads from a file, none when it cannot be opened.\<close>

record 'w config_system =
  cs_exists :: "wstring \<Rightarrow> 'w \<Rightarrow> bool"
  cs_read :: "wstring \<Rightarrow> 'w \<Rightarrow> bstring"

text \<open>
  The elements of \<^verbatim>\<open>ignores\<close> and the values of \<^verbatim>\<open>patches\<close> have to be strings; otherwise \<^verbatim>\<open>get\<close> throws. An
  absent member is an empty list.
\<close>

definition read_ignores :: "(bstring \<times> json) list \<Rightarrow> wstring list option" where
  "read_ignores members =
     (case map_of members (ascii ''ignores'') of
        None \<Rightarrow> Some []
      | Some j \<Rightarrow>
          let strings = map jstring (json_elements j)
          in if None \<in> set strings then None else Some (map (c_str \<circ> the) strings))"

definition read_patches :: "(bstring \<times> json) list \<Rightarrow> SPatchContext list option" where
  "read_patches members =
     (case map_of members (ascii ''patches'') of
        None \<Rightarrow> Some []
      | Some (JObject ms) \<Rightarrow>
          let strings = map (\<lambda>(k, v). (map scast k, jstring v)) ms
          in if None \<in> snd ` set strings then None
             else Some (map (\<lambda>(k, v). \<lparr>pt_from = k, pt_to = the v\<rparr>) strings)
      | Some _ \<Rightarrow> None)"

text \<open>The checks in their order; \<open>Returns None\<close> is a return of false, after a check or an exception.\<close>

definition make_context ::
  "'w config_system \<Rightarrow> json \<Rightarrow> json \<Rightarrow> json \<Rightarrow> json \<Rightarrow> json \<Rightarrow> (bstring \<times> json) list \<Rightarrow> 'w \<Rightarrow> SArchiveContext option" where
  "make_context cs dir visdir file type version members w =
     (case (jstring dir, jstring visdir, jstring file, jint32 type, jint32 version) of
        (Some dir, Some visdir, Some file, Some type, Some version) \<Rightarrow>
          if \<not> cs_exists cs dir w \<or> cs_exists cs file w \<or> sint type \<ge> 4 \<or> version = 0 then None
          else (case (read_ignores members, read_patches members) of
                  (Some ignores, Some patches) \<Rightarrow>
                    Some \<lparr>strArchiveName = file, arArchiveKey = LITE_CRYPT_KEY, stArchiveDirectory = dir,
                          strVisualDirectory = visdir, iType = type, iVersion = version, vIgnores = ignores,
                          vPatches = patches\<rparr>
                | _ \<Rightarrow> None)
      | _ \<Rightarrow> None)"

definition read_group :: "'w config_system \<Rightarrow> json \<Rightarrow> 'w \<Rightarrow> SArchiveContext option outcome" where
  "read_group cs j w =
     (case j of
        JObject members \<Rightarrow>
          with_member (ascii ''dir'') members (\<lambda>dir. if \<not> is_jstring dir then Returns None else
          with_member (ascii ''visualdir'') members (\<lambda>visdir. if \<not> is_jstring visdir then Returns None else
          with_member (ascii ''file'') members (\<lambda>file. if \<not> is_jstring file then Returns None else
          with_member (ascii ''type'') members (\<lambda>type. if jint32 type = None then Returns None else
          with_member (ascii ''version'') members (\<lambda>version. if jint32 version = None then Returns None else
            if (case map_of members (ascii ''ignores'') of None \<Rightarrow> False | Some (JArray _) \<Rightarrow> False | _ \<Rightarrow> True)
            then Returns None
            else if (case map_of members (ascii ''patches'') of None \<Rightarrow> False | Some (JObject _) \<Rightarrow> False | _ \<Rightarrow> True)
            then Returns None
            else Returns (make_context cs dir visdir file type version members w))))))
      | _ \<Rightarrow> Returns None)"

fun read_groups :: "'w config_system \<Rightarrow> json list \<Rightarrow> 'w \<Rightarrow> SArchiveContext list \<Rightarrow> SArchiveContext list option outcome" where
  "read_groups cs [] w work = Returns (Some work)"
| "read_groups cs (g # gs) w work =
     (case read_group cs g w of
        Undefined \<Rightarrow> Undefined
      | Returns None \<Rightarrow> Returns None
      | Returns (Some ctx) \<Rightarrow> read_groups cs gs w (work @ [ctx]))"

definition InitializeConfigFile :: "'w config_system \<Rightarrow> wstring \<Rightarrow> 'w \<Rightarrow> SArchiveContext list option outcome" where
  "InitializeConfigFile cs strConfigFile w =
     (if \<not> cs_exists cs strConfigFile w then Returns None
      else (case json_parse (cs_read cs strConfigFile w) of
              None \<Rightarrow> Returns None
            | Some root \<Rightarrow>
                if json_size root \<le> 0 then Returns None
                else (case read_groups cs (json_elements root) w [] of
                        Undefined \<Rightarrow> Undefined
                      | Returns None \<Rightarrow> Returns None
                      | Returns (Some work) \<Rightarrow> Returns (if work = [] then None else Some work))))"

section \<open>The program\<close>

text \<open>
  The contexts are processed in the order in which the tasks run, here a list; a failure aborts, an exception
  ends the program with the value of false. After that every archive is loaded and listed in a log file.
\<close>

datatype exit_status = Exit int | Aborted

definition EXIT_SUCCESS :: exit_status where
  "EXIT_SUCCESS = Exit 0"

definition EXIT_FAILURE :: exit_status where
  "EXIT_FAILURE = Exit 1"

fun process_packs ::
  "'w platform \<Rightarrow> (wstring \<Rightarrow> 'w \<Rightarrow> (wstring \<times> bool) list option) \<Rightarrow> byte list \<Rightarrow> SArchiveContext list \<Rightarrow> CVFSPack \<Rightarrow> 'w
     \<Rightarrow> (exit_status option outcome \<times> CVFSPack \<times> 'w) option" where
  "process_packs p walk memory [] pk w = Some (Returns None, pk, w)"
| "process_packs p walk memory (pack # work) pk w =
     (case ProcessArchiveFile p walk memory pack pk w of
        None \<Rightarrow> None
      | Some (Undefined, pack, pk, w) \<Rightarrow> Some (Undefined, pk, w)
      | Some (Returns None, pack, pk, w) \<Rightarrow> Some (Returns (Some (Exit 0)), pk, w)
      | Some (Returns (Some False), pack, pk, w) \<Rightarrow> Some (Returns (Some Aborted), pk, w)
      | Some (Returns (Some True), pack, pk, w) \<Rightarrow> process_packs p walk memory work pk w)"

definition lite_check :: bool where
  "lite_check \<longleftrightarrow> XXH32 LITE_CRYPT_KEY 0 = 0xD4E79439 \<and> XXH32 (le_bytes 4 ARCHIVE_MAGIC) 0 = 0x35579559
     \<and> XXH32 (ascii ''000102030405060708090A0B0C0D0E0F'') 0 = 0x672376E9"

text \<open>The listing of one loaded archive is the sequence of its name and hash pairs.\<close>

fun list_archives ::
  "'w platform \<Rightarrow> ((u32 \<Rightarrow> SFileEntry option) \<Rightarrow> u32 list) \<Rightarrow> byte list \<Rightarrow> SArchiveContext list \<Rightarrow> CVFSPack \<Rightarrow> 'w
     \<Rightarrow> ((wstring \<times> (wstring \<times> u32) list) list outcome \<times> CVFSPack \<times> 'w) option" where
  "list_archives p order memory [] pk w = Some (Returns [], pk, w)"
| "list_archives p order memory (pack # work) pk w =
     (case LoadArchive (pl_api p) memory (strArchiveName pack) pk w of
        None \<Rightarrow> None
      | Some (Undefined, pk, w) \<Rightarrow> Some (Undefined, pk, w)
      | Some (Returns archive, pk, w) \<Rightarrow>
          (let listing = (case archive of
                 None \<Rightarrow> []
               | Some i \<Rightarrow> (case map_of (m_archives pk) i of
                   None \<Rightarrow> []
                 | Some a \<Rightarrow> [(strArchiveName pack @ map of_char ''.log'',
                               map (\<lambda>file. (fi_filename file, fi_hash file)) (EnumerateFiles order a))]))
           in case list_archives p order memory work pk w of
                None \<Rightarrow> None
              | Some (Undefined, pk, w) \<Rightarrow> Some (Undefined, pk, w)
              | Some (Returns rest, pk, w) \<Rightarrow> Some (Returns (listing @ rest), pk, w)))"

definition archiver_main ::
  "'w platform \<Rightarrow> 'w config_system \<Rightarrow> (wstring \<Rightarrow> 'w \<Rightarrow> (wstring \<times> bool) list option)
     \<Rightarrow> ((u32 \<Rightarrow> SFileEntry option) \<Rightarrow> u32 list) \<Rightarrow> (SArchiveContext list \<Rightarrow> SArchiveContext list) \<Rightarrow> byte list
     \<Rightarrow> wstring list \<Rightarrow> 'w \<Rightarrow> ((exit_status \<times> (wstring \<times> (wstring \<times> u32) list) list) outcome \<times> 'w) option" where
  "archiver_main p cs walk order schedule memory args w =
     (let configfile = (if length args = 2 then args ! 1 else map of_char ''config.json'')
      in case InitializeConfigFile cs configfile w of
           Undefined \<Rightarrow> Some (Undefined, w)
         | Returns None \<Rightarrow> Some (Returns (EXIT_FAILURE, []), w)
         | Returns (Some work) \<Rightarrow>
             if \<not> lite_check then Some (Returns (EXIT_SUCCESS, []), w)
             else (case process_packs p walk memory (schedule work) CVFSPack_new w of
                     None \<Rightarrow> None
                   | Some (Undefined, pk, w) \<Rightarrow> Some (Undefined, w)
                   | Some (Returns (Some e), pk, w) \<Rightarrow> Some (Returns (e, []), w)
                   | Some (Returns None, pk, w) \<Rightarrow>
                       (case list_archives p order memory work pk w of
                          None \<Rightarrow> None
                        | Some (Undefined, pk, w) \<Rightarrow> Some (Undefined, w)
                        | Some (Returns listing, pk, w) \<Rightarrow> Some (Returns (EXIT_SUCCESS, listing), w))))"

end
