(* ===== verification/Json_Correct.thy ===== *)
theory Json_Correct
  imports Json_Parser
begin

text \<open>
  The parser against a grammar: a syntax tree has its tokens and denotes a value, and the loop returns a value exactly
  when the tokens of the input begin with those of a tree that denotes it.
\<close>

section \<open>Trees\<close>

datatype json_tree = Leaf token_type | Tree_array "json_tree list" | Tree_object "(bstring \<times> json_tree) list"

fun leaf_value :: "token_type \<Rightarrow> json option" where
  "leaf_value literal_true = Some (JBoolean True)"
| "leaf_value literal_false = Some (JBoolean False)"
| "leaf_value literal_null = Some JNull"
| "leaf_value (value_string s) = Some (JString s)"
| "leaf_value (value_unsigned n) = Some (JUnsigned n)"
| "leaf_value (value_integer n) = Some (JInteger n)"
| "leaf_value (value_float True) = Some JFloat"
| "leaf_value _ = None"

fun well_formed :: "json_tree \<Rightarrow> bool" where
  "well_formed (Leaf t) \<longleftrightarrow> leaf_value t \<noteq> None"
| "well_formed (Tree_array ts) \<longleftrightarrow> (\<forall>t\<in>set ts. well_formed t)"
| "well_formed (Tree_object ms) \<longleftrightarrow> (\<forall>(k, t)\<in>set ms. well_formed t)"

text \<open>A name that occurs twice has the last of its values.\<close>

fun tree_value :: "json_tree \<Rightarrow> json" where
  "tree_value (Leaf t) = the (leaf_value t)"
| "tree_value (Tree_array ts) = JArray (map tree_value ts)"
| "tree_value (Tree_object ms) = JObject (foldl (\<lambda>m (k, t). put_member k (tree_value t) m) [] ms)"

fun tree_tokens :: "json_tree \<Rightarrow> token_type list" where
  "tree_tokens (Leaf t) = [t]"
| "tree_tokens (Tree_array []) = [begin_array, end_array]"
| "tree_tokens (Tree_array (t # ts)) =
     begin_array # tree_tokens t @ concat (map (\<lambda>t. value_separator # tree_tokens t) ts) @ [end_array]"
| "tree_tokens (Tree_object []) = [begin_object, end_object]"
| "tree_tokens (Tree_object ((k, t) # ms)) =
     begin_object # (value_string k # name_separator # tree_tokens t)
     @ concat (map (\<lambda>(k, t). value_separator # value_string k # name_separator # tree_tokens t) ms) @ [end_object]"

text \<open>The input behind tokens, when it begins with them.\<close>

fun scans :: "token_type list \<Rightarrow> bstring \<Rightarrow> bstring option" where
  "scans [] inp = Some inp"
| "scans (t # ts) inp = (case scan inp of (t', inp') \<Rightarrow> if t' = t then scans ts inp' else None)"

lemma scans_append: "scans (ts @ us) inp = (case scans ts inp of None \<Rightarrow> None | Some inp' \<Rightarrow> scans us inp')"
  by (induction ts arbitrary: inp) (auto split: prod.splits)

lemma scans_length: "scans ts inp = Some rest \<Longrightarrow> length rest \<le> length inp"
proof (induction ts arbitrary: inp)
  case (Cons t ts)
  obtain t' inp' where "scan inp = (t', inp')" by fastforce
  then show ?case using Cons scan_length(1) [of inp t' inp'] by (fastforce split: if_splits)
qed simp

lemma tree_tokens_start:
  "well_formed t \<Longrightarrow> \<exists>tok toks. tree_tokens t = tok # toks \<and> tok \<noteq> end_array \<and> tok \<noteq> end_object"
  by (cases t rule: tree_tokens.cases) auto

section \<open>The state behind a value\<close>

definition after_value :: "bool list \<Rightarrow> bstring \<Rightarrow> json_sax_dom_parser \<Rightarrow> json option" where
  "after_value states inp sax =
     (case evaluate_state states inp sax of
        Next_error \<Rightarrow> None
      | Next_done \<Rightarrow> Some (sax_root sax)
      | Next_turn skip states t inp sax \<Rightarrow> sax_loop skip states t inp sax)"

lemma loop_skip: "sax_loop True states t inp sax = after_value states inp sax"
  by (subst sax_loop.simps) (simp add: after_value_def)

lemma loop_token:
  "sax_loop False states t inp sax =
     (case parse_token states t inp sax of
        Sax_error \<Rightarrow> None
      | Sax_continue states t inp sax \<Rightarrow> sax_loop False states t inp sax
      | Sax_value inp sax \<Rightarrow> after_value states inp sax)"
  by (subst sax_loop.simps) (simp add: after_value_def cong: sax_step.case_cong)

lemma after_root: "after_value [] inp sax = Some (sax_root sax)"
  by (simp add: after_value_def evaluate_state_def)

lemma after_array:
  "after_value (True # states) inp sax =
     (case scan inp of
        (t, inp') \<Rightarrow>
          if t = value_separator then (case scan inp' of (t, inp) \<Rightarrow> sax_loop False (True # states) t inp sax)
          else if t = end_array then after_value states inp' (end_container sax)
          else None)"
  by (simp add: after_value_def [of "True # states"] evaluate_state_def loop_skip split: prod.splits)

lemma after_object:
  "after_value (False # states) inp sax =
     (case scan inp of
        (t, inp') \<Rightarrow>
          if t = value_separator
          then (case parse_key (False # states) (scan inp') sax of
                  Sax_continue states t inp sax \<Rightarrow> sax_loop False states t inp sax
                | _ \<Rightarrow> None)
          else if t = end_object then after_value states inp' (end_container sax)
          else None)"
  by (simp add: after_value_def [of "False # states"] evaluate_state_def loop_skip split: prod.splits sax_step.splits)

lemma parse_key_continue:
  "parse_key states (scan inp) sax = Sax_continue states' t inp' sax' \<longleftrightarrow>
     states' = states \<and> (\<exists>k inp1. scans [value_string k, name_separator] inp = Some inp1 \<and> scan inp1 = (t, inp') \<and> sax' = sax_key k sax)"
  by (fastforce simp: parse_key_def split: prod.splits token_type.splits if_splits)

lemma parse_key_value: "parse_key states tok sax \<noteq> Sax_value inp' sax'"
  by (auto simp: parse_key_def split: prod.splits token_type.splits if_splits)

lemma loop_leaf:
  "leaf_value t = Some v \<Longrightarrow> sax_loop False states t inp sax = after_value states inp (handle_value v sax)"
  by (subst loop_token, cases t rule: leaf_value.cases) (auto simp: parse_token_def)

lemma put_member_twice: "put_member k v (put_member k v' ms) = put_member k v ms"
  by (induction ms) auto

lemma handle_member:
  "ref_stack sax = Object_at ms k' # refs \<Longrightarrow>
   handle_value v (sax_key k sax) = sax\<lparr>ref_stack := Object_at (put_member k v ms) k # refs\<rparr>"
  by (simp add: handle_value_def sax_key_def put_member_twice)

lemma handle_element:
  "ref_stack sax = Array_at xs # refs \<Longrightarrow> handle_value v sax = sax\<lparr>ref_stack := Array_at (xs @ [v]) # refs\<rparr>"
  by (simp add: handle_value_def)

lemma end_array_value:
  "ref_stack sax = Array_at xs # refs \<Longrightarrow> end_container sax = handle_value (JArray xs) (sax\<lparr>ref_stack := refs\<rparr>)"
  by (simp add: end_container_def)

lemma end_object_value:
  "ref_stack sax = Object_at ms k # refs \<Longrightarrow> end_container sax = handle_value (JObject ms) (sax\<lparr>ref_stack := refs\<rparr>)"
  by (simp add: end_container_def)

section \<open>A tree is read\<close>

definition reads :: "json_tree \<Rightarrow> bool" where
  "reads t \<longleftrightarrow> (\<forall>tok toks inp rest states sax. tree_tokens t = tok # toks \<longrightarrow> scans toks inp = Some rest \<longrightarrow>
     sax_loop False states tok inp sax = after_value states rest (handle_value (tree_value t) sax))"

lemma readsD:
  assumes "reads t" "well_formed t" "scans (tree_tokens t) inp = Some rest"
  shows "\<exists>tok inp'. scan inp = (tok, inp') \<and> tok \<noteq> end_array
    \<and> (\<forall>states sax. sax_loop False states tok inp' sax = after_value states rest (handle_value (tree_value t) sax))"
proof -
  obtain tok toks where t: "tree_tokens t = tok # toks" "tok \<noteq> end_array" using tree_tokens_start [OF assms(2)] by blast
  then obtain inp' where "scan inp = (tok, inp')" "scans toks inp' = Some rest"
    using assms(3) by (auto split: prod.splits if_splits)
  then show ?thesis using assms(1) t by (auto simp: reads_def)
qed

lemma reads_elements:
  assumes "\<forall>t\<in>set ts. reads t \<and> well_formed t" "ref_stack sax = Array_at xs # refs"
    and "scans (concat (map (\<lambda>t. value_separator # tree_tokens t) ts) @ [end_array]) inp = Some rest"
  shows "after_value (True # states) inp sax
    = after_value states rest (handle_value (JArray (xs @ map tree_value ts)) (sax\<lparr>ref_stack := refs\<rparr>))"
  using assms
proof (induction ts arbitrary: xs sax inp)
  case Nil
  then show ?case by (auto simp: after_array end_array_value split: prod.splits if_splits)
next
  case (Cons t ts)
  obtain inp1 inp2 where s: "scan inp = (value_separator, inp1)" "scans (tree_tokens t) inp1 = Some inp2"
    "scans (concat (map (\<lambda>t. value_separator # tree_tokens t) ts) @ [end_array]) inp2 = Some rest"
    using Cons.prems(3) by (auto simp: scans_append split: prod.splits if_splits option.splits)
  obtain tok inp' where t: "scan inp1 = (tok, inp')"
    "\<And>states sax. sax_loop False states tok inp' sax = after_value states inp2 (handle_value (tree_value t) sax)"
    using readsD [OF _ _ s(2)] Cons.prems(1) by auto
  have "after_value (True # states) inp sax = after_value (True # states) inp2 (handle_value (tree_value t) sax)"
    by (simp add: after_array [of states inp] s(1) t)
  then show ?case
    using Cons.IH [of "handle_value (tree_value t) sax" "xs @ [tree_value t]" inp2] Cons.prems(1,2) s(3)
    by (simp add: handle_element)
qed

lemma reads_members:
  assumes "\<forall>(k, t)\<in>set ms. reads t \<and> well_formed t" "ref_stack sax = Object_at m k' # refs"
    and "scans (concat (map (\<lambda>(k, t). value_separator # value_string k # name_separator # tree_tokens t) ms) @ [end_object]) inp
      = Some rest"
  shows "after_value (False # states) inp sax
    = after_value states rest (handle_value (JObject (foldl (\<lambda>m (k, t). put_member k (tree_value t) m) m ms)) (sax\<lparr>ref_stack := refs\<rparr>))"
  using assms
proof (induction ms arbitrary: m k' sax inp)
  case Nil
  then show ?case by (auto simp: after_object end_object_value split: prod.splits if_splits)
next
  case (Cons kt ms)
  obtain k t where kt: "kt = (k, t)" by fastforce
  obtain inp1 inp2 inp3 where s: "scan inp = (value_separator, inp1)" "scans [value_string k, name_separator] inp1 = Some inp2"
    "scans (tree_tokens t) inp2 = Some inp3"
    "scans (concat (map (\<lambda>(k, t). value_separator # value_string k # name_separator # tree_tokens t) ms) @ [end_object]) inp3
      = Some rest"
    using Cons.prems(3) kt by (auto simp: scans_append split: prod.splits if_splits option.splits)
  obtain tok inp' where t: "scan inp2 = (tok, inp')"
    "\<And>states sax. sax_loop False states tok inp' sax = after_value states inp3 (handle_value (tree_value t) sax)"
    using readsD [OF _ _ s(3)] Cons.prems(1) kt by auto
  have "parse_key (False # states) (scan inp1) sax = Sax_continue (False # states) tok inp' (sax_key k sax)"
    using s(2) t(1) by (auto simp: parse_key_continue)
  then have "after_value (False # states) inp sax = after_value (False # states) inp3 (handle_value (tree_value t) (sax_key k sax))"
    by (simp add: after_object [of states inp] s(1) t(2))
  then show ?case
    using Cons.IH [of "handle_value (tree_value t) (sax_key k sax)" "put_member k (tree_value t) m" k inp3]
      Cons.prems(1,2) s(4) kt by (simp add: handle_member)
qed

lemma reads_tree: "well_formed t \<Longrightarrow> reads t"
proof (induction t rule: tree_tokens.induct)
  case (1 t)
  then show ?case by (auto simp: reads_def loop_leaf)
next
  case 2
  show ?case
    by (auto simp: reads_def loop_token [of _ begin_array] parse_token_def start_array_def end_container_def
        split: prod.splits if_splits)
next
  case (3 t ts)
  show ?case
    unfolding reads_def
  proof (intro allI impI)
    fix tok toks inp rest states and sax :: json_sax_dom_parser
    assume a: "tree_tokens (Tree_array (t # ts)) = tok # toks" "scans toks inp = Some rest"
    then obtain inp1 where s: "scans (tree_tokens t) inp = Some inp1"
      "scans (concat (map (\<lambda>t. value_separator # tree_tokens t) ts) @ [end_array]) inp1 = Some rest"
      by (auto simp: scans_append split: option.splits)
    have r: "reads t" "\<forall>t\<in>set ts. reads t \<and> well_formed t" "well_formed t" using 3 by auto
    obtain tk inp' where t: "scan inp = (tk, inp')" "tk \<noteq> end_array"
      "\<And>states sax. sax_loop False states tk inp' sax = after_value states inp1 (handle_value (tree_value t) sax)"
      using readsD [OF r(1,3) s(1)] by blast
    have "sax_loop False states tok inp sax = after_value (True # states) inp1 (handle_value (tree_value t) (start_array sax))"
      using a(1) t by (simp add: loop_token [of _ begin_array] parse_token_def)
    then show "sax_loop False states tok inp sax
        = after_value states rest (handle_value (tree_value (Tree_array (t # ts))) sax)"
      using reads_elements [OF r(2) _ s(2), of "handle_value (tree_value t) (start_array sax)" "[tree_value t]" "ref_stack sax" states]
      by (simp add: handle_element start_array_def)
  qed
next
  case 4
  show ?case
    by (auto simp: reads_def loop_token [of _ begin_object] parse_token_def start_object_def end_container_def
        split: prod.splits if_splits)
next
  case (5 k t ms)
  show ?case
    unfolding reads_def
  proof (intro allI impI)
    fix tok toks inp rest states and sax :: json_sax_dom_parser
    assume a: "tree_tokens (Tree_object ((k, t) # ms)) = tok # toks" "scans toks inp = Some rest"
    then obtain inp1 inp2 where s: "scans [value_string k, name_separator] inp = Some inp1" "scans (tree_tokens t) inp1 = Some inp2"
      "scans (concat (map (\<lambda>(k, t). value_separator # value_string k # name_separator # tree_tokens t) ms) @ [end_object]) inp2
        = Some rest"
      by (auto simp: scans_append split: option.splits prod.splits if_splits)
    have r: "reads t" "\<forall>(k, t)\<in>set ms. reads t \<and> well_formed t" "well_formed t" using 5 by auto
    obtain tk inp' where t: "scan inp1 = (tk, inp')"
      "\<And>states sax. sax_loop False states tk inp' sax = after_value states inp2 (handle_value (tree_value t) sax)"
      using readsD [OF r(1,3) s(2)] by blast
    have "parse_key (False # states) (scan inp) (start_object sax) = Sax_continue (False # states) tk inp' (sax_key k (start_object sax))"
      using s(1) t(1) by (auto simp: parse_key_continue)
    moreover have "fst (scan inp) \<noteq> end_object" using s(1) by (auto split: prod.splits if_splits)
    ultimately have "sax_loop False states tok inp sax
        = after_value (False # states) inp2 (handle_value (tree_value t) (sax_key k (start_object sax)))"
      using a(1) t by (auto simp: loop_token [of _ begin_object] parse_token_def split: prod.splits)
    then show "sax_loop False states tok inp sax
        = after_value states rest (handle_value (tree_value (Tree_object ((k, t) # ms))) sax)"
      using reads_members [OF r(2) _ s(3), of "handle_value (tree_value t) (sax_key k (start_object sax))"
          "put_member k (tree_value t) []" k "ref_stack sax" states]
      by (simp add: handle_member start_object_def)
  qed
qed

section \<open>What is read is a tree\<close>

definition read_tree :: "bool list \<Rightarrow> token_type \<Rightarrow> bstring \<Rightarrow> json_sax_dom_parser \<Rightarrow> json \<Rightarrow> bool" where
  "read_tree states tok inp sax v \<longleftrightarrow>
     (\<exists>t toks rest. well_formed t \<and> tree_tokens t = tok # toks \<and> scans toks inp = Some rest
        \<and> after_value states rest (handle_value (tree_value t) sax) = Some v)"

lemma read_treeI:
  "well_formed t \<Longrightarrow> tree_tokens t = tok # toks \<Longrightarrow> scans toks inp = Some rest \<Longrightarrow>
   after_value states rest (handle_value (tree_value t) sax) = Some v \<Longrightarrow> read_tree states tok inp sax v"
  by (auto simp: read_tree_def)

lemma read_treeE:
  assumes "read_tree states tok inp' sax v" "scan inp = (tok, inp')"
  obtains t rest where "well_formed t" "scans (tree_tokens t) inp = Some rest" "length rest \<le> length inp'"
    "after_value states rest (handle_value (tree_value t) sax) = Some v"
proof -
  obtain t toks rest where t: "well_formed t" "tree_tokens t = tok # toks" "scans toks inp' = Some rest"
    "after_value states rest (handle_value (tree_value t) sax) = Some v" using assms(1) by (auto simp: read_tree_def)
  show thesis by (rule that [OF t(1) _ scans_length [OF t(3)] t(4)]) (use t assms(2) in simp)
qed

lemma loop_end: "sax_loop False states end_of_input inp sax = None"
  by (simp add: loop_token parse_token_def)

lemma read_elements:
  assumes IH: "\<And>tok inp' states sax. length inp' < n \<Longrightarrow> sax_loop False states tok inp' sax = Some v \<Longrightarrow> read_tree states tok inp' sax v"
  shows "length inp \<le> n \<Longrightarrow> ref_stack sax = Array_at xs # refs \<Longrightarrow> after_value (True # states) inp sax = Some v \<Longrightarrow>
    \<exists>ts rest. (\<forall>t\<in>set ts. well_formed t)
      \<and> scans (concat (map (\<lambda>t. value_separator # tree_tokens t) ts) @ [end_array]) inp = Some rest
      \<and> after_value states rest (handle_value (JArray (xs @ map tree_value ts)) (sax\<lparr>ref_stack := refs\<rparr>)) = Some v"
proof (induction "length inp" arbitrary: inp sax xs rule: less_induct)
  case less
  obtain t1 inp1 where s1: "scan inp = (t1, inp1)" by fastforce
  obtain t2 inp2 where s2: "scan inp1 = (t2, inp2)" by fastforce
  consider (sep) "t1 = value_separator" "sax_loop False (True # states) t2 inp2 sax = Some v"
    | (fin) "t1 = end_array" "after_value states inp1 (end_container sax) = Some v"
    using less.prems(3) s1 s2 by (auto simp: after_array split: if_splits)
  then show ?case
  proof cases
    case fin
    then show ?thesis using s1 less.prems(2) by (intro exI [of _ "[]"] exI [of _ inp1]) (simp add: end_array_value)
  next
    case sep
    have l: "length inp1 < length inp" "length inp2 \<le> length inp1"
      using scan_length(2) [OF s1] scan_length(1) [OF s2] sep(1) by auto
    have "read_tree (True # states) t2 inp2 sax v" by (rule IH) (use l less.prems(1) sep(2) in auto)
    then obtain t rest where t: "well_formed t" "scans (tree_tokens t) inp1 = Some rest" "length rest \<le> length inp2"
      "after_value (True # states) rest (handle_value (tree_value t) sax) = Some v"
      using s2 by (rule read_treeE)
    obtain ts rest' where ts: "\<forall>t\<in>set ts. well_formed t"
      "scans (concat (map (\<lambda>t. value_separator # tree_tokens t) ts) @ [end_array]) rest = Some rest'"
      "after_value states rest' (handle_value (JArray ((xs @ [tree_value t]) @ map tree_value ts)) (sax\<lparr>ref_stack := refs\<rparr>)) = Some v"
      using less.hyps [of rest "handle_value (tree_value t) sax" "xs @ [tree_value t]"] t(3,4) l less.prems(1,2)
      by (auto simp: handle_element)
    show ?thesis
      by (rule exI [of _ "t # ts"], rule exI [of _ rest']) (use s1 sep(1) t ts in \<open>simp add: scans_append [of "tree_tokens t"]\<close>)
  qed
qed

lemma read_key:
  assumes "parse_key states (scan inp) sax = Sax_continue states' t inp' sax'"
  obtains k inp1 where "scans [value_string k, name_separator] inp = Some inp1" "scan inp1 = (t, inp')" "states' = states"
    "sax' = sax_key k sax" "t \<noteq> end_of_input \<longrightarrow> length inp' < length inp"
proof -
  obtain k inp1 where k: "scans [value_string k, name_separator] inp = Some inp1" "scan inp1 = (t, inp')" "states' = states"
    "sax' = sax_key k sax" using assms by (auto simp: parse_key_continue)
  have "t \<noteq> end_of_input \<longrightarrow> length inp' < length inp"
    using scans_length [OF k(1)] scan_length(2) [OF k(2)] by linarith
  then show thesis using that k by blast
qed

lemma read_members:
  assumes IH: "\<And>tok inp' states sax. length inp' < n \<Longrightarrow> sax_loop False states tok inp' sax = Some v \<Longrightarrow> read_tree states tok inp' sax v"
  shows "length inp \<le> n \<Longrightarrow> ref_stack sax = Object_at m k' # refs \<Longrightarrow> after_value (False # states) inp sax = Some v \<Longrightarrow>
    \<exists>ms rest. (\<forall>(k, t)\<in>set ms. well_formed t)
      \<and> scans (concat (map (\<lambda>(k, t). value_separator # value_string k # name_separator # tree_tokens t) ms) @ [end_object]) inp = Some rest
      \<and> after_value states rest (handle_value (JObject (foldl (\<lambda>m (k, t). put_member k (tree_value t) m) m ms))
          (sax\<lparr>ref_stack := refs\<rparr>)) = Some v"
proof (induction "length inp" arbitrary: inp sax m k' rule: less_induct)
  case less
  obtain t1 inp1 where s1: "scan inp = (t1, inp1)" by fastforce
  consider (sep) states' t inp' sax' where "t1 = value_separator"
      "parse_key (False # states) (scan inp1) sax = Sax_continue states' t inp' sax'"
      "sax_loop False states' t inp' sax' = Some v"
    | (fin) "t1 = end_object" "after_value states inp1 (end_container sax) = Some v"
    using less.prems(3) s1 by (auto simp: after_object split: if_splits sax_step.splits)
  then show ?case
  proof cases
    case fin
    then show ?thesis using s1 less.prems(2) by (intro exI [of _ "[]"] exI [of _ inp1]) (simp add: end_object_value)
  next
    case sep
    from sep(2) obtain k inp2 where k: "scans [value_string k, name_separator] inp1 = Some inp2" "scan inp2 = (t, inp')"
      "states' = False # states" "sax' = sax_key k sax" "t \<noteq> end_of_input \<longrightarrow> length inp' < length inp1"
      by (rule read_key)
    have "t \<noteq> end_of_input" using sep(3) loop_end by auto
    then have l: "length inp1 < length inp" "length inp' < length inp1" using scan_length(2) [OF s1] sep(1) k(5) by auto
    have "read_tree (False # states) t inp' (sax_key k sax) v" by (rule IH) (use l less.prems(1) sep(3) k in auto)
    then obtain u rest where u: "well_formed u" "scans (tree_tokens u) inp2 = Some rest" "length rest \<le> length inp'"
      "after_value (False # states) rest (handle_value (tree_value u) (sax_key k sax)) = Some v"
      using k(2) by (rule read_treeE)
    obtain ms rest' where ms: "\<forall>(k, t)\<in>set ms. well_formed t"
      "scans (concat (map (\<lambda>(k, t). value_separator # value_string k # name_separator # tree_tokens t) ms) @ [end_object]) rest = Some rest'"
      "after_value states rest' (handle_value (JObject (foldl (\<lambda>m (k, t). put_member k (tree_value t) m) (put_member k (tree_value u) m) ms))
          (sax\<lparr>ref_stack := refs\<rparr>)) = Some v"
      using less.hyps [of rest "handle_value (tree_value u) (sax_key k sax)" "put_member k (tree_value u) m" k] u(3,4) l less.prems(1,2)
      by (auto simp: handle_member)
    show ?thesis
      by (rule exI [of _ "(k, u) # ms"], rule exI [of _ rest'])
        (use s1 sep(1) k(1) u ms in \<open>auto simp: scans_append [of "tree_tokens u"] split: prod.splits if_splits\<close>)
  qed
qed

lemma read_tree: "sax_loop False states tok inp sax = Some v \<Longrightarrow> read_tree states tok inp sax v"
proof (induction "length inp" arbitrary: states tok inp sax rule: less_induct)
  case less
  obtain t1 inp1 where s1: "scan inp = (t1, inp1)" by fastforce
  have leaf: ?case if "leaf_value tok = Some w" for w
    using less.prems that loop_leaf [OF that] by (auto simp: read_tree_def intro!: exI [of _ "Leaf tok"])
  show ?case
  proof (cases "tok = begin_array \<or> tok = begin_object")
    case False
    then show ?thesis using less.prems leaf
      by (cases tok rule: leaf_value.cases) (auto simp: loop_token parse_token_def)
  next
    case True
    show ?thesis
    proof (cases "tok = begin_array")
      case True
      show ?thesis
      proof (cases "t1 = end_array")
        case e: True
        then have "after_value states inp1 (handle_value (JArray []) sax) = Some v"
          using less.prems True s1 by (simp add: loop_token parse_token_def start_array_def end_container_def)
        then show ?thesis
          unfolding read_tree_def by (intro exI [of _ "Tree_array []"]) (use True s1 e in simp)
      next
        case False
        then have r: "sax_loop False (True # states) t1 inp1 (start_array sax) = Some v"
          using less.prems True s1 by (simp add: loop_token [of states begin_array] parse_token_def)
        then have "t1 \<noteq> end_of_input" using loop_end by auto
        then have l: "length inp1 < length inp" using scan_length(2) [OF s1] by blast
        from less.hyps [OF l r] s1 obtain t rest where t: "well_formed t" "scans (tree_tokens t) inp = Some rest"
          "length rest \<le> length inp1" "after_value (True # states) rest (handle_value (tree_value t) (start_array sax)) = Some v"
          by (rule read_treeE)
        obtain ts rest' where ts: "\<forall>t\<in>set ts. well_formed t"
          "scans (concat (map (\<lambda>t. value_separator # tree_tokens t) ts) @ [end_array]) rest = Some rest'"
          "after_value states rest' (handle_value (JArray ([tree_value t] @ map tree_value ts)) sax) = Some v"
          using read_elements [OF less.hyps, of "length inp" rest "handle_value (tree_value t) (start_array sax)" "[tree_value t]" "ref_stack sax" states]
            t(3,4) l by (auto simp: start_array_def handle_element)
        show ?thesis
          by (rule read_treeI [where t = "Tree_array (t # ts)" and rest = rest'
              and toks = "tree_tokens t @ concat (map (\<lambda>t. value_separator # tree_tokens t) ts) @ [end_array]"])
            (use True t ts in \<open>simp_all add: scans_append [of "tree_tokens t"]\<close>)
      qed
    next
      case False
      then have tok: "tok = begin_object" using True by blast
      show ?thesis
      proof (cases "t1 = end_object")
        case e: True
        then have "after_value states inp1 (handle_value (JObject []) sax) = Some v"
          using less.prems tok s1 by (simp add: loop_token parse_token_def start_object_def end_container_def)
        then show ?thesis
          unfolding read_tree_def by (intro exI [of _ "Tree_object []"]) (use tok s1 e in simp)
      next
        case False
        then obtain states' t inp' sax' where p: "parse_key (False # states) (scan inp) (start_object sax) = Sax_continue states' t inp' sax'"
          "sax_loop False states' t inp' sax' = Some v"
          using less.prems tok s1 by (auto simp: loop_token [of states begin_object] parse_token_def parse_key_value split: sax_step.splits)
        from p(1) obtain k inp2 where k: "scans [value_string k, name_separator] inp = Some inp2" "scan inp2 = (t, inp')"
          "states' = False # states" "sax' = sax_key k (start_object sax)" "t \<noteq> end_of_input \<longrightarrow> length inp' < length inp"
          by (rule read_key)
        have "t \<noteq> end_of_input" using p(2) loop_end by auto
        then have l: "length inp' < length inp" using k(5) by blast
        have "read_tree (False # states) t inp' (sax_key k (start_object sax)) v" using less.hyps [OF l] p(2) k(3,4) by blast
        then obtain u rest where u: "well_formed u" "scans (tree_tokens u) inp2 = Some rest" "length rest \<le> length inp'"
          "after_value (False # states) rest (handle_value (tree_value u) (sax_key k (start_object sax))) = Some v"
          using k(2) by (rule read_treeE)
        obtain ms rest' where ms: "\<forall>(k, t)\<in>set ms. well_formed t"
          "scans (concat (map (\<lambda>(k, t). value_separator # value_string k # name_separator # tree_tokens t) ms) @ [end_object]) rest = Some rest'"
          "after_value states rest' (handle_value (JObject (foldl (\<lambda>m (k, t). put_member k (tree_value t) m) (put_member k (tree_value u) []) ms)) sax) = Some v"
          using read_members [OF less.hyps, of "length inp" rest "handle_value (tree_value u) (sax_key k (start_object sax))"
              "put_member k (tree_value u) []" k "ref_stack sax" states] u(3,4) l
          by (auto simp: start_object_def handle_member)
        show ?thesis
          by (rule read_treeI [where t = "Tree_object ((k, u) # ms)" and rest = rest'
              and toks = "[value_string k, name_separator] @ tree_tokens u
                @ concat (map (\<lambda>(k, t). value_separator # value_string k # name_separator # tree_tokens t) ms) @ [end_object]"])
            (use tok k(1) u ms in \<open>auto simp: scans_append [of "tree_tokens u"] scans_append [of "[value_string k, name_separator]"] split: prod.splits if_splits\<close>)
      qed
    qed
  qed
qed

lemma json_parse_iff:
  "json_parse inp = Some v \<longleftrightarrow>
     (\<exists>body t rest. skip_bom inp = Some body \<and> well_formed t \<and> scans (tree_tokens t) body = Some rest \<and> tree_value t = v)"
proof -
  let ?sax = "\<lparr>ref_stack = [], sax_root = JNull\<rparr> :: json_sax_dom_parser"
  have root: "after_value [] rest (handle_value w ?sax) = Some w" for rest w
    by (simp add: after_root handle_value_def)
  have error: "sax_loop False [] parse_error inp ?sax = None" by (simp add: loop_token parse_token_def)
  have "sax_loop False [] tok rest ?sax = Some v \<longleftrightarrow>
      (\<exists>t rest. well_formed t \<and> scans (tree_tokens t) body = Some rest \<and> tree_value t = v)"
    if "scan body = (tok, rest)" for body tok rest
  proof
    assume "sax_loop False [] tok rest ?sax = Some v"
    then have "read_tree [] tok rest ?sax v" by (rule read_tree)
    from this that show "\<exists>t rest. well_formed t \<and> scans (tree_tokens t) body = Some rest \<and> tree_value t = v"
      by (rule read_treeE) (use root in auto)
  next
    assume "\<exists>t rest. well_formed t \<and> scans (tree_tokens t) body = Some rest \<and> tree_value t = v"
    then obtain t rest' where t: "well_formed t" "scans (tree_tokens t) body = Some rest'" "tree_value t = v" by blast
    from readsD [OF reads_tree [OF t(1)] t(1,2)] show "sax_loop False [] tok rest ?sax = Some v"
      using that t(3) root by auto
  qed
  then show ?thesis by (auto simp: json_parse_def first_token_def error split: option.splits prod.splits)
qed

end
