(* ===== verification/Json_Utf8.thy ===== *)
theory Json_Utf8
  imports Json_Lexer
begin

text \<open>
  The strings of the lexer are UTF-8: its table of byte ranges describes the bytes of the Unicode scalar values, and what
  it returns for a string is a sequence of them.
\<close>

section \<open>UTF-8\<close>

text \<open>A Unicode scalar value and its bytes, by arithmetic.\<close>

definition scalar :: "nat \<Rightarrow> bool" where
  "scalar cp \<longleftrightarrow> cp < 0xD800 \<or> 0xE000 \<le> cp \<and> cp < 0x110000"

definition utf8 :: "nat \<Rightarrow> bstring" where
  "utf8 cp = map of_nat
     (if cp < 0x80 then [cp]
      else if cp < 0x800 then [0xC0 + cp div 64, 0x80 + cp mod 64]
      else if cp < 0x10000 then [0xE0 + cp div 64 div 64, 0x80 + cp div 64 mod 64, 0x80 + cp mod 64]
      else [0xF0 + cp div 64 div 64 div 64, 0x80 + cp div 64 div 64 mod 64, 0x80 + cp div 64 mod 64, 0x80 + cp mod 64])"

definition utf8_text :: "bstring \<Rightarrow> bool" where
  "utf8_text s \<longleftrightarrow> (\<exists>cps. (\<forall>cp\<in>set cps. scalar cp) \<and> s = concat (map utf8 cps))"

lemma utf8_text_Nil [simp]: "utf8_text []"
  unfolding utf8_text_def by (rule exI [of _ "[]"]) simp

lemma utf8_text_append: "utf8_text s \<Longrightarrow> utf8_text t \<Longrightarrow> utf8_text (s @ t)"
  unfolding utf8_text_def by (metis concat_append map_append UnE set_append)

lemma utf8_text_one: "scalar cp \<Longrightarrow> utf8_text (utf8 cp)"
  unfolding utf8_text_def by (rule exI [of _ "[cp]"]) simp

lemma utf8_text_ascii: "c < 0x80 \<Longrightarrow> utf8_text [c]"
  using utf8_text_one [of "unat c"] by (simp add: scalar_def utf8_def word_less_nat_alt)

lemma unat_byte: "n < 256 \<Longrightarrow> unat (of_nat n :: byte) = n"
  by (simp add: unat_of_nat)

lemma unat_byte_add: "numeral w + n < 256 \<Longrightarrow> unat (numeral w + of_nat n :: byte) = numeral w + n"
  using unat_byte [of "numeral w + n"] by simp

text \<open>The bit operations of the code are this arithmetic.\<close>

lemma six_bits: "0x80 OR (of_nat n AND 0x3F) = (of_nat (0x80 + n mod 64) :: byte)"
proof -
  have "(0x3F :: byte) = mask 6" by (simp add: mask_eq_exp_minus_1)
  then have "of_nat n AND (0x3F :: byte) = take_bit 6 (of_nat n)" by (simp only: take_bit_eq_mask)
  moreover have "take_bit 6 n = n mod 64" by (simp add: take_bit_eq_mod)
  ultimately have "of_nat n AND (0x3F :: byte) = of_nat (n mod 64)" by (simp only: take_bit_of_nat)
  moreover have "\<forall>k\<in>set [0..<64]. 0x80 OR (of_nat k :: byte) = of_nat (0x80 + k)" by code_simp
  ultimately show ?thesis by simp
qed

lemma first_byte:
  "k < 32 \<Longrightarrow> 0xC0 OR (of_nat k :: byte) = of_nat (0xC0 + k)"
  "k < 16 \<Longrightarrow> 0xE0 OR (of_nat k :: byte) = of_nat (0xE0 + k)"
  "k < 8 \<Longrightarrow> 0xF0 OR (of_nat k :: byte) = of_nat (0xF0 + k)"
proof -
  have "\<forall>k\<in>set [0..<32]. 0xC0 OR (of_nat k :: byte) = of_nat (0xC0 + k)"
    "\<forall>k\<in>set [0..<16]. 0xE0 OR (of_nat k :: byte) = of_nat (0xE0 + k)"
    "\<forall>k\<in>set [0..<8]. 0xF0 OR (of_nat k :: byte) = of_nat (0xF0 + k)" by code_simp+
  then show "k < 32 \<Longrightarrow> 0xC0 OR (of_nat k :: byte) = of_nat (0xC0 + k)"
    "k < 16 \<Longrightarrow> 0xE0 OR (of_nat k :: byte) = of_nat (0xE0 + k)"
    "k < 8 \<Longrightarrow> 0xF0 OR (of_nat k :: byte) = of_nat (0xF0 + k)" by simp_all
qed

lemma codepoint_utf8:
  assumes "cp < 0x110000"
  shows "codepoint_bytes cp = utf8 cp"
proof -
  have d: "drop_bit 6 cp = cp div 64" "drop_bit 12 cp = cp div 64 div 64" "drop_bit 18 cp = cp div 64 div 64 div 64"
    by (simp_all add: drop_bit_eq_div div_mult2_eq [symmetric])
  show ?thesis
    using assms unfolding codepoint_bytes_def utf8_def d six_bits
    by (simp add: first_byte less_mult_imp_div_less)
qed

text \<open>The bytes that the lexer accepts are those of a code point, and those of a code point are accepted.\<close>

definition in_ranges :: "(byte \<times> byte) list \<Rightarrow> bstring \<Rightarrow> bool" where
  "in_ranges rs bs \<longleftrightarrow> list_all2 (\<lambda>(lo, hi) b. lo \<le> b \<and> b \<le> hi) rs bs"

lemma ranges_loop_iff:
  "ranges_loop rs buf inp = Some (buf', rest) \<longleftrightarrow> (\<exists>bs. in_ranges rs bs \<and> inp = bs @ rest \<and> buf' = buf @ bs)"
proof (induction rs buf inp rule: ranges_loop.induct)
  case (3 lo hi rs buf c inp)
  then show ?case by (auto simp: in_ranges_def list_all2_Cons1)
qed (auto simp: in_ranges_def list_all2_Cons1)

lemma ranges_loop_in: "in_ranges rs bs \<Longrightarrow> ranges_loop rs buf (bs @ inp) = Some (buf @ bs, inp)"
  unfolding ranges_loop_iff by blast

lemma div_64:
  assumes "x = a * 64 + b" "b < (64 :: nat)"
  shows "x div 64 = a" "x mod 64 = b"
  using assms by simp_all

lemma byte_le: "(a :: byte) \<le> b \<longleftrightarrow> unat a \<le> unat b" "(a :: byte) < b \<longleftrightarrow> unat a < unat b"
  "a = b \<longleftrightarrow> unat a = unat b"
  by (auto simp: word_le_nat_alt word_less_nat_alt intro: unsigned_word_eqI)

lemma utf8_2:
  assumes "0xC2 \<le> unat c" "unat c < 0xE0" "0x80 \<le> unat b" "unat b \<le> 0xBF"
  shows "\<exists>cp. scalar cp \<and> [c, b] = utf8 cp"
proof -
  define cp where "cp = (unat c - 0xC0) * 64 + (unat b - 0x80)"
  have d: "cp div 64 = unat c - 0xC0" "cp mod 64 = unat b - 0x80" by (rule div_64 [OF cp_def], use assms in simp)+
  have "0x80 \<le> cp" "cp < 0x800" using assms by (simp_all add: cp_def)
  then show ?thesis using assms d by (intro exI [of _ cp]) (simp add: scalar_def utf8_def)
qed

lemma utf8_3:
  assumes "0xE0 \<le> unat c" "unat c < 0xF0" "0x80 \<le> unat b" "unat b \<le> 0xBF" "0x80 \<le> unat b'" "unat b' \<le> 0xBF"
    and "unat c = 0xE0 \<longrightarrow> 0xA0 \<le> unat b" "unat c = 0xED \<longrightarrow> unat b \<le> 0x9F"
  shows "\<exists>cp. scalar cp \<and> [c, b, b'] = utf8 cp"
proof -
  define h where "h = (unat c - 0xE0) * 64 + (unat b - 0x80)"
  define cp where "cp = h * 64 + (unat b' - 0x80)"
  have d: "h div 64 = unat c - 0xE0" "h mod 64 = unat b - 0x80" "cp div 64 = h" "cp mod 64 = unat b' - 0x80"
    by (rule div_64 [OF h_def], use assms in simp)+ (rule div_64 [OF cp_def], use assms in simp)+
  have "0x20 \<le> h" "h < 0x400" using assms by (auto simp: h_def)
  moreover have "\<not> (0x360 \<le> h \<and> h < 0x380)"
    using assms by (cases "unat c" "0xED :: nat" rule: linorder_cases) (auto simp: h_def)
  ultimately have "0x800 \<le> cp" "cp < 0x10000" "scalar cp" using assms by (auto simp: cp_def scalar_def)
  then show ?thesis using assms d by (intro exI [of _ cp]) (simp add: utf8_def)
qed

lemma utf8_4:
  assumes "0xF0 \<le> unat c" "unat c \<le> 0xF4" "0x80 \<le> unat b" "unat b \<le> 0xBF" "0x80 \<le> unat b'" "unat b' \<le> 0xBF"
    and "0x80 \<le> unat b''" "unat b'' \<le> 0xBF" "unat c = 0xF0 \<longrightarrow> 0x90 \<le> unat b" "unat c = 0xF4 \<longrightarrow> unat b \<le> 0x8F"
  shows "\<exists>cp. scalar cp \<and> [c, b, b', b''] = utf8 cp"
proof -
  define g where "g = (unat c - 0xF0) * 64 + (unat b - 0x80)"
  define h where "h = g * 64 + (unat b' - 0x80)"
  define cp where "cp = h * 64 + (unat b'' - 0x80)"
  have d: "g div 64 = unat c - 0xF0" "g mod 64 = unat b - 0x80" "h div 64 = g" "h mod 64 = unat b' - 0x80"
    "cp div 64 = h" "cp mod 64 = unat b'' - 0x80"
    by (rule div_64 [OF g_def], use assms in simp)+ ((rule div_64 [OF h_def], use assms in simp)+,
      (rule div_64 [OF cp_def], use assms in simp)+)
  have "0x10 \<le> g" "g < 0x110" using assms by (auto simp: g_def)
  then have "0x10000 \<le> cp" "cp < 0x110000" using assms by (auto simp: cp_def h_def)
  then show ?thesis using assms d by (intro exI [of _ cp]) (simp add: scalar_def utf8_def)
qed

lemma ranges_utf8:
  assumes "byte_ranges c = Some rs" "in_ranges rs bs"
  shows "\<exists>cp. scalar cp \<and> c # bs = utf8 cp"
proof -
  consider (one) "c < 0x80" "rs = []" | (two) "0xC2 \<le> c" "c \<le> 0xDF" "rs = [(0x80, 0xBF)]"
    | (three) lo hi where "0xE0 \<le> c" "c \<le> 0xEF" "rs = [(lo, hi), (0x80, 0xBF)]" "0x80 \<le> lo" "hi \<le> 0xBF"
        "c = 0xE0 \<longrightarrow> lo = 0xA0" "c = 0xED \<longrightarrow> hi = 0x9F"
    | (four) lo hi where "0xF0 \<le> c" "c \<le> 0xF4" "rs = [(lo, hi), (0x80, 0xBF), (0x80, 0xBF)]" "0x80 \<le> lo" "hi \<le> 0xBF"
        "c = 0xF0 \<longrightarrow> lo = 0x90" "c = 0xF4 \<longrightarrow> hi = 0x8F"
    using assms(1) by (fastforce simp: byte_ranges_def byte_le split: if_splits)
  then show ?thesis
  proof cases
    case one
    then show ?thesis using assms(2) by (intro exI [of _ "unat c"]) (simp add: in_ranges_def scalar_def utf8_def byte_le)
  next
    case two
    then show ?thesis using assms(2) utf8_2 [of c] by (auto simp: in_ranges_def list_all2_Cons1 byte_le)
  next
    case three
    then obtain b b' where "bs = [b, b']" "lo \<le> b" "b \<le> hi" "0x80 \<le> b'" "b' \<le> 0xBF"
      using assms(2) by (auto simp: in_ranges_def list_all2_Cons1)
    then show ?thesis using three utf8_3 [of c b b'] by (auto simp: byte_le)
  next
    case four
    then obtain b b' b'' where "bs = [b, b', b'']" "lo \<le> b" "b \<le> hi" "0x80 \<le> b'" "b' \<le> 0xBF" "0x80 \<le> b''" "b'' \<le> 0xBF"
      using assms(2) by (auto simp: in_ranges_def list_all2_Cons1)
    then show ?thesis using four utf8_4 [of c b b' b''] by (auto simp: byte_le)
  qed
qed

lemma utf8_ranges:
  assumes "scalar cp" "0x20 \<le> cp"
  shows "\<exists>c rs bs. utf8 cp = c # bs \<and> byte_ranges c = Some rs \<and> in_ranges rs bs"
proof -
  have I: ?thesis if "utf8 cp = c # bs" "byte_ranges c = Some rs" "in_ranges rs bs" for c bs rs using that by blast
  have m: "k mod 64 < 64" for k :: nat by simp
  consider "cp < 0x80" | "0x80 \<le> cp" "cp < 0x800" | "0x800 \<le> cp" "cp < 0x10000" | "0x10000 \<le> cp" by linarith
  then show ?thesis
  proof cases
    case 1
    then show ?thesis
      using assms by (intro exI [of _ "of_nat cp"] exI [of _ "[]"]) (simp add: utf8_def byte_ranges_def byte_le unat_byte unat_byte_add in_ranges_def)
  next
    case 2
    define g where "g = cp div 64"
    have g: "2 \<le> g" "g < 32" using 2 by (auto simp: g_def less_mult_imp_div_less)
    have u: "utf8 cp = [of_nat (0xC0 + g), of_nat (0x80 + cp mod 64)]" using 2 by (simp add: utf8_def g_def)
    have b: "byte_ranges (of_nat (0xC0 + g)) = Some [(0x80, 0xBF)]" using g by (auto simp: byte_ranges_def byte_le unat_byte unat_byte_add)
    show ?thesis by (rule I [OF u b]) (use m [of cp] in \<open>auto simp: in_ranges_def byte_le unat_byte unat_byte_add\<close>)
  next
    case 3
    define g r where "g = cp div 64 div 64" and "r = cp div 64 mod 64"
    have "cp div 64 = g * 64 + r" "r < 64" by (simp_all add: g_def r_def)
    moreover have "0x20 \<le> cp div 64" "cp div 64 < 0x400" "\<not> (0x360 \<le> cp div 64 \<and> cp div 64 < 0x380)"
      using 3 assms(1) by (auto simp: scalar_def)
    ultimately have g: "g < 16" "g = 0 \<longrightarrow> 0x20 \<le> r" "g = 13 \<longrightarrow> r < 0x20" "r < 64" by auto
    have u: "utf8 cp = [of_nat (0xE0 + g), of_nat (0x80 + r), of_nat (0x80 + cp mod 64)]"
      using 3 by (simp add: utf8_def g_def r_def)
    have b: "byte_ranges (of_nat (0xE0 + g)) = Some [if g = 0 then (0xA0, 0xBF) else if g = 13 then (0x80, 0x9F) else (0x80, 0xBF), (0x80, 0xBF)]"
      using g(1) by (auto simp: byte_ranges_def byte_le unat_byte unat_byte_add)
    show ?thesis by (rule I [OF u b]) (use g m [of cp] in \<open>auto simp: in_ranges_def byte_le unat_byte unat_byte_add\<close>)
  next
    case 4
    define g r where "g = cp div 64 div 64 div 64" and "r = cp div 64 div 64 mod 64"
    have "cp div 64 div 64 = g * 64 + r" "r < 64" by (simp_all add: g_def r_def)
    moreover have "0x10 \<le> cp div 64 div 64" "cp div 64 div 64 < 0x110"
      using 4 assms(1) by (auto simp: scalar_def)
    ultimately have g: "g < 5" "g = 0 \<longrightarrow> 0x10 \<le> r" "g = 4 \<longrightarrow> r < 0x10" "r < 64" by auto
    have u: "utf8 cp = [of_nat (0xF0 + g), of_nat (0x80 + r), of_nat (0x80 + cp div 64 mod 64), of_nat (0x80 + cp mod 64)]"
      using 4 by (simp add: utf8_def g_def r_def)
    have b: "byte_ranges (of_nat (0xF0 + g)) = Some [if g = 0 then (0x90, 0xBF) else if g = 4 then (0x80, 0x8F) else (0x80, 0xBF),
        (0x80, 0xBF), (0x80, 0xBF)]"
      using g(1) by (auto simp: byte_ranges_def byte_le unat_byte unat_byte_add)
    show ?thesis by (rule I [OF u b]) (use g m [of cp] m [of "cp div 64"] in \<open>auto simp: in_ranges_def byte_le unat_byte unat_byte_add\<close>)
  qed
qed

section \<open>Strings\<close>

lemma codepoint_loop_step:
  "codepoint_loop (f # fs) cp inp = Some r \<longleftrightarrow>
     (\<exists>c d inp'. inp = c # inp' \<and> hex_digit c = Some d \<and> codepoint_loop fs (cp + push_bit f d) inp' = Some r)"
  by (cases inp) (auto split: option.splits)

lemma hex_digit_bound: "hex_digit c = Some d \<Longrightarrow> d < 16"
  by (auto simp: hex_digit_def byte_le split: if_splits)

lemma get_codepoint_bound: "get_codepoint inp = Some (cp, rest) \<Longrightarrow> cp < 0x10000"
  by (auto simp: get_codepoint_def codepoint_loop_step push_bit_eq_mult dest!: hex_digit_bound)

lemma unicode_escape_utf8:
  assumes "unicode_escape inp = Some (bs, rest)"
  shows "utf8_text bs"
proof -
  obtain cp1 inp1 where 1: "get_codepoint inp = Some (cp1, inp1)"
    using assms by (auto simp: unicode_escape_def split: option.splits)
  note b1 = get_codepoint_bound [OF 1]
  consider (pair) cp2 inp2 inp3 where "0xD800 \<le> cp1" "cp1 \<le> 0xDBFF" "get_codepoint inp2 = Some (cp2, inp3)"
      "0xDC00 \<le> cp2" "cp2 \<le> 0xDFFF" "bs = codepoint_bytes (push_bit 10 cp1 + cp2 - 0x35FDC00)"
    | (single) "scalar cp1" "bs = codepoint_bytes cp1"
    using assms 1 b1 by (auto simp: unicode_escape_def scalar_def split: if_splits list.splits option.splits)
  then show ?thesis
  proof cases
    case pair
    then have "0x10000 \<le> push_bit 10 cp1 + cp2 - 0x35FDC00" "push_bit 10 cp1 + cp2 - 0x35FDC00 < 0x110000"
      by (simp_all add: push_bit_eq_mult)
    then show ?thesis unfolding pair(6) by (subst codepoint_utf8) (auto intro: utf8_text_one simp: scalar_def)
  next
    case single
    then show ?thesis by (subst single(2), subst codepoint_utf8) (auto intro: utf8_text_one simp: scalar_def)
  qed
qed

lemma scan_escape_utf8: "scan_escape inp = Some (bs, rest) \<Longrightarrow> utf8_text bs"
  by (auto simp: scan_escape_def escape_char_def unicode_escape_utf8 split: list.splits if_splits option.splits
      intro!: utf8_text_ascii)

lemma scan_string_utf8: "scan_string buf inp = Some (s, rest) \<Longrightarrow> utf8_text buf \<Longrightarrow> utf8_text s"
proof (induction buf inp rule: scan_string.induct)
  case (2 buf c inp)
  consider (quote) "c = 0x22" | (escape) bs inp' where "c \<noteq> 0x22" "c = 0x5C" "scan_escape inp = Some (bs, inp')"
    | (plain) rs bs inp' where "c \<noteq> 0x22" "c \<noteq> 0x5C" "byte_ranges c = Some rs" "in_ranges rs bs"
        "next_byte_in_range rs c buf inp = Some (buf @ c # bs, inp')"
    using 2(3) by (auto simp: next_byte_in_range_def ranges_loop_iff split: if_splits option.splits)
  then show ?case
  proof cases
    case quote
    then show ?thesis using 2(3,4) by simp
  next
    case escape
    have "utf8_text (buf @ bs)" using 2(4) scan_escape_utf8 [OF escape(3)] by (rule utf8_text_append)
    then show ?thesis using 2(1) [OF escape(1,2,3) refl] 2(3) escape by simp
  next
    case plain
    obtain cp where "scalar cp" "c # bs = utf8 cp" using ranges_utf8 [OF plain(3,4)] by blast
    then have "utf8_text (buf @ c # bs)" using 2(4) utf8_text_append utf8_text_one by metis
    then show ?thesis using 2(2) [OF plain(1,2,3) plain(5) refl] 2(3) plain by simp
  qed
qed simp

text \<open>A string as a writer quotes it: only what has to be is escaped.\<close>

definition hex_char :: "nat \<Rightarrow> byte" where
  "hex_char n = of_nat (if n < 10 then 0x30 + n else 0x57 + n)"

definition quote_byte :: "byte \<Rightarrow> bstring" where
  "quote_byte c =
     (if c = 0x22 \<or> c = 0x5C then [0x5C, c]
      else if c < 0x20 then [0x5C, 0x75, 0x30, 0x30, hex_char (unat c div 16), hex_char (unat c mod 16)]
      else [c])"

definition json_quote :: "bstring \<Rightarrow> bstring" where
  "json_quote s = 0x22 # concat (map quote_byte s) @ [0x22]"

lemma hex_digit_char: "n < 16 \<Longrightarrow> hex_digit (hex_char n) = Some n"
  by (auto simp: hex_digit_def hex_char_def byte_le unat_byte unat_byte_add)

lemma quote_plain: "0x80 \<le> c \<Longrightarrow> quote_byte c = [c]"
  by (auto simp: quote_byte_def byte_le)

lemma quote_ranges: "in_ranges rs bs \<Longrightarrow> \<forall>(lo, hi)\<in>set rs. 0x80 \<le> lo \<Longrightarrow> concat (map quote_byte bs) = bs"
  unfolding in_ranges_def by (induction rs bs rule: list_all2_induct) (auto simp: quote_plain)

lemma byte_ranges_high: "byte_ranges c = Some rs \<Longrightarrow> \<forall>(lo, hi)\<in>set rs. 0x80 \<le> lo"
  by (auto simp: byte_ranges_def split: if_splits)

lemma scan_quoted_control:
  assumes "c < 0x20"
  shows "scan_string buf (quote_byte c @ inp) = scan_string (buf @ [c]) inp"
proof -
  have n: "unat c < 32" using assms by (simp add: byte_le)
  then have d: "unat c div 16 < 16" "unat c mod 16 < 16" by (simp_all add: div_less_dividend less_mult_imp_div_less)
  have "hex_digit 0x30 = Some 0" by (simp add: hex_digit_def)
  then have "get_codepoint (0x30 # 0x30 # hex_char (unat c div 16) # hex_char (unat c mod 16) # inp) = Some (unat c, inp)"
    using d by (simp add: get_codepoint_def hex_digit_char push_bit_eq_mult)
  then have "scan_escape (0x75 # 0x30 # 0x30 # hex_char (unat c div 16) # hex_char (unat c mod 16) # inp) = Some ([c], inp)"
    using n by (simp add: scan_escape_def unicode_escape_def codepoint_bytes_def)
  moreover have "quote_byte c = [0x5C, 0x75, 0x30, 0x30, hex_char (unat c div 16), hex_char (unat c mod 16)]"
    using assms by (auto simp: quote_byte_def)
  ultimately show ?thesis by simp
qed

lemma utf8_first:
  assumes "scalar cp" "utf8 cp = c # bs"
  shows "if cp < 0x80 then c = of_nat cp else 0x80 \<le> c"
proof -
  have "cp div 64 < 32" if "cp < 0x800" using that by (simp add: less_mult_imp_div_less)
  moreover have "cp div 64 div 64 < 16" if "cp < 0x10000" using that by (simp add: less_mult_imp_div_less)
  moreover have "cp div 64 div 64 div 64 < 5" using assms(1) by (auto simp: scalar_def less_mult_imp_div_less)
  ultimately show ?thesis using assms(2) by (auto simp: utf8_def byte_le(1) unat_byte_add split: if_splits)
qed

lemma scan_quoted_char:
  assumes "scalar cp"
  shows "scan_string buf (concat (map quote_byte (utf8 cp)) @ inp) = scan_string (buf @ utf8 cp) inp"
proof -
  consider (control) "cp < 0x20" | (special) "cp = 0x22 \<or> cp = 0x5C" | (plain) "0x20 \<le> cp" "cp \<noteq> 0x22" "cp \<noteq> 0x5C" by linarith
  then show ?thesis
  proof cases
    case control
    then have "utf8 cp = [of_nat cp]" "(of_nat cp :: byte) < 0x20" by (simp_all add: utf8_def byte_le unat_byte)
    then show ?thesis using scan_quoted_control by (simp only: list.map concat.simps append_Nil2)
  next
    case special
    then have "utf8 cp = [of_nat cp]" "scan_escape (of_nat cp # inp) = Some ([of_nat cp], inp)"
        "quote_byte (of_nat cp) = [0x5C, of_nat cp]"
      by (auto simp: utf8_def quote_byte_def scan_escape_def escape_char_def)
    then show ?thesis by simp
  next
    case plain
    obtain c rs bs where u: "utf8 cp = c # bs" "byte_ranges c = Some rs" "in_ranges rs bs"
      using utf8_ranges [OF assms plain(1)] by blast
    have q: "concat (map quote_byte bs) = bs" by (rule quote_ranges [OF u(3) byte_ranges_high [OF u(2)]])
    have "unat c = cp \<or> 0x80 \<le> unat c"
      using utf8_first [OF assms u(1)] by (auto simp: byte_le(1) unat_byte split: if_splits)
    then have c: "c \<noteq> 0x22" "c \<noteq> 0x5C" "quote_byte c = [c]" using plain by (auto simp: quote_byte_def byte_le)
    have "next_byte_in_range rs c buf (bs @ inp) = Some (buf @ c # bs, inp)"
      by (simp add: next_byte_in_range_def ranges_loop_in [OF u(3)])
    then have "scan_string buf (c # bs @ inp) = scan_string (buf @ c # bs) inp" using c u(2) by simp
    then show ?thesis using c(3) q by (simp only: u(1) list.map concat.simps append.simps)
  qed
qed

lemma scan_quoted:
  assumes "utf8_text s"
  shows "scan_string buf (concat (map quote_byte s) @ 0x22 # inp) = Some (buf @ s, inp)"
proof -
  obtain cps where "\<forall>cp\<in>set cps. scalar cp" "s = concat (map utf8 cps)" using assms by (auto simp: utf8_text_def)
  then show ?thesis
  proof (induction cps arbitrary: s buf)
    case (Cons cp cps)
    then show ?case using scan_quoted_char [of cp] by simp
  qed simp
qed

end
