(* ===== verification/Json_Text.thy ===== *)
theory Json_Text
  imports Json_Correct Json_Utf8
begin

text \<open>
  The text of a value, as a writer without spaces produces it, is read back; and what is read has strings in UTF-8 only.
\<close>

section \<open>Numbers\<close>

fun decimal :: "nat \<Rightarrow> bstring" where
  "decimal n = (if n < 10 then [of_nat (0x30 + n)] else decimal (n div 10) @ [of_nat (0x30 + n mod 10)])"

declare decimal.simps [simp del]

lemma digit_char: "d < 10 \<Longrightarrow> is_digit (of_nat (0x30 + d)) \<and> unat (of_nat (0x30 + d) :: byte) = 0x30 + d"
  by (simp add: is_digit_def byte_le unat_byte_add)

lemma decimal_digits: "\<forall>c\<in>set (decimal n). is_digit c"
proof (induction n rule: decimal.induct)
  case (1 n)
  then show ?case using digit_char [of n] digit_char [of "n mod 10"] by (subst decimal.simps) simp
qed

lemma decimal_value: "digits_value (decimal n) = n"
proof (induction n rule: decimal.induct)
  case (1 n)
  then show ?case
    using digit_char [of n] digit_char [of "n mod 10"] by (subst decimal.simps) (simp add: digits_value_def)
qed

lemma decimal_first: "\<exists>c ds. decimal n = c # ds \<and> (c = 0x30 \<longleftrightarrow> n = 0) \<and> (c = 0x30 \<longrightarrow> ds = [])"
proof (induction n rule: decimal.induct)
  case (1 n)
  show ?case
  proof (cases "n < 10")
    case True
    then have "(of_nat (0x30 + n) :: byte) = 0x30 \<longleftrightarrow> n = 0" using digit_char [of n] unfolding byte_le(3) by simp
    then show ?thesis using True by (subst decimal.simps) simp
  next
    case False
    moreover from False obtain c ds where "decimal (n div 10) = c # ds" "c \<noteq> 0x30" using 1 by auto
    ultimately show ?thesis by (subst decimal.simps) auto
  qed
qed

definition number_end :: "bstring \<Rightarrow> bool" where
  "number_end rest \<longleftrightarrow> (case rest of [] \<Rightarrow> True | c # _ \<Rightarrow> \<not> is_digit c \<and> c \<noteq> 0x2E \<and> c \<noteq> 0x65 \<and> c \<noteq> 0x45)"

lemma number_loop_any1:
  "\<forall>c\<in>set ds. is_digit c \<Longrightarrow> number_end rest \<Longrightarrow> number_loop scan_number_any1 t buf (ds @ rest) = Some (t, buf @ ds, rest)"
proof (induction ds arbitrary: buf)
  case Nil
  then show ?case by (cases rest) (auto simp: number_end_def)
qed simp

lemma number_loop_decimal:
  assumes "decimal n = c # ds" "number_end rest"
  shows "number_loop (if c = 0x30 then scan_number_zero else scan_number_any1) t buf (ds @ rest) = Some (t, buf @ ds, rest)"
proof (cases "c = 0x30")
  case True
  then have "ds = []" using decimal_first [of n] assms(1) by auto
  then show ?thesis using True assms(2) by (cases rest) (auto simp: number_end_def)
next
  case False
  then show ?thesis using decimal_digits [of n] assms by (simp add: number_loop_any1)
qed

lemma scan_first:
  assumes "is_digit c \<or> c = 0x2D"
  shows "scan (c # inp) = scan_number c inp"
  using assms by (auto simp: scan_def is_space_def is_digit_def byte_le)

lemma scan_unsigned:
  assumes "n < 2 ^ 64" "number_end rest"
  shows "scan (decimal n @ rest) = (value_unsigned (of_nat n), rest)"
proof -
  obtain c ds where d: "decimal n = c # ds" using decimal_first by blast
  have c: "is_digit c" "c \<noteq> 0x2D" using decimal_digits [of n] d by (auto simp: is_digit_def byte_le)
  have "number_token num_unsigned ([c] @ ds) = value_unsigned (of_nat n)"
    using assms(1) decimal_value [of n] by (simp add: number_token_def d)
  then show ?thesis using c number_loop_decimal [OF d assms(2), of num_unsigned "[c]"] by (simp add: d scan_first scan_number_def)
qed

lemma scan_integer:
  assumes "n \<le> 2 ^ 63" "number_end rest"
  shows "scan (0x2D # decimal n @ rest) = (value_integer (- of_nat n), rest)"
proof -
  obtain c ds where d: "decimal n = c # ds" using decimal_first by blast
  have c: "is_digit c" using decimal_digits [of n] d by auto
  have "number_token num_integer (0x2D # c # ds) = value_integer (- of_nat n)"
    using assms(1) decimal_value [of n] by (simp add: number_token_def d)
  moreover have "number_loop scan_number_minus num_unsigned [0x2D] (c # ds @ rest) = Some (num_integer, 0x2D # c # ds, rest)"
    using c number_loop_decimal [OF d assms(2), of num_integer "[0x2D, c]"] by (auto split: if_splits)
  ultimately show ?thesis by (simp add: d scan_first scan_number_def)
qed

section \<open>The text of a value\<close>

fun json_text :: "json \<Rightarrow> bstring" where
  "json_text JNull = [0x6E, 0x75, 0x6C, 0x6C]"
| "json_text (JBoolean True) = [0x74, 0x72, 0x75, 0x65]"
| "json_text (JBoolean False) = [0x66, 0x61, 0x6C, 0x73, 0x65]"
| "json_text (JInteger n) = 0x2D # decimal (unat (- n))"
| "json_text (JUnsigned n) = decimal (unat n)"
| "json_text JFloat = [0x30, 0x2E, 0x30]"
| "json_text (JString s) = json_quote s"
| "json_text (JArray []) = [0x5B, 0x5D]"
| "json_text (JArray (x # xs)) = 0x5B # json_text x @ concat (map (\<lambda>x. 0x2C # json_text x) xs) @ [0x5D]"
| "json_text (JObject []) = [0x7B, 0x7D]"
| "json_text (JObject ((k, x) # ms)) =
     0x7B # (json_quote k @ 0x3A # json_text x) @ concat (map (\<lambda>(k, x). 0x2C # json_quote k @ 0x3A # json_text x) ms) @ [0x7D]"

text \<open>Values that the library can hold: strings in UTF-8, names in order, numbers of \<open>JInteger\<close> not above zero.\<close>

fun printable :: "json \<Rightarrow> bool" where
  "printable (JInteger n) \<longleftrightarrow> unat (- n) \<le> 2 ^ 63"
| "printable (JString s) \<longleftrightarrow> utf8_text s"
| "printable (JArray xs) \<longleftrightarrow> (\<forall>x\<in>set xs. printable x)"
| "printable (JObject ms) \<longleftrightarrow> sorted_wrt (<) (map fst ms) \<and> (\<forall>(k, x)\<in>set ms. utf8_text k \<and> printable x)"
| "printable _ \<longleftrightarrow> True"

fun json_tree :: "json \<Rightarrow> json_tree" where
  "json_tree JNull = Leaf literal_null"
| "json_tree (JBoolean b) = Leaf (if b then literal_true else literal_false)"
| "json_tree (JInteger n) = Leaf (value_integer n)"
| "json_tree (JUnsigned n) = Leaf (value_unsigned n)"
| "json_tree JFloat = Leaf (value_float True)"
| "json_tree (JString s) = Leaf (value_string s)"
| "json_tree (JArray xs) = Tree_array (map json_tree xs)"
| "json_tree (JObject ms) = Tree_object (map (\<lambda>(k, x). (k, json_tree x)) ms)"

lemma put_last: "\<forall>k'\<in>fst ` set ms. k' < k \<Longrightarrow> put_member k v ms = ms @ [(k, v)]"
  by (induction ms) fastforce+

lemma put_sorted:
  "sorted_wrt (<) (map fst (ms @ ns)) \<Longrightarrow> foldl (\<lambda>m (k, x). put_member k x m) ms ns = ms @ ns"
proof (induction ns arbitrary: ms)
  case (Cons kx ns)
  obtain k x where kx: "kx = (k, x)" by fastforce
  have "\<forall>k'\<in>fst ` set ms. k' < k" using Cons.prems by (auto simp: kx sorted_wrt_append)
  then show ?case using Cons.IH [of "ms @ [(k, x)]"] Cons.prems by (simp add: kx put_last)
qed simp

lemma foldl_members:
  "foldl (\<lambda>m (k, t). put_member k (tree_value t) m) a (map (\<lambda>(k, x). (k, f x)) ms)
    = foldl (\<lambda>m (k, x). put_member k x m) a (map (\<lambda>(k, x). (k, tree_value (f x))) ms)"
  by (induction ms arbitrary: a) auto

lemma json_tree_ok: "printable j \<Longrightarrow> well_formed (json_tree j) \<and> tree_value (json_tree j) = j"
proof (induction j rule: json_tree.induct)
  case (7 xs)
  then show ?case by (auto intro: map_idI)
next
  case (8 ms)
  have "well_formed (json_tree x) \<and> tree_value (json_tree x) = x" if "(k, x) \<in> set ms" for k x
    using 8(1) [OF that refl] 8(2) that by auto
  then have "map (\<lambda>(k, x). (k, tree_value (json_tree x))) ms = ms" "\<forall>(k, t)\<in>set (map (\<lambda>(k, x). (k, json_tree x)) ms). well_formed t"
    by (auto intro!: map_idI)
  then show ?case using 8(2) put_sorted [of "[]" ms] by (simp add: foldl_members del: foldl_map)
qed auto

section \<open>Round trip\<close>

lemma scan_quote: "utf8_text s \<Longrightarrow> scan (json_quote s @ rest) = (value_string s, rest)"
  using scan_quoted [of s "[]" rest] by (simp add: scan_def is_space_def json_quote_def)

lemma scan_punctuation:
  "scan (0x5B # inp) = (begin_array, inp)" "scan (0x5D # inp) = (end_array, inp)"
  "scan (0x7B # inp) = (begin_object, inp)" "scan (0x7D # inp) = (end_object, inp)"
  "scan (0x3A # inp) = (name_separator, inp)" "scan (0x2C # inp) = (value_separator, inp)"
  by (simp_all add: scan_def is_space_def)

lemma scan_literals:
  "scan (0x6E # 0x75 # 0x6C # 0x6C # inp) = (literal_null, inp)"
  "scan (0x74 # 0x72 # 0x75 # 0x65 # inp) = (literal_true, inp)"
  "scan (0x66 # 0x61 # 0x6C # 0x73 # 0x65 # inp) = (literal_false, inp)"
  by (simp_all add: scan_def is_space_def)

lemma scan_float: "number_end rest \<Longrightarrow> scan (0x30 # 0x2E # 0x30 # rest) = (value_float True, rest)"
  by (cases rest)
    (auto simp: scan_def is_space_def scan_number_def is_digit_def number_end_def number_token_def strtod_finite_def digits_value_def)

lemma number_end_punctuation [simp]:
  "number_end (0x2C # rest)" "number_end (0x5D # rest)" "number_end (0x7D # rest)"
  by (simp_all add: number_end_def is_digit_def)

definition scans_text :: "json \<Rightarrow> bool" where
  "scans_text j \<longleftrightarrow> (\<forall>rest. number_end rest \<longrightarrow> scans (tree_tokens (json_tree j)) (json_text j @ rest) = Some rest)"

lemma scans_elements:
  "\<forall>x\<in>set xs. scans_text x \<Longrightarrow>
   scans (concat (map (\<lambda>x. value_separator # tree_tokens (json_tree x)) xs) @ [end_array])
     (concat (map (\<lambda>x. 0x2C # json_text x) xs) @ 0x5D # rest) = Some rest"
proof (induction xs)
  case (Cons x xs)
  have "number_end (concat (map (\<lambda>x. 0x2C # json_text x) xs) @ 0x5D # rest)" by (cases xs) simp_all
  then show ?case using Cons
    by (simp add: scan_punctuation scans_append [of "tree_tokens (json_tree x)"] scans_text_def)
qed (simp add: scan_punctuation)

lemma scans_members:
  "\<forall>(k, x)\<in>set ms. scans_text x \<and> utf8_text k \<Longrightarrow>
   scans (concat (map (\<lambda>(k, x). value_separator # value_string k # name_separator # tree_tokens (json_tree x)) ms) @ [end_object])
     (concat (map (\<lambda>(k, x). 0x2C # json_quote k @ 0x3A # json_text x) ms) @ 0x7D # rest) = Some rest"
proof (induction ms)
  case (Cons kx ms)
  obtain k x where kx: "kx = (k, x)" by fastforce
  have "number_end (concat (map (\<lambda>(k, x). 0x2C # json_quote k @ 0x3A # json_text x) ms) @ 0x7D # rest)"
    by (cases ms) (auto simp: kx)
  then show ?case using Cons
    by (simp add: kx scan_punctuation scan_quote scans_append [of "tree_tokens (json_tree x)"] scans_text_def)
qed (simp add: scan_punctuation)

lemma scans_json_text: "printable j \<Longrightarrow> scans_text j"
proof (induction j rule: json_text.induct)
  case (4 n)
  then show ?case by (simp add: scans_text_def scan_integer)
next
  case (5 n)
  have "unat n < 2 ^ 64" using unsigned_less [of n, where 'a = nat] by simp
  then show ?case by (simp add: scans_text_def scan_unsigned)
next
  case (9 x xs)
  have x: "scans_text x" "\<forall>y\<in>set xs. scans_text y" using 9 by auto
  have "number_end (concat (map (\<lambda>x. 0x2C # json_text x) xs) @ 0x5D # rest)" for rest by (cases xs) simp_all
  then show ?case
    using x scans_elements [OF x(2)]
    by (simp add: scans_text_def [of "JArray (x # xs)"] scan_punctuation scans_append [of "tree_tokens (json_tree x)"]
        scans_text_def [of x] comp_def)
next
  case (11 k x ms)
  have x: "scans_text x" "\<forall>(k, y)\<in>set ms. scans_text y \<and> utf8_text k" "utf8_text k" using 11 by auto
  have "number_end (concat (map (\<lambda>(k, x). 0x2C # json_quote k @ 0x3A # json_text x) ms) @ 0x7D # rest)" for rest
    by (cases ms) auto
  then show ?case
    using x scans_members [OF x(2)]
    by (simp add: scans_text_def [of "JObject ((k, x) # ms)"] scan_punctuation scan_quote scans_append [of "tree_tokens (json_tree x)"]
        scans_text_def [of x] comp_def case_prod_unfold)
qed (simp_all add: scans_text_def scan_punctuation scan_literals scan_float scan_quote)

lemma skip_bom_text: "skip_bom (json_text j @ rest) = Some (json_text j @ rest)"
proof -
  have "\<exists>c cs. json_text j = c # cs \<and> c \<noteq> 0xEF"
  proof (cases j rule: json_text.cases)
    case (5 n)
    then show ?thesis using decimal_first [of "unat n"] decimal_digits [of "unat n"] by (auto simp: is_digit_def byte_le)
  qed (auto simp: json_quote_def)
  then show ?thesis by (auto simp: skip_bom_def)
qed

lemma parse_json_text:
  assumes "printable j" "number_end rest"
  shows "json_parse (json_text j @ rest) = Some j"
  using scans_json_text [OF assms(1)] json_tree_ok [OF assms(1)] assms(2)
  by (auto simp: json_parse_iff skip_bom_text scans_text_def)

section \<open>What is read is UTF-8\<close>

fun json_strings :: "json \<Rightarrow> bstring set" where
  "json_strings (JString s) = {s}"
| "json_strings (JArray xs) = (\<Union>x\<in>set xs. json_strings x)"
| "json_strings (JObject ms) = (\<Union>(k, x)\<in>set ms. insert k (json_strings x))"
| "json_strings _ = {}"

lemma scan_literal_result: "scan_literal cs t inp = (t', rest) \<Longrightarrow> t' = t \<or> t' = parse_error"
  by (induction cs t inp rule: scan_literal.induct) (auto split: if_splits)

lemma scan_utf8: "scan inp = (value_string s, rest) \<Longrightarrow> utf8_text s"
  by (auto simp: scan_def scan_number_def number_token_def dest!: scan_string_utf8 scan_literal_result split: list.splits if_splits option.splits)

lemma scans_utf8: "scans ts inp = Some rest \<Longrightarrow> value_string s \<in> set ts \<Longrightarrow> utf8_text s"
  by (induction ts arbitrary: inp) (auto split: prod.splits if_splits dest: scan_utf8)

lemma put_member_set: "set (put_member k v ms) \<subseteq> insert (k, v) (set ms)"
  by (induction ms) (auto split: if_splits)

lemma foldl_put_set: "set (foldl (\<lambda>m (k, t). put_member k (f t) m) m ms) \<subseteq> set m \<union> {(k, f t) |k t. (k, t) \<in> set ms}"
proof (induction ms arbitrary: m)
  case (Cons kt ms)
  obtain k t where "kt = (k, t)" by fastforce
  then show ?case using Cons.IH [of "put_member k (f t) m"] put_member_set [of k "f t" m] by fastforce
qed simp

lemma tree_strings:
  "well_formed t \<Longrightarrow> s \<in> json_strings (tree_value t) \<Longrightarrow> value_string s \<in> set (tree_tokens t)"
proof (induction t rule: tree_tokens.induct)
  case (1 t)
  then show ?case by (cases t rule: leaf_value.cases) auto
next
  case (3 t ts)
  then show ?case by auto
next
  case (5 k t ms)
  obtain k' v where v: "(k', v) \<in> set (foldl (\<lambda>m (k, t). put_member k (tree_value t) m) [] ((k, t) # ms))"
    "s = k' \<or> s \<in> json_strings v"
    using 5(4) unfolding tree_value.simps json_strings.simps by blast
  then obtain t' where m: "(k', t') \<in> set ((k, t) # ms)" "s = k' \<or> s \<in> json_strings (tree_value t')"
    using subsetD [OF foldl_put_set v(1)] by auto
  show ?case
  proof (cases "(k', t') = (k, t)")
    case True
    then show ?thesis using m(2) 5(1,3) by auto
  next
    case False
    then have i: "(k', t') \<in> set ms" using m(1) by auto
    have "s = k' \<or> value_string s \<in> set (tree_tokens t')" using m(2) 5(2) [OF i refl] 5(3) i by auto
    then have "value_string s \<in> set (value_separator # value_string k' # name_separator # tree_tokens t')" by auto
    then show ?thesis using i by (auto intro!: bexI [of _ "(k', t')"])
  qed
qed simp_all

lemma parse_utf8: "json_parse inp = Some v \<Longrightarrow> s \<in> json_strings v \<Longrightarrow> utf8_text s"
  unfolding json_parse_iff using tree_strings scans_utf8 by blast

section \<open>Properties\<close>

text \<open>
  C24. The parser is its grammar: it returns a value exactly when the input, behind an optional byte order mark, begins
  with the tokens of a well-formed tree that denotes the value, where the last of several members of one name
  counts. The loop always ends; what follows the value is ignored.
\<close>

theorem json_parse_grammar:
  "json_parse inp = Some v \<longleftrightarrow>
     (\<exists>body t rest. skip_bom inp = Some body \<and> well_formed t \<and> scans (tree_tokens t) body = Some rest \<and> tree_value t = v)"
  by (rule json_parse_iff)

end
