(* ===== verification/Archiver_Theorems.thy ===== *)
theory Archiver_Theorems
  imports Archiver Json_Text
begin

text \<open>
  What the archiver writes is what the pack reads: the archive of a directory holds the map of its files that
  are not ignored, and a program that loads it gets their contents. The rest says what the configuration
  checks guarantee.
\<close>

section \<open>Packing one file\<close>

lemma archive_at_cong:
  assumes "archive_at v a w path wr es bs M" "m_vfsFile a = Some f"
    and "fv_disk v w' path = fv_disk v w path" "fv_open v w' (handle f) = fv_open v w (handle f)"
    and "fv_rest v w' = fv_rest v w"
  shows "archive_at v a w' path wr es bs M"
  using assms by (auto simp: archive_at_def file_at_def fv_rest_def)

lemma can_read_others:
  assumes "others v path h w w'"
    and "\<And>wr pos. fv_open v w h \<noteq> Some (q, wr, pos)" "\<And>wr pos. fv_open v w' h \<noteq> Some (q, wr, pos)"
  shows "can_read v w' q = can_read v w q"
proof -
  have "fv_open v w' x = fv_open v w x" if "x \<noteq> h" for x
    using assms(1) that unfolding others_def by (metis fun_upd_other)
  then have "fv_open v w' x = Some (q, wr, pos) \<longleftrightarrow> fv_open v w x = Some (q, wr, pos)" for x wr pos
    using assms(2,3) by (cases "x = h") auto
  then have "share_denied v w' q False = share_denied v w q False" by (simp add: share_denied_def)
  then show ?thesis using assms(1) by (simp add: can_read_def others_def fv_rest_def)
qed

text \<open>Opening a file for reading, and closing it again.\<close>

lemma open_read:
  assumes api: "win32_files api v" and disk: "fv_disk v w (c_str name) = Some d" "can_read v w (c_str name)"
    and len: "length d < 2 ^ 32"
  obtains f h w1 w2 where "CVFSFile_Open api name CVFSFile_new w = (True, f, w1)"
    "CVFSFile_GetSize api f w1 = of_nat (length d)" "CVFSFile_Read api (of_nat (length d)) f w1 = (Returns d, f, w2)"
    "m_fileHandle f = Some h" "m_mapHandle f = None" "m_mappedData f = None" "fv_open v w h = None" "fv_maps v w h = None"
    "fv_rest v w1 = fv_rest v w" "fv_rest v w2 = fv_rest v w" "fv_disk v w1 = fv_disk v w" "fv_disk v w2 = fv_disk v w"
    "(fv_open v w1)(h := None) = fv_open v w" "(fv_open v w2)(h := None) = fv_open v w"
proof -
  obtain ok f w1 where r1: "CVFSFile_Open api name CVFSFile_new w = (ok, f, w1)"
    by (cases "CVFSFile_Open api name CVFSFile_new w") auto
  have f: "ok" "file_at v f w1 (c_str name) False 0 d" "fv_disk v w1 = fv_disk v w" "fv_open v w (the (m_fileHandle f)) = None"
    "fv_open v w1 = (fv_open v w)(the (m_fileHandle f) \<mapsto> (c_str name, False, 0))" "fv_rest v w1 = fv_rest v w"
    using Open_outcome [OF api, where name = name and w = w] r1 disk by auto
  have h: "file_ok f \<and> holds v w f w1" by (rule run_Open [OF api holds_new [OF refl refl] r1])
  obtain h where h: "m_fileHandle f = Some h" "m_mapHandle f = None" "m_mappedData f = None" "fv_maps v w h = None"
    using disk_handle [of v w f w1] h f(2) by (auto simp: file_at_def)
  obtain w2 where r2: "CVFSFile_Read api (of_nat (length d)) f w1 = (Returns (slice 0 (unat (of_nat (length d) :: u32)) d), f, w2)"
    "file_at v f w2 (c_str name) False (0 + length (slice 0 (unat (of_nat (length d) :: u32)) d)) d"
    "others v (c_str name) (handle f) w1 w2"
    by (rule file_read [OF api f(2)])
  have "unat (of_nat (length d) :: u32) = length d"
    using len by (simp add: unat_of_nat take_bit_nat_eq_self)
  then have "slice 0 (unat (of_nat (length d) :: u32)) d = d" by (simp add: slice_def)
  moreover have "fv_disk v w2 = fv_disk v w"
  proof
    fix q show "fv_disk v w2 q = fv_disk v w q"
      using r2(2,3) f(3) disk(1) by (cases "q = c_str name") (auto simp: others_def file_at_def)
  qed
  moreover have "(fv_open v w1)(h := None) = fv_open v w" using f(4,5) h(1) by (simp add: fun_upd_idem)
  moreover have "(fv_open v w2)(h := None) = (fv_open v w1)(h := None)" using r2(3) h(1) by (simp add: others_def)
  moreover have "CVFSFile_Open api name CVFSFile_new w = (True, f, w1)" using r1 f(1) by simp
  moreover have "fv_rest v w2 = fv_rest v w" using r2(3) f(6) by (simp add: others_def)
  ultimately show ?thesis using that r2(1) h f(3,4,6) file_size [OF api f(2)] by simp
qed

definition packed_file :: "wstring \<Rightarrow> byte list \<Rightarrow> byte \<Rightarrow> u32 \<Rightarrow> archive_op list" where
  "packed_file name d flags version = (if d = [] then [] else [WriteFile name d flags version])"

lemma pack_file_correct:
  assumes p: "platform_ok p v" and at: "archive_at v a w path True es bs M"
    and disk: "fv_disk v w (c_str file) = Some d" "can_read v w (c_str file)" "c_str file \<noteq> path"
    and op: "list_all op_ok (packed_file name d flags version)"
    and bpb: "unat (ah_bytesPerBlock (ar_header a)) \<le> 2 ^ 30" and small: "length bs + 2 ^ 32 < 2 ^ 62"
  obtains a' w' es' bs' where "pack_file p file name flags version a w = (Returns True, a', w')"
    "archive_at v a' w' path True es' bs' (fold op_effect (packed_file name d flags version) M)"
    "length bs' \<le> length bs + 2 ^ 32" "same_archive v path a w a' w'"
proof -
  have api: "win32_files (pl_api p) v" using p by (simp add: platform_ok_def)
  obtain fa pos where fa: "m_vfsFile a = Some fa" "file_at v fa w path True pos bs"
    using at by (auto simp: archive_at_def)
  let ?n = "of_nat (length d) :: u32"
  have len: "length d \<le> MAX_INPUT" using op by (cases "d = []") (simp_all add: packed_file_def)
  then have len32: "length d < 2 ^ 32" by (simp add: MAX_INPUT_def)
  obtain f h w1 w2 where f: "CVFSFile_Open (pl_api p) file CVFSFile_new w = (True, f, w1)"
    "CVFSFile_GetSize (pl_api p) f w1 = of_nat (length d)" "CVFSFile_Read (pl_api p) ?n f w1 = (Returns d, f, w2)"
    "m_fileHandle f = Some h" "m_mapHandle f = None" "m_mappedData f = None" "fv_open v w h = None" "fv_maps v w h = None"
    "fv_rest v w1 = fv_rest v w" "fv_rest v w2 = fv_rest v w" "fv_disk v w1 = fv_disk v w" "fv_disk v w2 = fv_disk v w"
    "(fv_open v w1)(h := None) = fv_open v w" "(fv_open v w2)(h := None) = fv_open v w"
    by (rule open_read [OF api disk(1,2) len32])
  have ne: "handle fa \<noteq> h" using fa(2) f(7) by (auto simp: file_at_def)
  show ?thesis
  proof (cases "d = []")
    case True
    let ?w' = "snd (CVFSFile_Close (pl_api p) f w1)"
    have "fv_maps v w1 h = None" using f(8) rest_maps [OF f(9)] by simp
    then have w': "fv_disk v ?w' = fv_disk v w" "fv_open v ?w' = fv_open v w" "fv_rest v ?w' = fv_rest v w"
      using Close_disk [OF api f(5,4), of w1] f(6,9,11,13) by simp_all
    have "pack_file p file name flags version a w = (Returns True, a, ?w')"
      using f(1,2) True by (simp add: pack_file_def)
    moreover have "archive_at v a ?w' path True es bs M" by (rule archive_at_cong [OF at fa(1)]) (simp_all add: w')
    moreover have "same_archive v path a w a ?w'" by (simp add: same_archive_def others_def w')
    ultimately show ?thesis using that True by (simp add: packed_file_def)
  next
    case False
    have ok: "GenerateNameIndex name \<noteq> 0" "length (c_str name) < 255"
      using op False by (simp_all add: packed_file_def)
    have n: "unat ?n = length d" using len32 by (simp add: unat_of_nat take_bit_nat_eq_self)
    have n64: "unat (of_nat (length d) :: u64) = length d" using len32 by (simp add: unat_of_nat take_bit_nat_eq_self)
    have nz: "(of_nat (length d) :: u64) \<noteq> 0" "?n \<noteq> 0" using n n64 False by (metis length_0_conv unat_0)+
    have "unat (ucast (of_nat (length d) :: u64) :: u32) = unat ?n"
      unfolding unsigned_ucast_eq n64 using n len32 by (simp add: take_bit_nat_eq_self)
    then have cast: "ucast (of_nat (length d) :: u64) = ?n" by (simp only: word_unat_eq_iff)
    have at2: "archive_at v a w2 path True es bs M"
      by (rule archive_at_cong [OF at fa(1)]) (use f(10,12,14) ne in \<open>auto simp: fun_upd_def fun_eq_iff split: if_splits\<close>)
    obtain a' w3 es' bs' where w3: "CVFSArchive_Write p name d ?n flags version a w2 = (Returns True, a', w3)"
      "archive_at v a' w3 path True es' bs' (store_file (GenerateNameIndex name) (take (unat ?n) d) M)"
      "length bs' < length bs + 2 ^ 32" "same_archive v path a w2 a' w3"
      by (rule Write_correct [OF p at2 ok _ _ bpb small, of ?n d flags version]) (use n len in auto)
    let ?w' = "snd (CVFSFile_Close (pl_api p) f w3)"
    have o3: "others v path (handle fa) w2 w3" and fa': "m_vfsFile a' = Some fa"
      using w3(4) fa(1) by (simp_all add: same_archive_def)
    have rest3: "fv_rest v w3 = fv_rest v w" using o3 f(10) by (simp add: others_def)
    then have "fv_maps v w3 h = None" using f(8) by (simp add: fv_rest_def)
    then have w': "fv_disk v ?w' = fv_disk v w3" "fv_open v ?w' = (fv_open v w3)(h := None)" "fv_rest v ?w' = fv_rest v w3"
      using Close_disk [OF api f(5,4), of w3] f(6) by simp_all
    have "pack_file p file name flags version a w = (Returns True, a', ?w')"
      using f(1-3) nz n n64 cast w3(1) by (simp add: pack_file_def Let_def overwrite_def)
    moreover have "archive_at v a' ?w' path True es' bs' (fold op_effect (packed_file name d flags version) M)"
      using archive_at_cong [OF w3(2) fa', of ?w'] w' ne n False by (simp add: packed_file_def)
    moreover have "others v path (handle fa) w ?w'"
    proof -
      have "(fv_open v w3)(h := None, handle fa := None) = (fv_open v w2)(h := None, handle fa := None)"
        using o3 fun_upd_twist [OF ne] unfolding others_def by metis
      then show ?thesis using o3 w' f(12,14) rest3 by (simp add: others_def)
    qed
    then have "same_archive v path a w a' ?w'" using w3(4) fa(1) by (simp add: same_archive_def)
    ultimately show ?thesis using that w3(3) by (simp add: less_imp_le)
  qed
qed

section \<open>Packing a directory\<close>

text \<open>
  What the archive of a directory has to hold, from the entries of the directory and the disk: every file that is
  not ignored and not empty, under its name in the archive. Later files replace earlier ones of the same name.
\<close>

definition archive_name :: "SArchiveContext \<Rightarrow> wstring \<Rightarrow> wstring" where
  "archive_name pack path = fix_visual (strVisualDirectory pack) @ entry_name pack path"

definition wanted :: "SArchiveContext \<Rightarrow> wstring \<times> bool \<Rightarrow> bool" where
  "wanted pack = (\<lambda>(path, is_directory). \<not> is_directory \<and> \<not> skip_file pack (entry_name pack path))"

definition entry_ops :: "SArchiveContext \<Rightarrow> (wstring \<Rightarrow> byte list option) \<Rightarrow> wstring \<times> bool \<Rightarrow> archive_op list" where
  "entry_ops pack disk e =
     (if wanted pack e
      then packed_file (archive_name pack (fst e)) (the (disk (c_str (fst e)))) (ucast (iType pack)) (iVersion pack)
      else [])"

definition directory_map ::
  "SArchiveContext \<Rightarrow> (wstring \<Rightarrow> byte list option) \<Rightarrow> (wstring \<times> bool) list \<Rightarrow> u32 \<Rightarrow> byte list option" where
  "directory_map pack disk entries = fold op_effect (concat (map (entry_ops pack disk) entries)) Map.empty"

text \<open>A wanted file exists, the program may read it and nobody is writing it, it is not the archive itself, and its name and size are within bounds.\<close>

definition packable :: "'w file_view \<Rightarrow> SArchiveContext \<Rightarrow> wstring \<Rightarrow> 'w \<Rightarrow> wstring \<times> bool \<Rightarrow> bool" where
  "packable v pack path w e \<longleftrightarrow> (wanted pack e \<longrightarrow>
     fv_disk v w (c_str (fst e)) \<noteq> None \<and> can_read v w (c_str (fst e)) \<and> c_str (fst e) \<noteq> path
     \<and> list_all op_ok (entry_ops pack (fv_disk v w) e))"

lemma fix_visual_twice [simp]: "fix_visual (fix_visual s) = fix_visual s"
  by (auto simp: fix_visual_def slashes_def last_map)

lemma entries_keep_pack:
  fixes pack pack' :: SArchiveContext
  assumes "pack' = pack\<lparr>strVisualDirectory := fix_visual (strVisualDirectory pack)\<rparr>"
  shows "entry_name pack' = entry_name pack" "skip_file pack' = skip_file pack" "wanted pack' = wanted pack"
    "archive_name pack' = archive_name pack" "entry_ops pack' = entry_ops pack" "packable v pack' = packable v pack"
proof -
  show n: "entry_name pack' = entry_name pack" "skip_file pack' = skip_file pack"
    by (simp_all add: fun_eq_iff entry_name_def skip_file_def assms)
  then show w: "wanted pack' = wanted pack" by (simp add: fun_eq_iff wanted_def)
  show a: "archive_name pack' = archive_name pack" using n(1) by (simp add: fun_eq_iff archive_name_def assms)
  show e: "entry_ops pack' = entry_ops pack" by (simp add: fun_eq_iff entry_ops_def w a) (simp add: assms)
  show "packable v pack' = packable v pack" by (simp add: fun_eq_iff packable_def w e)
qed

lemma packable_others:
  assumes "packable v pack path w e" "others v path h w w'"
    and "\<And>q wr pos. q \<noteq> path \<Longrightarrow> fv_open v w h \<noteq> Some (q, wr, pos)" "\<And>q wr pos. q \<noteq> path \<Longrightarrow> fv_open v w' h \<noteq> Some (q, wr, pos)"
  shows "packable v pack path w' e \<and> entry_ops pack (fv_disk v w') e = entry_ops pack (fv_disk v w) e"
proof (cases "wanted pack e")
  case True
  then have ne: "c_str (fst e) \<noteq> path" using assms(1) by (simp add: packable_def)
  then have disk: "fv_disk v w' (c_str (fst e)) = fv_disk v w (c_str (fst e))" using assms(2) by (simp add: others_def)
  have "can_read v w' (c_str (fst e)) = can_read v w (c_str (fst e))"
    by (rule can_read_others [OF assms(2) assms(3,4) [OF ne]])
  then show ?thesis using assms(1) disk by (simp add: packable_def entry_ops_def)
qed (simp add: packable_def entry_ops_def)

lemma process_entries_correct:
  assumes p: "platform_ok p v" and at: "archive_at v a w path True es bs M"
    and ok: "list_all (packable v pack path w) entries"
    and bpb: "unat (ah_bytesPerBlock (ar_header a)) \<le> 2 ^ 30" and small: "length bs + length entries * 2 ^ 32 < 2 ^ 62"
  shows "\<exists>pack' a' w' es' bs'. process_entries p entries pack a w = (Returns True, pack', a', w')
    \<and> archive_at v a' w' path True es' bs' (fold op_effect (concat (map (entry_ops pack (fv_disk v w)) entries)) M)
    \<and> same_archive v path a w a' w'"
  using assms(2-)
proof (induction entries arbitrary: pack a w es bs M)
  case Nil
  then show ?case by auto
next
  case (Cons e entries)
  obtain fl is_directory where e: "e = (fl, is_directory)" by (cases e) auto
  let ?pack = "pack\<lparr>strVisualDirectory := fix_visual (strVisualDirectory pack)\<rparr>"
  note same = entries_keep_pack [of ?pack pack, OF refl]
  show ?case
  proof (cases "wanted pack e")
    case False
    have rest: "list_all (packable v q path w) entries" if "packable v q = packable v pack" for q
      using Cons.prems(2) by (simp add: that)
    obtain q where q: "process_entries p (e # entries) pack a w = process_entries p entries q a w"
      "entry_ops q = entry_ops pack" "packable v q = packable v pack"
      using False e by (cases is_directory) (auto simp: wanted_def Let_def same)
    have ops: "entry_ops pack disk e = []" for disk using False by (simp add: entry_ops_def)
    show ?thesis
      using Cons.IH [OF Cons.prems(1) rest [OF q(3)] Cons.prems(3)] Cons.prems(4) q(1,2) ops by auto
  next
    case True
    let ?name = "archive_name pack fl" and ?d = "the (fv_disk v w (c_str fl))"
    have pk: "fv_disk v w (c_str fl) = Some ?d" "can_read v w (c_str fl)" "c_str fl \<noteq> path"
      "list_all op_ok (packed_file ?name ?d (ucast (iType pack)) (iVersion pack))"
      using Cons.prems(2) True e by (auto simp: packable_def entry_ops_def)
    obtain a1 w1 es1 bs1 where r: "pack_file p fl ?name (ucast (iType pack)) (iVersion pack) a w = (Returns True, a1, w1)"
      "archive_at v a1 w1 path True es1 bs1 (fold op_effect (packed_file ?name ?d (ucast (iType pack)) (iVersion pack)) M)"
      "length bs1 \<le> length bs + 2 ^ 32" "same_archive v path a w a1 w1"
      by (rule pack_file_correct [OF p Cons.prems(1) pk Cons.prems(3)]) (use Cons.prems(4) in auto)
    have run: "process_entries p (e # entries) pack a w = process_entries p entries ?pack a1 w1"
      using True e r(1) same(1,2) by (simp add: wanted_def archive_name_def Let_def)
    obtain fa pos pos1 where fa: "m_vfsFile a = Some fa" "fv_open v w (handle fa) = Some (path, True, pos)"
      "fv_open v w1 (handle fa) = Some (path, True, pos1)" and oth: "others v path (handle fa) w w1"
      using Cons.prems(1) r(2,4) by (auto simp: archive_at_def file_at_def same_archive_def)
    have disk: "packable v pack path w1 x \<and> entry_ops pack (fv_disk v w1) x = entry_ops pack (fv_disk v w) x"
      if "x \<in> set entries" for x
      by (rule packable_others [OF _ oth]) (use fa Cons.prems(2) that in \<open>auto simp: list_all_iff\<close>)
    have "list_all (packable v ?pack path w1) entries" using disk by (simp add: list_all_iff same(6))
    moreover have "unat (ah_bytesPerBlock (ar_header a1)) \<le> 2 ^ 30" using r(4) Cons.prems(3) by (simp add: same_archive_def)
    moreover have "length bs1 + length entries * 2 ^ 32 < 2 ^ 62" using Cons.prems(4) r(3) by simp
    ultimately obtain pack' a' w' es' bs' where
      "process_entries p entries ?pack a1 w1 = (Returns True, pack', a', w')"
      "archive_at v a' w' path True es' bs' (fold op_effect (concat (map (entry_ops ?pack (fv_disk v w1)) entries))
          (fold op_effect (packed_file ?name ?d (ucast (iType pack)) (iVersion pack)) M))"
      "same_archive v path a1 w1 a' w'"
      using Cons.IH [OF r(2)] by blast
    moreover have "map (entry_ops ?pack (fv_disk v w1)) entries = map (entry_ops pack (fv_disk v w)) entries"
      using disk by (simp add: same(5))
    moreover have "entry_ops pack (fv_disk v w) e = packed_file ?name ?d (ucast (iType pack)) (iVersion pack)"
      using True e by (simp add: entry_ops_def)
    ultimately show ?thesis using run same_archive_trans [OF r(4)] by fastforce
  qed
qed

lemma ProcessArchiveFile_correct:
  assumes p: "platform_ok p v" and path: "\<And>w. GetAbsolutePath (pl_api p) (strArchiveName pack) w = path"
    "can_create v w path"
    and key: "length (arArchiveKey pack) = 32" and page: "unat (w_page_size (pl_api p)) \<le> 2 ^ 30"
    and walk: "\<And>w'. \<forall>q. q \<noteq> path \<longrightarrow> fv_disk v w' q = fv_disk v w q \<Longrightarrow> walk (stArchiveDirectory pack) w' = Some entries"
    and ok: "list_all (packable v pack path w) entries" "length entries < 2 ^ 29"
  obtains pack' w' a es bs where
    "ProcessArchiveFile p walk mem pack pk w = Some (Returns (Some True), pack',
       pk\<lparr>m_archiveKeys := (m_archiveKeys pk)(lower (strArchiveName pack) \<mapsto> arArchiveKey pack)\<rparr>, w')"
    "fv_open v w' = fv_open v w" "fv_rest v w' = fv_rest v w" "\<forall>q. q \<noteq> path \<longrightarrow> fv_disk v w' q = fv_disk v w q" "fv_disk v w' path = Some bs"
    "archive_holds a es bs (directory_map pack (fv_disk v w) entries)" "m_archiveKey a = arArchiveKey pack"
proof -
  let ?api = "pl_api p"
  let ?pk = "pk\<lparr>m_archiveKeys := (m_archiveKeys pk)(lower (strArchiveName pack) \<mapsto> arArchiveKey pack)\<rparr>"
  have api: "win32_files ?api v" using p by (simp add: platform_ok_def)
  have k: "32 \<le> length (arArchiveKey pack)" "take 32 (arArchiveKey pack) = arArchiveKey pack" using key by simp_all
  obtain f hn w1 a w2 bs where c: "CVFSFile_Create ?api (strArchiveName pack) False CVFSFile_new w = (True, f, w1)"
    "CVFSArchive_Create ?api (Some f) (Some (arArchiveKey pack)) (CVFSArchive_new mem) w1 = Some (Returns True, a, w2)"
    "archive_at v a w2 path True [] bs Map.empty" "m_vfsFile a = Some f" "m_archiveKey a = arArchiveKey pack"
    "ah_bytesPerBlock (ar_header a) = w_page_size ?api" "length bs < 2 ^ 32"
    and hn: "m_fileHandle f = Some hn" "m_mapHandle f = None" "m_mappedData f = None" "fv_open v w hn = None" "others v path hn w w2"
    by (rule create_archive [OF p path k(1) page, unfolded k(2)])
  obtain pos where open2: "fv_open v w2 hn = Some (path, True, pos)"
    using c(3,4) hn(1) by (auto simp: archive_at_def file_at_def)
  have pk2: "packable v pack path w2 e \<and> entry_ops pack (fv_disk v w2) e = entry_ops pack (fv_disk v w) e"
    if "e \<in> set entries" for e
    by (rule packable_others [OF _ hn(5)]) (use that ok(1) open2 hn(4) in \<open>auto simp: list_all_iff\<close>)
  have same: "map (entry_ops pack (fv_disk v w2)) entries = map (entry_ops pack (fv_disk v w)) entries"
    using pk2 by simp
  have "length bs + length entries * 2 ^ 32 < 2 ^ 62" using c(7) ok(2) by simp
  then obtain pack' a' w3 es' bs' where r: "process_entries p entries pack a w2 = (Returns True, pack', a', w3)"
    "archive_at v a' w3 path True es' bs' (fold op_effect (concat (map (entry_ops pack (fv_disk v w2)) entries)) Map.empty)"
    "same_archive v path a w2 a' w3"
    using process_entries_correct [OF p c(3), of pack entries] pk2 page c(6) by (auto simp: list_all_iff)
  have a': "m_vfsFile a' = Some f" "m_archiveKey a' = arArchiveKey pack" "others v path hn w2 w3"
    using r(3) c(4,5) hn(1) by (simp_all add: same_archive_def)
  have oth: "others v path hn w w3" by (rule others_trans [OF hn(5) a'(3)])
  let ?w' = "close_archive p a' f w3"
  have "fv_maps v w3 hn = None" using r(2) a'(1) hn(1) by (auto simp: archive_at_def file_at_def)
  then have w': "fv_disk v ?w' = fv_disk v w3" "fv_open v ?w' = (fv_open v w3)(hn := None)" "fv_rest v ?w' = fv_rest v w"
    using Close_disk [OF api hn(2,1), of w3] a'(1) hn(3) oth by (simp_all add: close_archive_def others_def)
  have "walk (stArchiveDirectory pack) w2 = Some entries" by (rule walk) (use hn(5) in \<open>simp add: others_def\<close>)
  then have "ProcessArchiveFile p walk mem pack pk w = Some (Returns (Some True), pack', ?pk, ?w')"
    using c(1,2) r(1) key by (simp add: ProcessArchiveFile_def SetArchiveKey_def KEY_LENGTH_def)
  moreover have "fv_open v ?w' = fv_open v w" unfolding w'(2) by (rule closed_again [OF oth hn(4)])
  moreover note w'(3)
  moreover have "\<forall>q. q \<noteq> path \<longrightarrow> fv_disk v ?w' q = fv_disk v w q" using oth w'(1) by (simp add: others_def)
  moreover have "fv_disk v ?w' path = Some bs'" using r(2) w'(1) by (auto simp: archive_at_def file_at_def)
  moreover have "archive_holds a' es' bs' (directory_map pack (fv_disk v w) entries)"
    using r(2) unfolding same archive_at_def directory_map_def by blast
  ultimately show ?thesis using that a'(2) by blast
qed

section \<open>Which contents the archive has\<close>

lemma fold_entry_ops_other:
  "(\<And>e. e \<in> set entries \<Longrightarrow> wanted pack e \<Longrightarrow> GenerateNameIndex (archive_name pack (fst e)) \<noteq> i)
     \<Longrightarrow> fold op_effect (concat (map (entry_ops pack disk) entries)) M i = M i"
proof (induction entries arbitrary: M)
  case (Cons e entries)
  have "fold op_effect (entry_ops pack disk e) M i = M i"
    using Cons.prems [of e] by (auto simp: entry_ops_def packed_file_def store_file_def split: option.splits)
  then show ?case using Cons by simp
qed simp

text \<open>When the names have different indices, the archive has every wanted file that is not empty.\<close>

lemma directory_map_file:
  assumes "distinct (map (\<lambda>e. GenerateNameIndex (archive_name pack (fst e))) (filter (wanted pack) entries))"
    and "e \<in> set entries" "wanted pack e" "disk (c_str (fst e)) = Some d" "d \<noteq> []"
  shows "directory_map pack disk entries (GenerateNameIndex (archive_name pack (fst e))) = Some d"
proof -
  let ?idx = "\<lambda>e. GenerateNameIndex (archive_name pack (fst e))"
  obtain xs ys where es: "entries = xs @ e # ys" using split_list [OF assms(2)] by blast
  have new: "?idx e \<notin> ?idx ` (set (filter (wanted pack) xs) \<union> set (filter (wanted pack) ys))"
    using assms(1,3) unfolding es by (simp add: image_Un)
  have other: "?idx x \<noteq> ?idx e" if "x \<in> set xs \<union> set ys" "wanted pack x" for x
  proof
    assume "?idx x = ?idx e"
    moreover have "?idx x \<in> ?idx ` (set (filter (wanted pack) xs) \<union> set (filter (wanted pack) ys))"
      using that by (intro imageI) auto
    ultimately show False using new by simp
  qed
  let ?M = "fold op_effect (concat (map (entry_ops pack disk) xs)) Map.empty"
  have "?M (?idx e) = None" using fold_entry_ops_other [of xs pack "?idx e" disk Map.empty] other by auto
  then have "fold op_effect (entry_ops pack disk e) ?M (?idx e) = Some d"
    using assms(3-5) by (simp add: entry_ops_def packed_file_def store_file_def)
  moreover have "fold op_effect (concat (map (entry_ops pack disk) ys)) N (?idx e) = N (?idx e)" for N
    by (rule fold_entry_ops_other) (use other in auto)
  ultimately show ?thesis by (simp add: directory_map_def es)
qed

section \<open>The configuration\<close>

definition context_ok :: "'w config_system \<Rightarrow> 'w \<Rightarrow> SArchiveContext \<Rightarrow> bool" where
  "context_ok cs w c \<longleftrightarrow> cs_exists cs (stArchiveDirectory c) w \<and> \<not> cs_exists cs (strArchiveName c) w
     \<and> arArchiveKey c = LITE_CRYPT_KEY \<and> sint (iType c) < 4 \<and> iVersion c \<noteq> 0 \<and> list_all (\<lambda>s. 0 \<notin> set s) (vIgnores c)"

lemma c_str_no_zero: "0 \<notin> set (c_str s)"
  by (auto simp: c_str_def dest: set_takeWhileD)

lemma make_context_ok: "make_context cs dir visdir file type version ms w = Some c \<Longrightarrow> context_ok cs w c"
  by (auto simp: make_context_def context_ok_def read_ignores_def Let_def c_str_no_zero list_all_iff
      split: option.splits if_splits)

lemma with_memberE:
  assumes "with_member k ms f = Returns x"
  obtains v where "f v = Returns x"
  using assms by (auto simp: with_member_def split: option.splits)

lemma read_group_ok: "read_group cs j w = Returns (Some c) \<Longrightarrow> context_ok cs w c"
  by (cases j) (auto simp: read_group_def elim!: with_memberE split: if_splits, erule make_context_ok)

lemma read_groups_ok:
  "read_groups cs gs w work = Returns (Some work') \<Longrightarrow>
   \<exists>new. work' = work @ new \<and> length new = length gs \<and> list_all (context_ok cs w) new"
proof (induction gs arbitrary: work)
  case (Cons g gs)
  then obtain c where c: "read_group cs g w = Returns (Some c)" "read_groups cs gs w (work @ [c]) = Returns (Some work')"
    by (auto split: outcome.splits option.splits)
  then show ?case using Cons.IH [OF c(2)] read_group_ok [OF c(1)] by auto
qed simp

text \<open>The built-in key, magic number and vector have the hashes the program expects.\<close>

lemma lite_check_passes: lite_check
  by code_simp

lemma config_missing_member:
  "cs_exists cs file w \<Longrightarrow> json_parse (cs_read cs file w) = Some (JArray (JObject ms # gs)) \<Longrightarrow> map_of ms (ascii ''dir'') = None \<Longrightarrow>
   InitializeConfigFile cs file w = Undefined"
  by (simp add: InitializeConfigFile_def json_size_def json_elements_def read_group_def with_member_def)

text \<open>A group of the configuration file, as JSON, and the context it stands for.\<close>

record config_group =
  cg_dir :: bstring
  cg_visualdir :: bstring
  cg_file :: bstring
  cg_type :: u32
  cg_version :: u32
  cg_ignores :: "bstring list"
  cg_patches :: "(bstring \<times> bstring) list"

definition group_json :: "config_group \<Rightarrow> json" where
  "group_json g = JObject
     [(ascii ''dir'', JString (cg_dir g)), (ascii ''file'', JString (cg_file g)),
      (ascii ''ignores'', JArray (map JString (cg_ignores g))),
      (ascii ''patches'', JObject (map (\<lambda>(k, v). (k, JString v)) (cg_patches g))),
      (ascii ''type'', JUnsigned (ucast (cg_type g))), (ascii ''version'', JUnsigned (ucast (cg_version g))),
      (ascii ''visualdir'', JString (cg_visualdir g))]"

definition group_context :: "config_group \<Rightarrow> SArchiveContext" where
  "group_context g =
     \<lparr>strArchiveName = map scast (cg_file g), arArchiveKey = LITE_CRYPT_KEY, stArchiveDirectory = map scast (cg_dir g),
      strVisualDirectory = map scast (cg_visualdir g), iType = cg_type g, iVersion = cg_version g,
      vIgnores = map (c_str \<circ> map scast) (cg_ignores g),
      vPatches = map (\<lambda>(k, v). \<lparr>pt_from = map scast k, pt_to = map scast v\<rparr>) (cg_patches g)\<rparr>"

definition group_valid :: "'w config_system \<Rightarrow> 'w \<Rightarrow> config_group \<Rightarrow> bool" where
  "group_valid cs w g \<longleftrightarrow>
     cs_exists cs (map scast (cg_dir g)) w \<and> \<not> cs_exists cs (map scast (cg_file g)) w
     \<and> sint (cg_type g) < 4 \<and> cg_version g \<noteq> 0
     \<and> utf8_text (cg_dir g) \<and> utf8_text (cg_visualdir g) \<and> utf8_text (cg_file g)
     \<and> list_all utf8_text (cg_ignores g) \<and> list_all (\<lambda>(k, v). utf8_text k \<and> utf8_text v) (cg_patches g)
     \<and> sorted_wrt (<) (map fst (cg_patches g))"

lemma utf8_ascii: "list_all (\<lambda>c. c < 0x80) s \<Longrightarrow> utf8_text s"
proof (induction s)
  case (Cons c s)
  then show ?case using utf8_text_append [OF utf8_text_ascii [of c], of s] by simp
qed simp

lemma group_names:
  "list_all utf8_text [ascii ''dir'', ascii ''file'', ascii ''ignores'', ascii ''patches'', ascii ''type'', ascii ''version'', ascii ''visualdir'']"
  "sorted_wrt (<) [ascii ''dir'', ascii ''file'', ascii ''ignores'', ascii ''patches'', ascii ''type'', ascii ''version'', ascii ''visualdir'']"
  by (simp_all add: ascii_def utf8_ascii)

lemma group_printable: "group_valid cs w g \<Longrightarrow> printable (group_json g)"
  using group_names
  by (auto simp: group_json_def group_valid_def list_all_iff comp_def case_prod_unfold image_iff)

lemma ucast_32_64: "ucast (ucast x :: u64) = (x :: u32)"
  by (rule bit_eqI) (auto simp: bit_ucast_iff dest: bit_imp_le_length)

lemma read_group_json:
  assumes "group_valid cs w g"
  shows "read_group cs (group_json g) w = Returns (Some (group_context g))"
proof -
  obtain ms where ms: "group_json g = JObject ms"
    "map_of ms (ascii ''dir'') = Some (JString (cg_dir g))" "map_of ms (ascii ''visualdir'') = Some (JString (cg_visualdir g))"
    "map_of ms (ascii ''file'') = Some (JString (cg_file g))" "map_of ms (ascii ''type'') = Some (JUnsigned (ucast (cg_type g)))"
    "map_of ms (ascii ''version'') = Some (JUnsigned (ucast (cg_version g)))"
    "map_of ms (ascii ''ignores'') = Some (JArray (map JString (cg_ignores g)))"
    "map_of ms (ascii ''patches'') = Some (JObject (map (\<lambda>(k, v). (k, JString v)) (cg_patches g)))"
    by (simp add: group_json_def ascii_def)
  have "read_ignores ms = Some (vIgnores (group_context g))"
    by (auto simp: read_ignores_def ms json_elements_def group_context_def Let_def comp_def)
  moreover have "read_patches ms = Some (vPatches (group_context g))"
    by (auto simp: read_patches_def ms group_context_def Let_def comp_def case_prod_unfold image_iff)
  ultimately have "make_context cs (JString (cg_dir g)) (JString (cg_visualdir g)) (JString (cg_file g))
      (JUnsigned (ucast (cg_type g))) (JUnsigned (ucast (cg_version g))) ms w = Some (group_context g)"
    using assms by (simp add: make_context_def group_valid_def group_context_def ucast_32_64)
  then show ?thesis by (simp add: read_group_def with_member_def ms)
qed

lemma read_groups_json:
  "\<forall>g\<in>set gs. group_valid cs w g \<Longrightarrow>
   read_groups cs (map group_json gs) w work = Returns (Some (work @ map group_context gs))"
  by (induction gs arbitrary: work) (simp_all add: read_group_json)

section \<open>Properties\<close>

text \<open>
  C2. From a directory to a program that reads its archive: \<^verbatim>\<open>ProcessArchiveFile\<close> packs the directory and succeeds,
  leaves no handle open and no other file changed, and the pack that then loads the archive opens every file
  that was wanted, under its name in the archive, as a memory file with the contents it has on the disk.
\<close>

theorem archiver_then_pack:
  assumes "platform_ok p v" "\<And>w. GetAbsolutePath (pl_api p) (strArchiveName pack) w = path"
    and "\<And>w. GetAbsolutePath (pl_api p) (lower (strArchiveName pack)) w = path"
    and "can_create v w path" "fv_grants v w path False" "m_archives pk = []" "length (arArchiveKey pack) = 32"
    and "unat (w_page_size (pl_api p)) \<le> 2 ^ 30"
    and "\<And>w'. \<forall>q. q \<noteq> path \<longrightarrow> fv_disk v w' q = fv_disk v w q \<Longrightarrow> walk (stArchiveDirectory pack) w' = Some entries"
    and "list_all (packable v pack path w) entries" "length entries < 2 ^ 29"
    and "distinct (map (\<lambda>e. GenerateNameIndex (archive_name pack (fst e))) (filter (wanted pack) entries))"
  shows "\<exists>pack' pk1 w1 i pk2 w2. ProcessArchiveFile p walk mem pack pk w = Some (Returns (Some True), pack', pk1, w1)
    \<and> fv_open v w1 = fv_open v w \<and> (\<forall>q. q \<noteq> path \<longrightarrow> fv_disk v w1 q = fv_disk v w q)
    \<and> LoadArchive (pl_api p) mem' (strArchiveName pack) pk1 w1 = Some (Returns (Some i), pk2, w2)
    \<and> (\<forall>e\<in>set entries. \<forall>d. wanted pack e \<and> fv_disk v w (c_str (fst e)) = Some d \<and> d \<noteq> [] \<longrightarrow>
        (\<exists>f w3. CVFSPack_Open p (archive_name pack (fst e)) pk2 w2 = (Returns (Some f), w3) \<and> memory_at f d 0))"
proof -
  let ?pk = "pk\<lparr>m_archiveKeys := (m_archiveKeys pk)(lower (strArchiveName pack) \<mapsto> arArchiveKey pack)\<rparr>"
  obtain pack' w1 a es bs where w1: "ProcessArchiveFile p walk mem pack pk w = Some (Returns (Some True), pack', ?pk, w1)"
    "fv_open v w1 = fv_open v w" "fv_rest v w1 = fv_rest v w" "\<forall>q. q \<noteq> path \<longrightarrow> fv_disk v w1 q = fv_disk v w q" "fv_disk v w1 path = Some bs"
    "archive_holds a es bs (directory_map pack (fv_disk v w) entries)" "m_archiveKey a = arArchiveKey pack"
    by (rule ProcessArchiveFile_correct [where p = p and pack = pack and w = w and path = path and v = v
        and walk = walk and entries = entries and mem = mem and pk = pk, OF assms(1,2,4,7-11)])
  have pk: "list_all2 (archive_loaded v w1) (m_archives ?pk) []" "unnamed (lower (strArchiveName pack)) ?pk"
    "m_archiveKeys ?pk (lower (strArchiveName pack)) = Some (arArchiveKey pack)"
    using assms(6) by (simp_all add: unnamed_def)
  have "can_read v w1 path"
    using assms(4,5) w1(2,3) by (auto simp: can_create_def can_read_def share_denied_def fv_rest_def)
  from load_and_open [OF assms(1) pk assms(7) assms(3) [symmetric] this w1(5-7), of mem']
  obtain i pk2 w2 where l: "LoadArchive (pl_api p) mem' (strArchiveName pack) ?pk w1 = Some (Returns (Some i), pk2, w2)"
    and read: "\<forall>filename. \<exists>r w''. CVFSPack_Open p filename pk2 w2 = (Returns r, w'')
        \<and> opens_as v (first_of ([] @ [directory_map pack (fv_disk v w) entries])) filename w1 (r, w'')"
    by blast
  have "\<exists>f w3. CVFSPack_Open p (archive_name pack (fst e)) pk2 w2 = (Returns (Some f), w3) \<and> memory_at f d 0"
    if "e \<in> set entries" "wanted pack e" "fv_disk v w (c_str (fst e)) = Some d" "d \<noteq> []" for e d
    using read [rule_format, of "archive_name pack (fst e)"] directory_map_file [where pack = pack and disk = "fv_disk v w", OF assms(12) that]
    by (auto simp: opens_as_def)
  then show ?thesis using w1(1,2,4) l by blast
qed

text \<open>The directory "a" with the file "b" becomes the archive "z", in which the file is "d/b".\<close>

definition sample_context :: SArchiveContext where
  "sample_context = \<lparr>strArchiveName = [122], arArchiveKey = sample_key, stArchiveDirectory = [97],
     strVisualDirectory = [100, 47], iType = 3, iVersion = 1, vIgnores = [[42, 46, 98]], vPatches = []\<rparr>"

theorem archiver_then_pack_witness:
  "\<exists>pack' pk1 w1 i pk2 w2 f w3. ProcessArchiveFile sample_platform (\<lambda>_ _. Some [([97], True), ([97, 92, 98], False)]) [] sample_context
       CVFSPack_new (disk_with [97, 92, 98] [1, 2, 3]) = Some (Returns (Some True), pack', pk1, w1)
     \<and> LoadArchive disk_api [] [122] pk1 w1 = Some (Returns (Some i), pk2, w2)
     \<and> CVFSPack_Open sample_platform [100, 47, 98] pk2 w2 = (Returns (Some f), w3) \<and> memory_at f [1, 2, 3] 0"
proof -
  let ?w = "disk_with [97, 92, 98] [1, 2, 3]" and ?es = "[([97], True), ([97, 92, 98], False)] :: (wstring \<times> bool) list"
  have p: "pl_api sample_platform = disk_api" by (simp add: sample_platform_def)
  have n: "strArchiveName sample_context = [122]" "arArchiveKey sample_context = sample_key"
    by (simp_all add: sample_context_def)
  have path: "GetAbsolutePath (pl_api sample_platform) (strArchiveName sample_context) w = [122]"
    "GetAbsolutePath (pl_api sample_platform) (lower (strArchiveName sample_context)) w = [122]" for w
    by (simp_all add: GetAbsolutePath_def p disk_api_def c_str_def towlower_def n)
  have free: "can_create disk_view ?w [122]" "fv_grants disk_view ?w [122] False"
    by (simp_all add: can_create_def share_denied_def path_mapped_def disk_view_def disk_with_def)
  have key: "length (arArchiveKey sample_context) = 32" by (simp add: n sample_key_def)
  have page: "unat (w_page_size (pl_api sample_platform)) \<le> 2 ^ 30" by (simp add: p disk_api_def)
  have name: "archive_name sample_context [97, 92, 98] = [100, 47, 98]" "wanted sample_context ([97, 92, 98], False)"
    by (code_simp, code_simp)
  have idx: "GenerateNameIndex [100, 47, 98] \<noteq> 0" by code_simp
  have d: "fv_disk disk_view ?w (c_str [97, 92, 98]) = Some [1, 2, 3]"
    by (simp add: disk_view_def disk_with_def c_str_def)
  have "packable disk_view sample_context [122] ?w ([97, 92, 98], False)"
    using name idx d by (simp add: packable_def entry_ops_def packed_file_def MAX_INPUT_def)
      (simp add: c_str_def can_read_def share_denied_def disk_view_def disk_with_def)
  moreover have "packable disk_view sample_context [122] ?w ([97], True)" by (simp add: packable_def wanted_def)
  ultimately have ok: "list_all (packable disk_view sample_context [122] ?w) ?es" by simp
  have dist: "distinct (map (\<lambda>e. GenerateNameIndex (archive_name sample_context (fst e))) (filter (wanted sample_context) ?es))"
    by (simp add: wanted_def)
  have new: "m_archives CVFSPack_new = []" by (simp add: CVFSPack_new_def)
  obtain pack' pk1 w1 i pk2 w2 where r: "ProcessArchiveFile sample_platform (\<lambda>_ _. Some ?es) [] sample_context CVFSPack_new ?w
      = Some (Returns (Some True), pack', pk1, w1)"
    "LoadArchive disk_api [] [122] pk1 w1 = Some (Returns (Some i), pk2, w2)"
    "\<forall>e\<in>set ?es. \<forall>d. wanted sample_context e \<and> fv_disk disk_view ?w (c_str (fst e)) = Some d \<and> d \<noteq> [] \<longrightarrow>
        (\<exists>f w3. CVFSPack_Open sample_platform (archive_name sample_context (fst e)) pk2 w2 = (Returns (Some f), w3) \<and> memory_at f d 0)"
    using archiver_then_pack [where pack = sample_context and walk = "\<lambda>_ _. Some ?es" and mem = "[]" and mem' = "[]",
        OF sample_platform_ok path free new key page _ ok _ dist] unfolding p n by auto
  obtain f w3 where "CVFSPack_Open sample_platform [100, 47, 98] pk2 w2 = (Returns (Some f), w3)" "memory_at f [1, 2, 3] 0"
    using r(3) [rule_format, of "([97, 92, 98], False)" "[1, 2, 3]"] name d by auto
  then show ?thesis using r(1,2) by blast
qed

text \<open>
  C36. What the configuration checks guarantee: when \<^verbatim>\<open>InitializeConfigFile\<close> succeeds there is a context for every
  element of the file and at least one, every directory exists, no archive does yet, the key is the built-in
  one, the version is not 0, the type is less than 4 as a signed number, and no pattern contains a zero.
\<close>

theorem config_contexts_ok:
  assumes "InitializeConfigFile cs file w = Returns (Some work)"
  shows "cs_exists cs file w \<and> work \<noteq> [] \<and> list_all (context_ok cs w) work
    \<and> (\<exists>root. json_parse (cs_read cs file w) = Some root \<and> length work = length (json_elements root))"
proof -
  obtain root where r: "cs_exists cs file w" "json_parse (cs_read cs file w) = Some root" "work \<noteq> []"
    "read_groups cs (json_elements root) w [] = Returns (Some work)"
    using assms by (auto simp: InitializeConfigFile_def split: if_splits option.splits outcome.splits)
  then show ?thesis using read_groups_ok [OF r(4)] by auto
qed

text \<open>A negative type is accepted.\<close>

definition negative_type :: json where
  "negative_type = JArray [JObject
     [(ascii ''dir'', JString [97]), (ascii ''file'', JString [122]), (ascii ''type'', JInteger (- 1)),
      (ascii ''version'', JUnsigned 1), (ascii ''visualdir'', JString [])]]"

definition sample_config :: "unit config_system" where
  "sample_config = \<lparr>cs_exists = \<lambda>p w. p \<noteq> [122], cs_read = \<lambda>p w. json_text negative_type\<rparr>"

lemma negative_type_parses: "json_parse (json_text negative_type) = Some negative_type"
  using parse_json_text [of negative_type "[]"]
  by (simp add: negative_type_def ascii_def utf8_ascii number_end_def)

theorem config_contexts_ok_witness:
  "InitializeConfigFile sample_config [99] () = Returns (Some [\<lparr>strArchiveName = [122], arArchiveKey = LITE_CRYPT_KEY,
       stArchiveDirectory = [97], strVisualDirectory = [], iType = - 1, iVersion = 1, vIgnores = [], vPatches = []\<rparr>])
   \<and> context_ok sample_config () \<lparr>strArchiveName = [122], arArchiveKey = LITE_CRYPT_KEY,
       stArchiveDirectory = [97], strVisualDirectory = [], iType = - 1, iVersion = 1, vIgnores = [], vPatches = []\<rparr>"
  (is "?run \<and> ?ok")
proof -
  have run: ?run
    unfolding InitializeConfigFile_def sample_config_def config_system.simps negative_type_parses by code_simp
  from config_contexts_ok [OF run] have ?ok by simp
  with run show ?thesis by blast
qed

text \<open>
  C23. The configuration is read as it is written: for a file with the JSON text of groups whose directories exist and
  whose archives do not, with types below 4 and versions other than 0, \<^verbatim>\<open>InitializeConfigFile\<close> returns the contexts
  of the groups, in their order, with all their patterns and replacements.
\<close>

theorem config_text_contexts:
  assumes "cs_exists cs file w" "cs_read cs file w = json_text (JArray (map group_json gs)) @ rest" "number_end rest"
    and "gs \<noteq> []" "\<forall>g\<in>set gs. group_valid cs w g"
  shows "InitializeConfigFile cs file w = Returns (Some (map group_context gs))"
proof -
  have "json_parse (cs_read cs file w) = Some (JArray (map group_json gs))"
    unfolding assms(2) by (rule parse_json_text) (use assms group_printable [of cs w] in auto)
  then show ?thesis
    using assms read_groups_json [OF assms(5), of "[]"]
    by (simp add: InitializeConfigFile_def json_size_def json_elements_def)
qed

definition sample_group :: config_group where
  "sample_group = \<lparr>cg_dir = [97], cg_visualdir = [98, 0xC3, 0xA9], cg_file = [122], cg_type = 3, cg_version = 1,
     cg_ignores = [[46, 34]], cg_patches = [([97], [])]\<rparr>"

definition group_config :: "unit config_system" where
  "group_config = \<lparr>cs_exists = \<lambda>p w. p \<noteq> [122], cs_read = \<lambda>p w. json_text (JArray [group_json sample_group]) @ [10]\<rparr>"

theorem config_text_contexts_witness:
  "InitializeConfigFile group_config [99] () = Returns (Some [group_context sample_group])"
proof -
  have "utf8_text [98, 0xC3, 0xA9]"
    unfolding utf8_text_def by (rule exI [of _ "[98, 0xE9]"]) (simp add: scalar_def utf8_def)
  then have "group_valid group_config () sample_group"
    by (simp add: group_valid_def group_config_def sample_group_def utf8_ascii)
  then show ?thesis
    using config_text_contexts [of group_config "[99]" "()" "[sample_group]" "[10]"]
    by (simp add: group_config_def number_end_def is_digit_def)
qed

end
