(* ===== verification/Vfs_Test.thy ===== *)
theory Vfs_Test
  imports Archiver_Theorems
begin

text \<open>
  \<^verbatim>\<open>VFSTest/src/main.cpp\<close>: a program that packs a directory into a test archive, loads it and extracts every file
  of it. It packs as the archiver does, without patterns and patches, and shares its model of one file.
\<close>

section \<open>Operations\<close>

definition test_name :: "wstring \<Rightarrow> wstring \<Rightarrow> wstring \<Rightarrow> wstring" where
  "test_name dir visual wstrEntryFile = fix_visual visual @ slashes (strip_directory dir wstrEntryFile)"

fun test_entries ::
  "'w platform \<Rightarrow> wstring \<Rightarrow> wstring \<Rightarrow> u32 \<Rightarrow> u32 \<Rightarrow> (wstring \<times> bool) list \<Rightarrow> CVFSArchive \<Rightarrow> 'w
     \<Rightarrow> bool outcome \<times> CVFSArchive \<times> 'w" where
  "test_entries p dir visual uVersion uFlag [] a w = (Returns True, a, w)"
| "test_entries p dir visual uVersion uFlag ((path, is_directory) # entries) a w =
     (if is_directory then test_entries p dir visual uVersion uFlag entries a w
      else (case pack_file p path (test_name dir visual path) (ucast uFlag) uVersion a w of
              (Undefined, a, w) \<Rightarrow> (Undefined, a, w)
            | (Returns False, a, w) \<Rightarrow> (Returns False, a, w)
            | (Returns True, a, w) \<Rightarrow> test_entries p dir visual uVersion uFlag entries a w))"

text \<open>\<open>delete_file\<close> is \<^verbatim>\<open>DeleteFileW\<close>; an exception of the directory iterator is \<open>Returns None\<close>.\<close>

definition CreateTestArchive ::
  "'w platform \<Rightarrow> (wstring \<Rightarrow> 'w \<Rightarrow> 'w) \<Rightarrow> (wstring \<Rightarrow> 'w \<Rightarrow> (wstring \<times> bool) list option) \<Rightarrow> byte list \<Rightarrow> wstring
     \<Rightarrow> byte list \<Rightarrow> wstring \<Rightarrow> wstring \<Rightarrow> u32 \<Rightarrow> u32 \<Rightarrow> CVFSPack \<Rightarrow> 'w
     \<Rightarrow> (bool option outcome \<times> CVFSPack \<times> 'w) option" where
  "CreateTestArchive p delete_file walk memory name pArchiveKey dir visual uVersion uFlag pk w =
     (case CVFSFile_Create (pl_api p) name False CVFSFile_new (delete_file (c_str name) w) of
        (ok, file, w) \<Rightarrow>
          if \<not> ok then Some (Returns (Some False), pk, snd (CVFSFile_Close (pl_api p) file w))
          else
            (case SetArchiveKey name pArchiveKey pk of
               Undefined \<Rightarrow> Some (Undefined, pk, w)
             | Returns pk \<Rightarrow>
                 (case CVFSArchive_Create (pl_api p) (Some file) (Some pArchiveKey) (CVFSArchive_new memory) w of
                    None \<Rightarrow> None
                  | Some (Undefined, a, w) \<Rightarrow> Some (Undefined, pk, w)
                  | Some (Returns False, a, w) \<Rightarrow> Some (Returns (Some False), pk, close_archive p a file w)
                  | Some (Returns True, a, w) \<Rightarrow>
                      (case walk dir w of
                         None \<Rightarrow> Some (Returns None, pk, close_archive p a file w)
                       | Some entries \<Rightarrow>
                           (case test_entries p dir visual uVersion uFlag entries a w of
                              (Undefined, a, w) \<Rightarrow> Some (Undefined, pk, w)
                            | (Returns r, a, w) \<Rightarrow> Some (Returns (Some r), pk, close_archive p a file w))))))"

text \<open>The outcome of the extraction is logged and not returned.\<close>

definition CheckSpecificFileIntegrity ::
  "'w platform \<Rightarrow> CVFSArchive \<Rightarrow> SFileInformation \<Rightarrow> wstring \<Rightarrow> 'w \<Rightarrow> unit outcome \<times> 'w" where
  "CheckSpecificFileIntegrity p archive file targetdir w =
     (let filename = c_str (fi_filename file);
          target = targetdir @ [0x5C] @ filename
      in case CVFSArchive_Open_name p filename archive w of
           (Undefined, w) \<Rightarrow> (Undefined, w)
         | (Returns None, w) \<Rightarrow> (Returns (), w)
         | (Returns (Some stream), w) \<Rightarrow>
             let n = CVFSFile_GetSize (pl_api p) stream w;
                 source = (case CVFSFile_GetData stream of None \<Rightarrow> [] | Some d \<Rightarrow> d)
             in if length source < unat n then (Undefined, w)
                else
                  let pbData = take (unat n) source @ [0];
                      (ok, unpackedfile, w) = CVFSFile_Create (pl_api p) target False CVFSFile_new w;
                      (unpackedfile, w) =
                        (if ok then snd (CVFSFile_Write (pl_api p) (take (unat (ucast n :: u32)) pbData) unpackedfile w)
                         else (unpackedfile, w));
                      w = snd (CVFSFile_Close (pl_api p) unpackedfile w)
                  in (Returns (), snd (CVFSFile_Close (pl_api p) stream w)))"

fun check_files ::
  "'w platform \<Rightarrow> CVFSArchive \<Rightarrow> wstring \<Rightarrow> SFileInformation list \<Rightarrow> 'w \<Rightarrow> unit outcome \<times> 'w" where
  "check_files p archive targetdir [] w = (Returns (), w)"
| "check_files p archive targetdir (file # files) w =
     (case CheckSpecificFileIntegrity p archive file targetdir w of
        (Undefined, w) \<Rightarrow> (Undefined, w)
      | (Returns _, w) \<Rightarrow> check_files p archive targetdir files w)"

definition CheckArchivedFilesIntegrity ::
  "'w platform \<Rightarrow> (wstring \<Rightarrow> 'w \<Rightarrow> 'w) \<Rightarrow> ((u32 \<Rightarrow> SFileEntry option) \<Rightarrow> u32 list) \<Rightarrow> CVFSArchive \<Rightarrow> wstring \<Rightarrow> 'w
     \<Rightarrow> unit outcome \<times> 'w" where
  "CheckArchivedFilesIntegrity p create_directory order archive targetdir w =
     check_files p archive targetdir (EnumerateFiles order archive) (create_directory (c_str targetdir) w)"

definition test_main ::
  "'w platform \<Rightarrow> (wstring \<Rightarrow> 'w \<Rightarrow> 'w) \<Rightarrow> (wstring \<Rightarrow> 'w \<Rightarrow> 'w) \<Rightarrow> (wstring \<Rightarrow> 'w \<Rightarrow> (wstring \<times> bool) list option)
     \<Rightarrow> ((u32 \<Rightarrow> SFileEntry option) \<Rightarrow> u32 list) \<Rightarrow> byte list \<Rightarrow> 'w \<Rightarrow> (exit_status option outcome \<times> 'w) option" where
  "test_main p delete_file create_directory walk order memory w =
     (let targetpack = map of_char ''test.vpf''; targetdir = map of_char ''test'';
          targetunpackdir = map of_char ''test_unpacked'';
          key = ConvertKeyFromAscii (ascii ''0000000000000000000000000000000000000000000000000000000000000001'')
      in case CreateTestArchive p delete_file walk memory targetpack key targetdir [] 1 3 CVFSPack_new w of
           None \<Rightarrow> None
         | Some (Undefined, pk, w) \<Rightarrow> Some (Undefined, w)
         | Some (Returns None, pk, w) \<Rightarrow> Some (Returns None, w)
         | Some (Returns (Some False), pk, w) \<Rightarrow> Some (Returns (Some EXIT_FAILURE), w)
         | Some (Returns (Some True), pk, w) \<Rightarrow>
             (case SetArchiveKey targetpack key pk of
                Undefined \<Rightarrow> Some (Undefined, w)
              | Returns pk \<Rightarrow>
                  (case LoadArchive (pl_api p) memory targetpack pk w of
                     None \<Rightarrow> None
                   | Some (Undefined, pk, w) \<Rightarrow> Some (Undefined, w)
                   | Some (Returns None, pk, w) \<Rightarrow> Some (Returns (Some EXIT_FAILURE), w)
                   | Some (Returns (Some i), pk, w) \<Rightarrow>
                       (case map_of (m_archives pk) i of
                          None \<Rightarrow> Some (Undefined, w)
                        | Some root \<Rightarrow>
                            (case CheckArchivedFilesIntegrity p create_directory order root targetunpackdir w of
                               (Undefined, w) \<Rightarrow> Some (Undefined, w)
                             | (Returns _, w) \<Rightarrow> Some (Returns (Some EXIT_SUCCESS), w))))))"

section \<open>The key and the packing\<close>

text \<open>Without patterns and patches the archiver does the same.\<close>

lemma test_entries_archiver:
  fixes pack :: SArchiveContext
  assumes "vIgnores pack = []" "vPatches pack = []" "stArchiveDirectory pack = dir" "strVisualDirectory pack = visual"
    and "iType pack = uFlag" "iVersion pack = uVersion"
  shows "test_entries p dir visual uVersion uFlag entries a w =
    (case process_entries p entries pack a w of (r, _, a, w) \<Rightarrow> (r, a, w))"
  using assms
proof (induction entries arbitrary: pack a w visual)
  case (Cons e entries)
  obtain path is_directory where e: "e = (path, is_directory)" by (cases e) auto
  let ?pack = "pack\<lparr>strVisualDirectory := fix_visual (strVisualDirectory pack)\<rparr>"
  have names: "test_name dir visual path = fix_visual (strVisualDirectory pack) @ entry_name pack path"
    "\<not> skip_file ?pack (entry_name pack path)"
    using Cons.prems by (simp_all add: test_name_def entry_name_def apply_patches_def skip_file_def)
  have "test_name dir (fix_visual visual) = test_name dir visual" by (simp add: fun_eq_iff test_name_def)
  then have again: "test_entries p dir (fix_visual visual) uVersion uFlag entries a w = test_entries p dir visual uVersion uFlag entries a w" for a w
    by (induction entries arbitrary: a w) (auto split: prod.splits outcome.splits bool.splits)
  have IH: "test_entries p dir visual uVersion uFlag entries a w =
      (case process_entries p entries ?pack a w of (r, _, a, w) \<Rightarrow> (r, a, w))" for a w
    using Cons.IH [of ?pack "fix_visual visual" a w, unfolded again] Cons.prems by simp
  show ?case
  proof (cases is_directory)
    case True
    then show ?thesis using Cons.IH [OF Cons.prems] e by simp
  next
    case False
    obtain r a1 w1 where pf: "pack_file p path (test_name dir visual path) (ucast uFlag) uVersion a w = (r, a1, w1)"
      by (cases "pack_file p path (test_name dir visual path) (ucast uFlag) uVersion a w") auto
    have "process_entries p (e # entries) pack a w = (case r of
        Undefined \<Rightarrow> (Undefined, ?pack, a1, w1) | Returns b \<Rightarrow> if b then process_entries p entries ?pack a1 w1 else (Returns False, ?pack, a1, w1))"
      using pf names False e Cons.prems by (simp add: Let_def split: outcome.split bool.split)
    then show ?thesis
      using pf False e IH [of a1 w1] by (simp split: outcome.split bool.split)
  qed
qed simp

section \<open>Extracting\<close>










section \<open>Properties\<close>






end
