(* ===== verification/Rapidjson.thy ===== *)
theory Rapidjson
  imports Std_String
begin

text \<open>
  The parts of \<^verbatim>\<open>3rd/rapidjson\<close> the property manager runs on narrow strings with the default flags: the writer's
  nesting and strings (\<^verbatim>\<open>writer.h\<close>) and the recursive reader (\<^verbatim>\<open>reader.h\<close>) with the document it builds. The
  input is a C string: the list of its bytes, whose end is seen as a zero. Assertions are compiled out, as
  the build defines \<^verbatim>\<open>NDEBUG\<close>. Not modelled: numbers, whose parser is a parameter that says which prefix of the
  input is a number, and the positions of errors. The reader recurses with a counter, \<open>OutOfFuel\<close> when it is used
  up; one more than the length of the input is enough.
\<close>

section \<open>Writer\<close>

record Writer =
  wr_os :: bstring
  wr_levels :: "(bool \<times> nat) list"
  wr_hasRoot :: bool

definition Writer_new :: Writer where
  "Writer_new = \<lparr>wr_os = [], wr_levels = [], wr_hasRoot = False\<rparr>"

definition Put :: "bstring \<Rightarrow> Writer \<Rightarrow> Writer" where
  "Put s w = w\<lparr>wr_os := wr_os w @ s\<rparr>"

text \<open>A level is whether it is an array and how many values it has.\<close>

definition Prefix :: "Writer \<Rightarrow> Writer" where
  "Prefix w =
     (case wr_levels w of
        [] \<Rightarrow> w\<lparr>wr_hasRoot := True\<rparr>
      | (inArray, valueCount) # levels \<Rightarrow>
          (if valueCount > 0 then Put (if inArray \<or> even valueCount then [0x2C] else [0x3A]) w else w)
             \<lparr>wr_levels := (inArray, Suc valueCount) # levels\<rparr>)"

definition hexDigits :: "byte list" where
  "hexDigits = ascii ''0123456789ABCDEF''"

text \<open>The table of escapes: 0 for a character that stands for itself.\<close>

definition write_escape :: "byte \<Rightarrow> byte" where
  "write_escape c =
     (if c = 0x08 then 0x62 else if c = 0x09 then 0x74 else if c = 0x0A then 0x6E else if c = 0x0C then 0x66
      else if c = 0x0D then 0x72 else if c < 0x20 then 0x75 else if c = 0x22 then 0x22 else if c = 0x5C then 0x5C else 0)"

definition write_char :: "byte \<Rightarrow> bstring" where
  "write_char c =
     (let e = write_escape c
      in if e = 0 then [c]
         else if e = 0x75 then [0x5C, e, 0x30, 0x30, hexDigits ! unat (drop_bit 4 c), hexDigits ! unat (c AND 0xF)]
         else [0x5C, e])"

definition WriteString :: "bstring \<Rightarrow> bstring" where
  "WriteString s = 0x22 # concat (map write_char s) @ [0x22]"

definition Writer_String :: "bstring \<Rightarrow> Writer \<Rightarrow> Writer" where
  "Writer_String s w = Put (WriteString (c_bytes s)) (Prefix w)"

definition Writer_Key :: "bstring \<Rightarrow> Writer \<Rightarrow> Writer" where
  "Writer_Key s w = Writer_String s w"

definition StartObject :: "Writer \<Rightarrow> Writer" where
  "StartObject w = (let w = Prefix w in Put [0x7B] (w\<lparr>wr_levels := (False, 0) # wr_levels w\<rparr>))"

definition EndObject :: "Writer \<Rightarrow> Writer" where
  "EndObject w = Put [0x7D] (w\<lparr>wr_levels := tl (wr_levels w)\<rparr>)"

definition StartArray :: "Writer \<Rightarrow> Writer" where
  "StartArray w = (let w = Prefix w in Put [0x5B] (w\<lparr>wr_levels := (True, 0) # wr_levels w\<rparr>))"

definition EndArray :: "Writer \<Rightarrow> Writer" where
  "EndArray w = Put [0x5D] (w\<lparr>wr_levels := tl (wr_levels w)\<rparr>)"

section \<open>Reader: characters and strings\<close>

datatype ParseErrorCode =
  kParseErrorDocumentEmpty | kParseErrorDocumentRootNotSingular | kParseErrorValueInvalid
  | kParseErrorObjectMissName | kParseErrorObjectMissColon | kParseErrorObjectMissCommaOrCurlyBracket
  | kParseErrorArrayMissCommaOrSquareBracket | kParseErrorStringUnicodeEscapeInvalidHex
  | kParseErrorStringUnicodeSurrogateInvalid | kParseErrorStringEscapeInvalid | kParseErrorStringMissQuotationMark
  | kParseErrorStringInvalidEncoding | kParseErrorNumberTooBig | kParseErrorNumberMissFraction
  | kParseErrorNumberMissExponent | kParseErrorTermination | kParseErrorUnspecificSyntaxError

datatype 'a parsed = Parsed 'a bstring | ParseError ParseErrorCode | OutOfFuel

definition Peek :: "bstring \<Rightarrow> byte" where
  "Peek s = (case s of [] \<Rightarrow> 0 | c # _ \<Rightarrow> c)"

definition Consume :: "byte \<Rightarrow> bstring \<Rightarrow> bstring option" where
  "Consume expect s = (if s \<noteq> [] \<and> hd s = expect then Some (tl s) else None)"

fun consume_all :: "bstring \<Rightarrow> bstring \<Rightarrow> bstring option" where
  "consume_all [] s = Some s"
| "consume_all (c # cs) s = (case Consume c s of None \<Rightarrow> None | Some s \<Rightarrow> consume_all cs s)"

definition SkipWhitespace :: "bstring \<Rightarrow> bstring" where
  "SkipWhitespace s = dropWhile (\<lambda>c. c = 0x20 \<or> c = 0x0A \<or> c = 0x0D \<or> c = 0x09) s"

definition hex_value :: "byte \<Rightarrow> u32 option" where
  "hex_value c =
     (if 0x30 \<le> c \<and> c \<le> 0x39 then Some (ucast c - 0x30)
      else if 0x41 \<le> c \<and> c \<le> 0x46 then Some (ucast c - 0x41 + 10)
      else if 0x61 \<le> c \<and> c \<le> 0x66 then Some (ucast c - 0x61 + 10) else None)"

text \<open>The loop over the \<open>n\<close> digits that are left.\<close>

fun parse_hex :: "nat \<Rightarrow> u32 \<Rightarrow> bstring \<Rightarrow> (u32 \<times> bstring) option" where
  "parse_hex 0 codepoint s = Some (codepoint, s)"
| "parse_hex (Suc n) codepoint s =
     (case hex_value (Peek s) of
        None \<Rightarrow> None
      | Some v \<Rightarrow> parse_hex n (push_bit 4 codepoint + v) (tl s))"

definition ParseHex4 :: "bstring \<Rightarrow> (u32 \<times> bstring) option" where
  "ParseHex4 s = parse_hex 4 0 s"

definition UTF8_Encode :: "u32 \<Rightarrow> bstring" where
  "UTF8_Encode cp =
     (if cp \<le> 0x7F then [ucast cp]
      else if cp \<le> 0x7FF then [0xC0 OR ucast (drop_bit 6 cp), 0x80 OR ucast (cp AND 0x3F)]
      else if cp \<le> 0xFFFF
      then [0xE0 OR ucast (drop_bit 12 cp), 0x80 OR ucast (drop_bit 6 cp AND 0x3F), 0x80 OR ucast (cp AND 0x3F)]
      else [0xF0 OR ucast (drop_bit 18 cp), 0x80 OR ucast (drop_bit 12 cp AND 0x3F),
            0x80 OR ucast (drop_bit 6 cp AND 0x3F), 0x80 OR ucast (cp AND 0x3F)])"

definition read_escape :: "byte \<Rightarrow> byte" where
  "read_escape e =
     (if e = 0x22 \<or> e = 0x2F \<or> e = 0x5C then e
      else if e = 0x62 then 0x08 else if e = 0x66 then 0x0C else if e = 0x6E then 0x0A
      else if e = 0x72 then 0x0D else if e = 0x74 then 0x09 else 0)"

text \<open>What follows a backslash: the bytes it stands for and the rest.\<close>

definition parse_escape :: "bstring \<Rightarrow> ParseErrorCode + bstring \<times> bstring" where
  "parse_escape s =
     (let e = Peek s
      in if read_escape e \<noteq> 0 then Inr ([read_escape e], tl s)
         else if e = 0x75
         then (case ParseHex4 (tl s) of
                 None \<Rightarrow> Inl kParseErrorStringUnicodeEscapeInvalidHex
               | Some (codepoint, s) \<Rightarrow>
                   if 0xD800 \<le> codepoint \<and> codepoint \<le> 0xDBFF
                   then (case consume_all [0x5C, 0x75] s of
                           None \<Rightarrow> Inl kParseErrorStringUnicodeSurrogateInvalid
                         | Some s \<Rightarrow>
                             (case ParseHex4 s of
                                None \<Rightarrow> Inl kParseErrorStringUnicodeEscapeInvalidHex
                              | Some (codepoint2, s) \<Rightarrow>
                                  if codepoint2 < 0xDC00 \<or> codepoint2 > 0xDFFF
                                  then Inl kParseErrorStringUnicodeSurrogateInvalid
                                  else Inr (UTF8_Encode ((push_bit 10 (codepoint - 0xD800) OR (codepoint2 - 0xDC00)) + 0x10000), s)))
                   else Inr (UTF8_Encode codepoint, s))
         else Inl kParseErrorStringEscapeInvalid)"

lemma parse_hex_length: "parse_hex n cp s = Some (cp', s') \<Longrightarrow> length s' \<le> length s"
  by (induction n arbitrary: cp s) (fastforce split: option.splits)+

lemma Consume_iff: "Consume c s = Some s' \<longleftrightarrow> s = c # s'"
  by (cases s) (auto simp: Consume_def)

lemma consume_all_length: "consume_all cs s = Some s' \<Longrightarrow> length s' \<le> length s"
  by (induction cs arbitrary: s) (fastforce simp: Consume_iff split: option.splits)+

lemma parse_escape_length: "parse_escape s = Inr (out, s') \<Longrightarrow> length s' \<le> length s"
  by (auto simp: parse_escape_def Let_def ParseHex4_def split: if_splits option.splits prod.splits
      dest!: parse_hex_length simp: Consume_iff)

text \<open>The characters of a string behind its opening quote.\<close>

function parse_string :: "bstring \<Rightarrow> bstring \<Rightarrow> bstring parsed" where
  "parse_string os [] = ParseError kParseErrorStringMissQuotationMark"
| "parse_string os (c # s) =
     (if c = 0x5C
      then (case parse_escape s of
              Inl e \<Rightarrow> ParseError e
            | Inr (out, s) \<Rightarrow> parse_string (os @ out) s)
      else if c = 0x22 then Parsed os s
      else if c < 0x20
      then ParseError (if c = 0 then kParseErrorStringMissQuotationMark else kParseErrorStringInvalidEncoding)
      else parse_string (os @ [c]) s)"
  by pat_completeness auto
termination
  by (relation "measure (\<lambda>(os, s). length s)") (auto dest: parse_escape_length)

section \<open>Reader: values\<close>

text \<open>The document: a value of the tree the handler builds. The value of a number is not kept.\<close>

datatype Value = NullValue | BoolValue bool | NumberValue | StringValue bstring
  | ArrayValue "Value list" | ObjectValue "(bstring \<times> Value) list"

definition ParseLiteral :: "bstring \<Rightarrow> Value \<Rightarrow> bstring \<Rightarrow> Value parsed" where
  "ParseLiteral rest v s =
     (case consume_all rest s of None \<Rightarrow> ParseError kParseErrorValueInvalid | Some s \<Rightarrow> Parsed v s)"

type_synonym number_parser = "bstring \<Rightarrow> ParseErrorCode + bstring"

text \<open>\<open>parse_elements\<close> and \<open>parse_members\<close> are the loops of \<^verbatim>\<open>ParseArray\<close> and \<^verbatim>\<open>ParseObject\<close>.\<close>

function (sequential) ParseValue :: "number_parser \<Rightarrow> nat \<Rightarrow> bstring \<Rightarrow> Value parsed"
  and parse_elements :: "number_parser \<Rightarrow> nat \<Rightarrow> Value list \<Rightarrow> bstring \<Rightarrow> Value parsed"
  and parse_members :: "number_parser \<Rightarrow> nat \<Rightarrow> (bstring \<times> Value) list \<Rightarrow> bstring \<Rightarrow> Value parsed" where
  "ParseValue num 0 s = OutOfFuel"
| "ParseValue num (Suc n) s =
     (let c = Peek s
      in if c = 0x6E then ParseLiteral (ascii ''ull'') NullValue (tl s)
         else if c = 0x74 then ParseLiteral (ascii ''rue'') (BoolValue True) (tl s)
         else if c = 0x66 then ParseLiteral (ascii ''alse'') (BoolValue False) (tl s)
         else if c = 0x22
         then (case parse_string [] (tl s) of
                 Parsed str s \<Rightarrow> Parsed (StringValue str) s
               | ParseError e \<Rightarrow> ParseError e
               | OutOfFuel \<Rightarrow> OutOfFuel)
         else if c = 0x7B
         then (let s = SkipWhitespace (tl s)
               in case Consume 0x7D s of
                    Some s \<Rightarrow> Parsed (ObjectValue []) s
                  | None \<Rightarrow> parse_members num n [] s)
         else if c = 0x5B
         then (let s = SkipWhitespace (tl s)
               in case Consume 0x5D s of
                    Some s \<Rightarrow> Parsed (ArrayValue []) s
                  | None \<Rightarrow> parse_elements num n [] s)
         else (case num s of Inl e \<Rightarrow> ParseError e | Inr s \<Rightarrow> Parsed NumberValue s))"
| "parse_elements num 0 vs s = OutOfFuel"
| "parse_elements num (Suc n) vs s =
     (case ParseValue num (Suc n) s of
        ParseError e \<Rightarrow> ParseError e
      | OutOfFuel \<Rightarrow> OutOfFuel
      | Parsed v s \<Rightarrow>
          (let s = SkipWhitespace s
           in case Consume 0x2C s of
                Some s \<Rightarrow> parse_elements num n (vs @ [v]) (SkipWhitespace s)
              | None \<Rightarrow>
                  (case Consume 0x5D s of
                     Some s \<Rightarrow> Parsed (ArrayValue (vs @ [v])) s
                   | None \<Rightarrow> ParseError kParseErrorArrayMissCommaOrSquareBracket)))"
| "parse_members num 0 ms s = OutOfFuel"
| "parse_members num (Suc n) ms s =
     (case Consume 0x22 s of
        None \<Rightarrow> ParseError kParseErrorObjectMissName
      | Some s \<Rightarrow>
          (case parse_string [] s of
             ParseError e \<Rightarrow> ParseError e
           | OutOfFuel \<Rightarrow> OutOfFuel
           | Parsed name s \<Rightarrow>
               (case Consume 0x3A (SkipWhitespace s) of
                  None \<Rightarrow> ParseError kParseErrorObjectMissColon
                | Some s \<Rightarrow>
                    (case ParseValue num (Suc n) (SkipWhitespace s) of
                       ParseError e \<Rightarrow> ParseError e
                     | OutOfFuel \<Rightarrow> OutOfFuel
                     | Parsed v s \<Rightarrow>
                         (let s = SkipWhitespace s
                          in if Peek s = 0x2C then parse_members num n (ms @ [(name, v)]) (SkipWhitespace (tl s))
                             else if Peek s = 0x7D then Parsed (ObjectValue (ms @ [(name, v)])) (tl s)
                             else ParseError kParseErrorObjectMissCommaOrCurlyBracket)))))"
  by pat_completeness auto
termination
  by (relation "measure (\<lambda>x. case x of Inl (num, n, s) \<Rightarrow> 2 * n
      | Inr (Inl (num, n, vs, s)) \<Rightarrow> 2 * n + 1 | Inr (Inr (num, n, ms, s)) \<Rightarrow> 2 * n + 1)") auto

text \<open>\<^verbatim>\<open>Parse\<close>: one value, with nothing but white space around it.\<close>

definition Reader_Parse :: "number_parser \<Rightarrow> bstring \<Rightarrow> Value parsed" where
  "Reader_Parse num text =
     (let s = SkipWhitespace text
      in if Peek s = 0 then ParseError kParseErrorDocumentEmpty
         else (case ParseValue num (Suc (length s)) s of
                 Parsed v s \<Rightarrow>
                   (let s = SkipWhitespace s
                    in if Peek s \<noteq> 0 then ParseError kParseErrorDocumentRootNotSingular else Parsed v s)
               | r \<Rightarrow> r))"

definition Document_Parse :: "number_parser \<Rightarrow> bstring \<Rightarrow> Value parsed" where
  "Document_Parse num str = Reader_Parse num (c_bytes str)"

end
