(* ===== verification/Rapidjson_Correct.thy ===== *)
theory Rapidjson_Correct
  imports Rapidjson
begin

text \<open>
  The reader undoes the writer on strings of any bytes and on the documents the property manager writes, arrays
  of objects with string members; and the reader always ends: the fuel of \<open>Reader_Parse\<close> is enough.
\<close>

section \<open>Strings\<close>

lemma hex_value_digit: "n < 16 \<Longrightarrow> hex_value (hexDigits ! n) = Some (of_nat n)"
proof -
  have "\<forall>n\<in>set [0..<16]. hex_value (hexDigits ! n) = Some (of_nat n)" by code_simp
  then show "n < 16 \<Longrightarrow> hex_value (hexDigits ! n) = Some (of_nat n)" by simp
qed

text \<open>The characters that are written as numbers, one by one.\<close>

definition control_ok :: "byte \<Rightarrow> bool" where
  "control_ok c \<longleftrightarrow> push_bit 4 (of_nat (unat (drop_bit 4 c))) + of_nat (unat (c AND 0xF)) = (ucast c :: u32)
     \<and> UTF8_Encode (ucast c) = [c] \<and> \<not> 0xD800 \<le> (ucast c :: u32)
     \<and> unat (drop_bit 4 c) < 16 \<and> unat (c AND 0xF) < 16"

lemma control_character: "c < 0x20 \<Longrightarrow> control_ok c"
proof -
  have all: "\<forall>n\<in>set [0..<32]. control_ok (of_nat n)" by code_simp
  have same: "of_nat (unat c) = c" by simp
  assume "c < 0x20"
  then have "unat c \<in> set [0..<32]" by (simp add: word_less_nat_alt)
  from bspec [OF all this, unfolded same] show "control_ok c" .
qed

lemma parse_hex_control:
  assumes "control_ok c"
  shows "ParseHex4 (0x30 # 0x30 # hexDigits ! unat (drop_bit 4 c) # hexDigits ! unat (c AND 0xF) # s) = Some (ucast c, s)"
proof -
  have "hex_value 0x30 = Some 0" by code_simp
  moreover have "ParseHex4 t = parse_hex (Suc (Suc (Suc (Suc 0)))) 0 t" for t
    by (simp add: ParseHex4_def numeral_eq_Suc)
  ultimately show ?thesis
    using assms by (simp add: control_ok_def Peek_def hex_value_digit)
qed

lemma parse_write_char: "parse_string os (write_char c @ s) = parse_string (os @ [c]) s"
proof (cases "write_escape c = 0x75")
  case True
  then have "c < 0x20" by (auto simp: write_escape_def split: if_splits)
  note ok = control_character [OF this]
  have "parse_escape (0x75 # 0x30 # 0x30 # hexDigits ! unat (drop_bit 4 c) # hexDigits ! unat (c AND 0xF) # s) = Inr ([c], s)"
    using parse_hex_control [OF ok, of s] ok
    by (simp add: parse_escape_def Peek_def read_escape_def control_ok_def)
  then show ?thesis using True by (simp add: write_char_def)
next
  case False
  then show ?thesis
    by (auto simp: write_char_def write_escape_def parse_escape_def Peek_def read_escape_def Let_def)
qed

lemma parse_string_write: "parse_string os (concat (map write_char str) @ 0x22 # s) = Parsed (os @ str) s"
  by (induction str arbitrary: os) (simp_all add: parse_write_char)

lemma length_write_char: "0 < length (write_char c)"
  by (simp add: write_char_def Let_def)

section \<open>Documents\<close>

text \<open>The text of an array of objects with string members.\<close>

definition member_text :: "bstring \<times> bstring \<Rightarrow> bstring" where
  "member_text = (\<lambda>(k, v). WriteString (c_bytes k) @ 0x3A # WriteString (c_bytes v))"

definition object_text :: "(bstring \<times> bstring) list \<Rightarrow> bstring" where
  "object_text ms = 0x7B # joined [0x2C] (map member_text ms) @ [0x7D]"

definition array_text :: "(bstring \<times> bstring) list list \<Rightarrow> bstring" where
  "array_text os = 0x5B # joined [0x2C] (map object_text os) @ [0x5D]"

definition object_value :: "(bstring \<times> bstring) list \<Rightarrow> Value" where
  "object_value ms = ObjectValue (map (\<lambda>(k, v). (c_bytes k, StringValue (c_bytes v))) ms)"

lemma SkipWhitespace_simps [simp]:
  "SkipWhitespace [] = []"
  "c \<notin> {0x20, 0x0A, 0x0D, 0x09} \<Longrightarrow> SkipWhitespace (c # s) = c # s"
  by (auto simp: SkipWhitespace_def)

lemma Peek_Cons [simp]: "Peek (c # s) = c"
  by (simp add: Peek_def)

lemma Consume_Cons [simp]: "Consume c (d # s) = (if c = d then Some s else None)"
  by (simp add: Consume_def)

lemma joined_more: "joined sep (p # ps) = p @ (if ps = [] then [] else sep @ joined sep ps)"
  by (cases ps) simp_all

lemma parse_member:
  "parse_members num (Suc n) acc (member_text (k, v) @ s) =
   (let acc' = acc @ [(c_bytes k, StringValue (c_bytes v))]; s = SkipWhitespace s
    in if Peek s = 0x2C then parse_members num n acc' (SkipWhitespace (tl s))
       else if Peek s = 0x7D then Parsed (ObjectValue acc') (tl s)
       else ParseError kParseErrorObjectMissCommaOrCurlyBracket)"
  by (simp add: member_text_def WriteString_def parse_string_write Let_def)

lemma member_text_Cons: "\<exists>t. member_text m = 0x22 # t"
  by (cases m) (simp add: member_text_def WriteString_def)

lemma parse_members_text:
  "ms \<noteq> [] \<Longrightarrow> length ms < n \<Longrightarrow>
   parse_members num n acc (joined [0x2C] (map member_text ms) @ 0x7D # s) =
     Parsed (ObjectValue (acc @ map (\<lambda>(k, v). (c_bytes k, StringValue (c_bytes v))) ms)) s"
proof (induction ms arbitrary: n acc)
  case (Cons m ms)
  obtain k v where m: "m = (k, v)" by (cases m) auto
  obtain n' where n: "n = Suc n'" using Cons.prems(2) by (cases n) auto
  show ?case
  proof (cases ms)
    case Nil
    then show ?thesis using parse_member [of num n' acc k v "0x7D # s"] m n by simp
  next
    case (Cons m2 ms2)
    obtain t where t: "member_text m2 = 0x22 # t" using member_text_Cons by blast
    have "SkipWhitespace (joined [0x2C] (map member_text ms) @ 0x7D # s) = joined [0x2C] (map member_text ms) @ 0x7D # s"
      using Cons t by (simp add: joined_more)
    then show ?thesis
      using parse_member [of num n' acc k v "0x2C # joined [0x2C] (map member_text ms) @ 0x7D # s"] m n Cons
        Cons.IH [of n'] Cons.prems(2) by (simp add: joined_Cons)
  qed
qed simp

lemma parse_object_text:
  assumes "Suc (length ms) < n"
  shows "ParseValue num n (object_text ms @ s) = Parsed (object_value ms) s"
proof -
  obtain n' where n: "n = Suc n'" using assms by (cases n) auto
  show ?thesis
  proof (cases ms)
    case Nil
    then show ?thesis using n by (simp add: object_text_def object_value_def Let_def)
  next
    case (Cons m ms')
    obtain t where t: "joined [0x2C] (map member_text ms) = 0x22 # t"
      using member_text_Cons [of m] Cons by (auto simp: joined_more)
    have "parse_members num n' [] (joined [0x2C] (map member_text ms) @ 0x7D # s) = Parsed (object_value ms) s"
      using parse_members_text [of ms n' num "[]" s] assms n Cons by (simp add: object_value_def)
    then show ?thesis using n t by (simp add: object_text_def Let_def)
  qed
qed

lemma object_text_Cons: "\<exists>t. object_text m = 0x7B # t"
  by (simp add: object_text_def)

lemma parse_elements_text:
  "os \<noteq> [] \<Longrightarrow> length os + Max (length ` set os) + 1 < n \<Longrightarrow>
   parse_elements num n acc (joined [0x2C] (map object_text os) @ 0x5D # s) =
     Parsed (ArrayValue (acc @ map object_value os)) s"
proof (induction os arbitrary: n acc)
  case (Cons ms os)
  obtain n' where n: "n = Suc n'" using Cons.prems(2) by (cases n) auto
  have len: "length ms \<le> Max (length ` set (ms # os))" by (rule Max_ge) auto
  have obj: "ParseValue num (Suc n') (object_text ms @ r) = Parsed (object_value ms) r" for r
    by (rule parse_object_text) (use len Cons.prems(2) n in linarith)
  show ?case
  proof (cases os)
    case Nil
    then show ?thesis using obj n by (simp add: Let_def)
  next
    case (Cons m2 os2)
    have "Max (length ` set os) \<le> Max (length ` set (ms # os))"
      by (rule Max_mono) (use Cons in auto)
    then have small: "length os + Max (length ` set os) + 1 < n'" using Cons.prems(2) n by simp
    obtain t where t: "object_text m2 = 0x7B # t" using object_text_Cons by blast
    have "SkipWhitespace (joined [0x2C] (map object_text os) @ 0x5D # s) = joined [0x2C] (map object_text os) @ 0x5D # s"
      using Cons t by (simp add: joined_more)
    then show ?thesis
      using obj n Cons Cons.IH [OF _ small] by (simp add: joined_Cons Let_def)
  qed
qed simp

lemma length_object_text: "length ms + 2 \<le> length (object_text ms)"
proof -
  have "length ms \<le> length (joined [0x2C] (map member_text ms))"
  proof (induction ms)
    case (Cons m ms)
    obtain t where "member_text m = 0x22 # t" using member_text_Cons by blast
    then show ?case using Cons by (simp add: joined_more)
  qed simp
  then show ?thesis by (simp add: object_text_def)
qed

lemma length_array_text: "length os + length ms + 2 \<le> length (array_text os)" if "ms \<in> set os"
proof -
  have "length os + length ms \<le> length (joined [0x2C] (map object_text os))" using that
  proof (induction os)
    case (Cons m os)
    show ?case
    proof (cases "ms \<in> set os")
      case True
      then show ?thesis using Cons.IH length_object_text [of m] by (auto simp: joined_more)
    next
      case False
      then have "m = ms" using Cons.prems by simp
      moreover have "length os \<le> length (joined [0x2C] (map object_text os))"
      proof (induction os)
        case (Cons m os)
        then show ?case using length_object_text [of m] by (auto simp: joined_more)
      qed simp
      ultimately show ?thesis using length_object_text [of ms] by (auto simp: joined_more)
    qed
  qed simp
  then show ?thesis by (simp add: array_text_def)
qed

text \<open>The text is read back, whatever white space follows it.\<close>

lemma Reader_Parse_text:
  assumes "SkipWhitespace ws = []"
  shows "Reader_Parse num (array_text os @ ws) = Parsed (ArrayValue (map object_value os)) []"
proof (cases "os = []")
  case True
  then show ?thesis using assms by (simp add: Reader_Parse_def array_text_def Let_def Peek_def)
next
  case False
  let ?s = "array_text os @ ws"
  have "Max (length ` set os) \<in> length ` set os" using False by (intro Max_in) auto
  then obtain ms where ms: "ms \<in> set os" "Max (length ` set os) = length ms" by auto
  then have fuel: "length os + Max (length ` set os) + 1 < length ?s" using length_array_text [OF ms(1)] by simp
  obtain m os' where os: "os = m # os'" using False by (cases os) auto
  obtain t where t: "object_text m = 0x7B # t" using object_text_Cons by blast
  have skip: "SkipWhitespace (joined [0x2C] (map object_text os) @ 0x5D # ws) = joined [0x2C] (map object_text os) @ 0x5D # ws"
    and no: "Consume 0x5D (joined [0x2C] (map object_text os) @ 0x5D # ws) = None"
    using os t by (simp_all add: joined_more)
  have "ParseValue num (Suc (length ?s)) ?s = Parsed (ArrayValue (map object_value os)) ws"
    using parse_elements_text [OF False fuel, of num "[]" ws] skip no by (simp add: array_text_def Let_def)
  then show ?thesis using assms by (simp add: Reader_Parse_def array_text_def Let_def Peek_def)
qed

lemma write_char_no_zero: "c \<noteq> 0 \<Longrightarrow> 0 \<notin> set (write_char c)"
proof -
  have "0 \<notin> set hexDigits" "length hexDigits = 16" by code_simp+
  then have "n < 16 \<Longrightarrow> hexDigits ! n \<noteq> 0" for n by (metis nth_mem)
  then show "c \<noteq> 0 \<Longrightarrow> 0 \<notin> set (write_char c)"
    using control_character [of c] by (auto simp: write_char_def write_escape_def Let_def control_ok_def)
qed

lemma set_joined: "set (joined sep ps) \<subseteq> set sep \<union> (\<Union>p\<in>set ps. set p)"
  by (induction sep ps rule: joined.induct) auto

lemma array_text_no_zero: "0 \<notin> set (array_text os)"
proof -
  have w: "0 \<notin> set (WriteString (c_bytes s))" for s
  proof -
    have "0 \<notin> set (write_char c)" if "c \<in> set (c_bytes s)" for c
      by (rule write_char_no_zero) (use that c_bytes_no_zero [of s] in metis)
    then show ?thesis by (auto simp: WriteString_def)
  qed
  then have "0 \<notin> set (member_text m)" for m by (cases m) (simp add: member_text_def)
  then have "0 \<notin> set (object_text ms)" for ms
    using set_joined [of "[0x2C]" "map member_text ms"] by (auto simp: object_text_def)
  then show ?thesis
    using set_joined [of "[0x2C]" "map object_text os"] by (auto simp: array_text_def)
qed

section \<open>The writer writes these texts\<close>

definition write_members :: "(bstring \<times> bstring) list \<Rightarrow> Writer \<Rightarrow> Writer" where
  "write_members ms w = fold (\<lambda>(k, v) w. Writer_String v (Writer_Key k w)) ms w"

definition write_object :: "(bstring \<times> bstring) list \<Rightarrow> Writer \<Rightarrow> Writer" where
  "write_object ms w = EndObject (write_members ms (StartObject w))"

definition write_array :: "(bstring \<times> bstring) list list \<Rightarrow> bstring" where
  "write_array os = wr_os (EndArray (fold write_object os (StartArray Writer_new)))"

definition after :: "bool \<Rightarrow> bstring \<Rightarrow> bstring" where
  "after none text = (if none then [] else [0x2C]) @ text"

lemma write_members_text:
  "wr_levels w = (False, 2 * i) # ls \<Longrightarrow>
   write_members ms w = w\<lparr>wr_os := wr_os w @ after (i = 0 \<or> ms = []) (joined [0x2C] (map member_text ms)),
     wr_levels := (False, 2 * (i + length ms)) # ls\<rparr>"
proof (induction ms arbitrary: w i)
  case Nil
  then show ?case by (simp add: write_members_def after_def)
next
  case (Cons m ms)
  obtain k v where m: "m = (k, v)" by (cases m) auto
  let ?w = "w\<lparr>wr_os := wr_os w @ after (i = 0) (member_text m), wr_levels := (False, 2 * Suc i) # ls\<rparr>"
  have "Writer_String v (Writer_Key k w) = ?w"
    using Cons.prems m by (simp add: Writer_String_def Writer_Key_def Prefix_def Put_def member_text_def after_def WriteString_def)
  then have "write_members (m # ms) w = write_members ms ?w" using m by (simp add: write_members_def)
  also have "\<dots> = ?w\<lparr>wr_os := wr_os ?w @ after (Suc i = 0 \<or> ms = []) (joined [0x2C] (map member_text ms)),
     wr_levels := (False, 2 * (Suc i + length ms)) # ls\<rparr>"
    by (rule Cons.IH) simp
  finally show ?case
    by (auto simp: after_def joined_more)
qed

lemma write_object_text:
  assumes "wr_levels w = (True, i) # ls"
  shows "write_object ms w = w\<lparr>wr_os := wr_os w @ after (i = 0) (object_text ms), wr_levels := (True, Suc i) # ls\<rparr>"
  using assms write_members_text [where i = 0]
  by (simp add: write_object_def StartObject_def EndObject_def Prefix_def Put_def object_text_def after_def Let_def)

lemma write_objects_text:
  "wr_levels w = (True, i) # ls \<Longrightarrow>
   fold write_object os w = w\<lparr>wr_os := wr_os w @ after (i = 0 \<or> os = []) (joined [0x2C] (map object_text os)),
     wr_levels := (True, i + length os) # ls\<rparr>"
proof (induction os arbitrary: w i)
  case (Cons ms os)
  then show ?case
    by (auto simp: write_object_text after_def joined_more)
qed (simp add: after_def)

lemma write_array_text: "write_array os = array_text os"
  using write_objects_text [where i = 0 and os = os]
  by (simp add: write_array_def StartArray_def EndArray_def Prefix_def Put_def array_text_def after_def Writer_new_def Let_def)

section \<open>The reader ends\<close>

text \<open>A result that is not \<open>OutOfFuel\<close> and leaves at most \<open>m\<close> bytes.\<close>

definition ends :: "nat \<Rightarrow> 'a parsed \<Rightarrow> bool" where
  "ends m r \<longleftrightarrow> (case r of OutOfFuel \<Rightarrow> False | ParseError _ \<Rightarrow> True | Parsed _ s \<Rightarrow> length s \<le> m)"

lemma ends_simps [simp]: "ends m (ParseError e)" "\<not> ends m OutOfFuel" "ends m (Parsed v s) \<longleftrightarrow> length s \<le> m"
  by (simp_all add: ends_def)

lemma ends_mono: "ends m r \<Longrightarrow> m \<le> m' \<Longrightarrow> ends m' r"
  by (auto simp: ends_def split: parsed.splits)

lemma SkipWhitespace_length: "length (SkipWhitespace s) \<le> length s"
  by (simp add: SkipWhitespace_def length_dropWhile_le)

lemma parse_string_ends: "ends (length s) (parse_string os s)"
proof (induction os s rule: parse_string.induct)
  case (2 os c s)
  show ?case
  proof (cases "c = 0x5C")
    case True
    show ?thesis
    proof (cases "parse_escape s")
      case (Inr r)
      obtain out t where r: "r = (out, t)" by (cases r) auto
      have "ends (length t) (parse_string (os @ out) t)" by (rule 2(1) [OF True Inr r [symmetric]])
      then show ?thesis using True Inr r parse_escape_length [of s out t] by (auto elim: ends_mono)
    qed (simp add: True)
  next
    case False
    then show ?thesis using 2(2) by (auto intro: ends_mono [of "length s"])
  qed
qed simp

lemma ParseLiteral_ends: "ends (length s) (ParseLiteral cs v s)"
  using consume_all_length [of cs s] by (auto simp: ParseLiteral_def split: option.splits)

definition number_ok :: "number_parser \<Rightarrow> bool" where
  "number_ok num \<longleftrightarrow> (\<forall>s s'. num s = Inr s' \<longrightarrow> length s' \<le> length s)"

lemma Consume_length: "Consume c s = Some s' \<Longrightarrow> length s = Suc (length s')"
  by (simp add: Consume_iff)

lemma reader_ends:
  shows "number_ok num \<Longrightarrow> length s < n \<Longrightarrow> ends (length s) (ParseValue num n s)"
    and "number_ok num \<Longrightarrow> length s < n \<Longrightarrow> ends (length s) (parse_elements num n vs s)"
    and "number_ok num \<Longrightarrow> length s < n \<Longrightarrow> ends (length s) (parse_members num n ms s)"
proof (induction num n s and num n vs s and num n ms s rule: ParseValue_parse_elements_parse_members.induct)
  case (2 num n s)
  have number: "ends (length s) (case num s of Inl e \<Rightarrow> ParseError e | Inr s \<Rightarrow> Parsed NumberValue s)"
    using 2(3) by (cases "num s") (auto simp: number_ok_def)
  show ?case
  proof (cases s)
    case Nil
    then show ?thesis using number by (simp add: Peek_def)
  next
    case (Cons c t)
    let ?t = "SkipWhitespace t"
    have t: "length ?t \<le> length t" by (rule SkipWhitespace_length)
    have lit: "ends (Suc (length t)) (ParseLiteral cs v t)" for cs v
      by (rule ends_mono [OF ParseLiteral_ends]) simp
    have str: "ends (length t) (parse_string [] t)" by (rule parse_string_ends)
    have obj: "ends (Suc (length t)) (parse_members num n [] ?t)" if "c = 0x7B" "Consume 0x7D ?t = None"
      by (rule ends_mono [OF 2(1)]) (use that Cons 2(3,4) t in auto)
    have arr: "ends (Suc (length t)) (parse_elements num n [] ?t)" if "c = 0x5B" "Consume 0x5D ?t = None"
      by (rule ends_mono [OF 2(2)]) (use that Cons 2(3,4) t in auto)
    show ?thesis
      using lit str obj arr t number Cons
      by (auto simp: Let_def split: option.splits parsed.splits dest!: Consume_length)
  qed
next
  case (4 num n vs s)
  note v = 4(1) [OF 4(3,4)]
  show ?case
  proof (cases "ParseValue num (Suc n) s")
    case (Parsed val r)
    let ?r = "SkipWhitespace r"
    have r: "length ?r \<le> length s" using v Parsed SkipWhitespace_length [of r] by simp
    show ?thesis
    proof (cases "Consume 0x2C ?r")
      case None
      then show ?thesis using Parsed r by (auto simp: Let_def split: option.splits dest: Consume_length)
    next
      case (Some u)
      have u: "length (SkipWhitespace u) < n" "length (SkipWhitespace u) \<le> length s"
        using Consume_length [OF Some] r SkipWhitespace_length [of u] 4(4) by auto
      have "ends (length (SkipWhitespace u)) (parse_elements num n (vs @ [val]) (SkipWhitespace u))"
        by (rule 4(2) [OF Parsed refl Some 4(3) u(1)])
      then show ?thesis using Parsed Some ends_mono [OF _ u(2)] by (simp add: Let_def)
    qed
  qed (use v in simp_all)
next
  case (6 num n ms s)
  show ?case
  proof (cases "Consume 0x22 s")
    case (Some q)
    note q = Consume_length [OF Some]
    show ?thesis
    proof (cases "parse_string [] q")
      case (Parsed name r)
      have r: "length r \<le> length q" using parse_string_ends [of q "[]"] Parsed by simp
      show ?thesis
      proof (cases "Consume 0x3A (SkipWhitespace r)")
        case colon: (Some u)
        have u: "length (SkipWhitespace u) < length s"
          using Consume_length [OF colon] SkipWhitespace_length [of r] SkipWhitespace_length [of u] r q by simp
        have v: "ends (length (SkipWhitespace u)) (ParseValue num (Suc n) (SkipWhitespace u))"
          by (rule 6(1) [OF Some Parsed colon 6(3)]) (use u 6(4) in simp)
        show ?thesis
        proof (cases "ParseValue num (Suc n) (SkipWhitespace u)")
          case res: (Parsed val w)
          let ?w = "SkipWhitespace w"
          have w: "length ?w < length s" using v res u SkipWhitespace_length [of w] by simp
          have tl: "length (SkipWhitespace (tl ?w)) \<le> length s" "length (SkipWhitespace (tl ?w)) < n"
            using SkipWhitespace_length [of "tl ?w"] w 6(4) by auto
          have "ends (length (SkipWhitespace (tl ?w))) (parse_members num n (ms @ [(name, val)]) (SkipWhitespace (tl ?w)))"
            if "Peek ?w = 0x2C"
            by (rule 6(2) [OF Some Parsed colon res refl that 6(3) tl(2)])
          then show ?thesis using Some Parsed colon res w ends_mono [OF _ tl(1)] by (auto simp: Let_def)
        qed (use Some Parsed colon v in simp_all)
      qed (use Some Parsed in simp_all)
    qed (use Some parse_string_ends [of q "[]"] in simp_all)
  qed simp
qed simp_all

lemma Document_Parse_ends:
  assumes "number_ok num"
  shows "Document_Parse num text \<noteq> OutOfFuel"
proof -
  let ?s = "SkipWhitespace (c_bytes text)"
  have "ends (length ?s) (ParseValue num (Suc (length ?s)) ?s)" by (rule reader_ends(1) [OF assms]) simp
  then show ?thesis
    by (cases "ParseValue num (Suc (length ?s)) ?s") (simp_all add: Document_Parse_def Reader_Parse_def Let_def)
qed

end
