(* ===== verification/Property_Manager.thy ===== *)
theory Property_Manager
  imports Vfs_Pack Rapidjson_Correct "HOL-Library.List_Lexorder"
begin

text \<open>
  \<^verbatim>\<open>VFSLib/src/VFSPropertyManager.cpp\<close>: the property files of a directory are collected into one JSON file, and the
  properties of an object are looked up in it by checksum. A \<^verbatim>\<open>std::map\<close> is the list of its entries in the order of
  their keys. The file system is a parameter: \<open>ps_read\<close> and \<open>ps_read_narrow\<close> are what a wide binary stream reads.
\<close>

section \<open>Ordered maps and numbers\<close>

text \<open>\<^verbatim>\<open>std::map::emplace\<close> keeps an entry that is there.\<close>

fun map_emplace :: "'k::linorder \<Rightarrow> 'v \<Rightarrow> ('k \<times> 'v) list \<Rightarrow> ('k \<times> 'v) list" where
  "map_emplace k v [] = [(k, v)]"
| "map_emplace k v ((k', v') # m) =
     (if k < k' then (k, v) # (k', v') # m
      else if k = k' then (k', v') # m
      else (k', v') # map_emplace k v m)"

text \<open>\<^verbatim>\<open>std::to_string\<close>.\<close>

fun decimal :: "nat \<Rightarrow> bstring" where
  "decimal n = (if n < 10 then [of_nat (48 + n)] else decimal (n div 10) @ [of_nat (48 + n mod 10)])"

declare decimal.simps [simp del]

definition to_string :: "u32 \<Rightarrow> bstring" where
  "to_string crc = decimal (unat crc)"

section \<open>Looking up\<close>

text \<open>
  \<^verbatim>\<open>GetString\<close> is for strings only; it ends at a zero. \<^verbatim>\<open>Clear\<close> is for arrays; it reads the number of elements, which
  null, the truth values and the empty object keep as zero, and does nothing to them.
\<close>

definition GetString :: "Value \<Rightarrow> bstring outcome" where
  "GetString v = (case v of StringValue s \<Rightarrow> Returns (c_bytes s) | _ \<Rightarrow> Undefined)"

definition document_clear :: "Value \<Rightarrow> unit outcome" where
  "document_clear v =
     (case v of NullValue \<Rightarrow> Returns () | BoolValue _ \<Rightarrow> Returns () | ArrayValue _ \<Rightarrow> Returns ()
      | ObjectValue [] \<Rightarrow> Returns () | _ \<Rightarrow> Undefined)"

fun read_members :: "(bstring \<times> Value) list \<Rightarrow> (bstring \<times> bstring) list \<Rightarrow> (bstring \<times> bstring) list outcome" where
  "read_members [] parsed = Returns parsed"
| "read_members ((name, v) # ms) parsed =
     (case GetString v of
        Undefined \<Rightarrow> Undefined
      | Returns s \<Rightarrow> read_members ms (map_emplace (c_bytes name) s parsed))"

fun find_object ::
  "Value list \<Rightarrow> u32 \<Rightarrow> (bstring \<times> bstring) list \<Rightarrow> (bool \<times> (bstring \<times> bstring) list) outcome" where
  "find_object [] dwCRC content = Returns (False, content)"
| "find_object (ObjectValue ms # vs) dwCRC content =
     (case read_members ms [] of
        Undefined \<Rightarrow> Undefined
      | Returns parsed \<Rightarrow>
          let parsed = map_emplace (ascii ''crc'') [] parsed
          in if map_of parsed (ascii ''crc'') = Some (to_string dwCRC)
             then Returns (True, fold (\<lambda>(k, v) content. map_emplace k v content) parsed content)
             else find_object vs dwCRC content)"
| "find_object (_ # vs) dwCRC content = Returns (False, content)"

definition GetPropertyObject ::
  "number_parser \<Rightarrow> bstring \<Rightarrow> u32 \<Rightarrow> (bstring \<times> bstring) list \<Rightarrow> (bool \<times> (bstring \<times> bstring) list) outcome" where
  "GetPropertyObject num strPropertyFileContent dwCRC content =
     (case Document_Parse num strPropertyFileContent of
        OutOfFuel \<Rightarrow> Undefined
      | ParseError _ \<Rightarrow> Returns (False, content)
      | Parsed (ArrayValue vs) _ \<Rightarrow> find_object vs dwCRC content
      | Parsed v _ \<Rightarrow> (case document_clear v of Undefined \<Rightarrow> Undefined | Returns _ \<Rightarrow> Returns (False, content)))"

fun read_objects ::
  "Value list \<Rightarrow> (bstring \<times> bstring) list list \<Rightarrow> (bool \<times> (bstring \<times> bstring) list list) outcome" where
  "read_objects [] vPropertyItems = Returns (True, vPropertyItems)"
| "read_objects (ObjectValue ms # vs) vPropertyItems =
     (case read_members ms [] of
        Undefined \<Rightarrow> Undefined
      | Returns container \<Rightarrow> read_objects vs (vPropertyItems @ [container]))"
| "read_objects (_ # vs) vPropertyItems = Returns (False, vPropertyItems)"

definition LoadPropertyList ::
  "number_parser \<Rightarrow> bstring \<Rightarrow> (bstring \<times> bstring) list list \<Rightarrow> (bool \<times> (bstring \<times> bstring) list list) outcome" where
  "LoadPropertyList num strPropertyFileContent vPropertyItems =
     (if strPropertyFileContent = [] then Returns (False, vPropertyItems)
      else (case Document_Parse num strPropertyFileContent of
              OutOfFuel \<Rightarrow> Undefined
            | ParseError _ \<Rightarrow> Returns (False, vPropertyItems)
            | Parsed (ArrayValue vs) _ \<Rightarrow> read_objects vs vPropertyItems
            | Parsed v _ \<Rightarrow> (case document_clear v of Undefined \<Rightarrow> Undefined | Returns _ \<Rightarrow> Returns (False, vPropertyItems))))"

section \<open>The files\<close>

record 'w property_system =
  ps_exists :: "bstring \<Rightarrow> 'w \<Rightarrow> bool"
  ps_file_size :: "bstring \<Rightarrow> 'w \<Rightarrow> nat"
  ps_read :: "wstring \<Rightarrow> 'w \<Rightarrow> wstring option"
  ps_read_narrow :: "bstring \<Rightarrow> 'w \<Rightarrow> wstring option"
  ps_walk :: "bstring \<Rightarrow> 'w \<Rightarrow> wstring list option"

definition LoadPropertyFile :: "'w property_system \<Rightarrow> bstring \<Rightarrow> 'w \<Rightarrow> bstring" where
  "LoadPropertyFile ps file w =
     (if \<not> ps_exists ps file w then []
      else if ps_file_size ps file w = 0 then []
      else (case ps_read_narrow ps (c_bytes file) w of
              None \<Rightarrow> []
            | Some wstrcontent \<Rightarrow> map ucast wstrcontent))"

text \<open>The extension of a path: from the last point of the name behind the last separator, if that is not the first character.\<close>

definition path_filename :: "wstring \<Rightarrow> wstring" where
  "path_filename path = rev (takeWhile (\<lambda>c. c \<noteq> 0x5C \<and> c \<noteq> 0x2F) (rev path))"

definition path_extension :: "wstring \<Rightarrow> wstring" where
  "path_extension path =
     (let name = path_filename path;
          ext = rev (takeWhile (\<lambda>c. c \<noteq> 0x2E) (rev name))
      in if length name \<le> length ext + 1 \<or> name = [0x2E, 0x2E] then [] else 0x2E # ext)"

definition is_property_file :: "wstring \<Rightarrow> bool" where
  "is_property_file path \<longleftrightarrow> path_extension path \<in>
     set (map (map of_char) [''.pra'', ''.prb'', ''.prd'', ''.pre'', ''.prt''])"

text \<open>
  One line, with its number: the first is a magic word, the second the checksum, the others a key and a quoted value
  between two tabulators. \<open>None\<close> outside is a loop that does not end, inside a file that is refused.
\<close>

definition property_line :: "nat \<Rightarrow> wstring \<Rightarrow> (wstring \<times> wstring) list \<Rightarrow> (wstring \<times> wstring) list option option" where
  "property_line i line parsedcontents =
     (if line = [] then Some (Some parsedcontents)
      else if i = 0 then Some (Some parsedcontents)
      else if i = 1 then Some (Some (map_emplace (map of_char ''crc'') line parsedcontents))
      else (case SplitString line [0x09, 0x09] of
              None \<Rightarrow> None
            | Some splittedline \<Rightarrow>
                if length splittedline \<noteq> 2 then Some None
                else (case ReplaceString (splittedline ! 1) [0x22] [] of
                        None \<Rightarrow> None
                      | Some fixedvalue \<Rightarrow> Some (Some (map_emplace (splittedline ! 0) fixedvalue parsedcontents)))))"

fun property_lines :: "nat \<Rightarrow> wstring list \<Rightarrow> (wstring \<times> wstring) list \<Rightarrow> (wstring \<times> wstring) list option option" where
  "property_lines i [] parsedcontents = Some (Some parsedcontents)"
| "property_lines i (line # lines) parsedcontents =
     (case property_line i line parsedcontents of
        None \<Rightarrow> None
      | Some None \<Rightarrow> Some None
      | Some (Some parsedcontents) \<Rightarrow> property_lines (Suc i) lines parsedcontents)"

definition property_file :: "wstring \<Rightarrow> wstring \<Rightarrow> (wstring \<times> wstring) list option option" where
  "property_file path content =
     (if content = [] then Some None
      else (case SplitString content [0x0A] of
              None \<Rightarrow> None
            | Some lines \<Rightarrow>
                if lines = [] then Some None
                else (case property_lines 0 lines [] of
                        None \<Rightarrow> None
                      | Some None \<Rightarrow> Some None
                      | Some (Some parsedcontents) \<Rightarrow>
                          if parsedcontents = [] then Some None
                          else Some (Some (map_emplace (map of_char ''filename'') path parsedcontents)))))"

fun collect_files ::
  "'w property_system \<Rightarrow> wstring list \<Rightarrow> (wstring \<times> (wstring \<times> wstring) list) list \<Rightarrow> 'w
     \<Rightarrow> (wstring \<times> (wstring \<times> wstring) list) list option option" where
  "collect_files ps [] propertyFiles w = Some (Some propertyFiles)"
| "collect_files ps (path # paths) propertyFiles w =
     (if \<not> is_property_file path then collect_files ps paths propertyFiles w
      else (case ps_read ps path w of
              None \<Rightarrow> Some None
            | Some content \<Rightarrow>
                (case property_file path content of
                   None \<Rightarrow> None
                 | Some None \<Rightarrow> Some None
                 | Some (Some parsedcontents) \<Rightarrow>
                     collect_files ps paths (map_emplace path parsedcontents propertyFiles) w)))"

text \<open>
  The text of \<^verbatim>\<open>PropertyList.json\<close>: a text stream pads to a width of four characters and ends the line with a carriage
  return and a line feed. \<open>GenerateThrows\<close> is an exception of the directory iterator.
\<close>

definition narrow_object :: "(wstring \<times> wstring) list \<Rightarrow> (bstring \<times> bstring) list" where
  "narrow_object content = map (\<lambda>(k, v). (ToString k, ToString v)) content"

datatype generated = Generated bstring | NotGenerated | GenerateThrows

definition property_list_text :: "(wstring \<times> (wstring \<times> wstring) list) list \<Rightarrow> bstring" where
  "property_list_text propertyFiles =
     (let s = c_bytes (write_array (map (narrow_object \<circ> snd) propertyFiles))
      in replicate (4 - length s) 0x20 @ s @ [0x0D, 0x0A])"

definition GeneratePropertyList :: "'w property_system \<Rightarrow> bstring \<Rightarrow> 'w \<Rightarrow> generated option" where
  "GeneratePropertyList ps strPropertyDir w =
     (if \<not> ps_exists ps strPropertyDir w then Some NotGenerated
      else (case ps_walk ps strPropertyDir w of
              None \<Rightarrow> Some GenerateThrows
            | Some paths \<Rightarrow>
                (case collect_files ps paths [] w of
                   None \<Rightarrow> None
                 | Some None \<Rightarrow> Some NotGenerated
                 | Some (Some propertyFiles) \<Rightarrow>
                     if propertyFiles = [] then Some NotGenerated
                     else Some (Generated (property_list_text propertyFiles)))))"

text \<open>
  \<^verbatim>\<open>VFSPropertyGenerator/src/main.cpp\<close>: the status and what \<^verbatim>\<open>PropertyList.json\<close> holds afterwards; the old file is
  deleted before the directory is read.
\<close>

definition generator_main ::
  "'w property_system \<Rightarrow> bstring list \<Rightarrow> bstring option \<Rightarrow> 'w \<Rightarrow> (int \<times> bstring option) option" where
  "generator_main ps argv old w =
     (if length argv \<noteq> 2 then Some (1, old)
      else map_option
        (\<lambda>r. case r of Generated text \<Rightarrow> (0, Some text) | NotGenerated \<Rightarrow> (1, None) | GenerateThrows \<Rightarrow> (1, None))
        (GeneratePropertyList ps (argv ! 1) w))"

section \<open>Ordered maps\<close>

abbreviation ordered :: "('k::linorder \<times> 'v) list \<Rightarrow> bool" where
  "ordered m \<equiv> sorted_wrt (<) (map fst m)"

lemma fst_emplace: "fst ` set (map_emplace k v m) = insert k (fst ` set m)"
proof (induction m)
  case (Cons e m)
  then show ?case by (cases e) (simp add: insert_commute)
qed simp

lemma map_emplace_map:
  "ordered m \<Longrightarrow> ordered (map_emplace k v m) \<and> map_of (map_emplace k v m) = [k \<mapsto> v] ++ map_of m"
proof (induction m)
  case (Cons e m)
  obtain k' v' where e: "e = (k', v')" by (cases e) auto
  have new: "map_of m k = None" if "k < k'"
    using Cons.prems that e by (force simp: map_of_eq_None_iff)
  show ?case
    using Cons new e fst_emplace [of k v m] by (auto simp: fun_eq_iff map_add_def split: option.splits)
qed (simp add: map_add_def fun_eq_iff)

lemma fold_emplace_map:
  "ordered m \<Longrightarrow> ordered (fold (\<lambda>(k, v). map_emplace (f k) (g v)) ms m)
     \<and> map_of (fold (\<lambda>(k, v). map_emplace (f k) (g v)) ms m) = map_of (map (\<lambda>(k, v). (f k, g v)) ms) ++ map_of m"
proof (induction ms arbitrary: m)
  case (Cons e ms)
  obtain k v where e: "e = (k, v)" by (cases e) auto
  show ?case
    using Cons.IH [of "map_emplace (f k) (g v) m"] map_emplace_map [OF Cons.prems, of "f k" "g v"] e
    by (auto simp: fun_eq_iff map_add_def split: option.splits)
qed simp

end
