(* ===== verification/Property_Theorems.thy ===== *)
theory Property_Theorems
  imports Property_Manager
begin

text \<open>
  The property list: generating it always ends, as does reading any JSON text, and looking a checksum up in the
  generated file gives the properties of the first file with this checksum.
\<close>

section \<open>Reading what was generated\<close>

text \<open>What a file of the list says, as narrow strings.\<close>

definition narrow_map :: "(wstring \<times> wstring) list \<Rightarrow> bstring \<Rightarrow> bstring option" where
  "narrow_map content = map_of (map (\<lambda>(k, v). (c_bytes (ToString k), c_bytes (ToString v))) content)"

lemma c_bytes_twice [simp]: "c_bytes (c_bytes s) = c_bytes s"
  by (rule c_bytes_id) (rule c_bytes_no_zero)

lemma read_members_strings:
  "read_members (map (\<lambda>(k, v). (c_bytes k, StringValue (c_bytes v))) ms) parsed =
     Returns (fold (\<lambda>(k, v). map_emplace (c_bytes k) (c_bytes v)) ms parsed)"
  by (induction ms arbitrary: parsed) (auto simp: GetString_def)

lemma decimal_not_empty: "decimal n \<noteq> []"
  by (subst decimal.simps) simp

text \<open>The first object with the checksum is taken; what the caller has already is kept.\<close>

lemma find_object_list:
  assumes "ordered content"
  shows "case find (\<lambda>ms. map_of (map (\<lambda>(k, v). (c_bytes k, c_bytes v)) ms) (ascii ''crc'') = Some (to_string crc)) os of
      None \<Rightarrow> find_object (map object_value os) crc content = Returns (False, content)
    | Some ms \<Rightarrow> \<exists>content'. find_object (map object_value os) crc content = Returns (True, content')
        \<and> map_of content' = map_of (map (\<lambda>(k, v). (c_bytes k, c_bytes v)) ms) ++ map_of content"
proof (induction os)
  case (Cons ms os)
  let ?M = "map_of (map (\<lambda>(k, v). (c_bytes k, c_bytes v)) ms)" and ?crc = "ascii ''crc''"
  let ?parsed = "fold (\<lambda>(k, v). map_emplace (c_bytes k) (c_bytes v)) ms ([] :: (bstring \<times> bstring) list)"
  have parsed: "ordered ?parsed" "map_of ?parsed = ?M"
    using fold_emplace_map [of "[]" c_bytes c_bytes ms] by simp_all
  have crc: "map_of (map_emplace ?crc [] ?parsed) = [?crc \<mapsto> []] ++ ?M" "ordered (map_emplace ?crc [] ?parsed)"
    using map_emplace_map [OF parsed(1), of ?crc "[]"] parsed(2) by simp_all
  have same: "([?crc \<mapsto> []] ++ ?M) ?crc = Some (to_string crc) \<longleftrightarrow> ?M ?crc = Some (to_string crc)"
    using decimal_not_empty [of "unat crc"] by (auto simp: map_add_def to_string_def split: option.splits)
  show ?case
  proof (cases "?M ?crc = Some (to_string crc)")
    case True
    let ?content = "fold (\<lambda>(k, v) content. map_emplace k v content) (map_emplace ?crc [] ?parsed) content"
    have "map_of ?content = map_of (map_emplace ?crc [] ?parsed) ++ map_of content"
      using fold_emplace_map [OF assms, of "\<lambda>k. k" "\<lambda>v. v" "map_emplace ?crc [] ?parsed"] by simp
    also have "map_of (map_emplace ?crc [] ?parsed) = ?M"
      using True by (auto simp: crc(1) map_add_def fun_eq_iff split: option.splits)
    finally have "map_of ?content = ?M ++ map_of content" .
    moreover have "find_object (map object_value (ms # os)) crc content = Returns (True, ?content)"
      using True same crc(1) by (simp add: object_value_def read_members_strings Let_def)
    ultimately show ?thesis using True by simp
  next
    case False
    then have "find_object (map object_value (ms # os)) crc content = find_object (map object_value os) crc content"
      using same crc(1) by (simp add: object_value_def read_members_strings Let_def)
    then show ?thesis using Cons.IH False by (simp split: option.splits)
  qed
qed simp

lemma length_array_text_2: "2 \<le> length (array_text os)"
  by (simp add: array_text_def)

lemma GetPropertyObject_text:
  assumes "ordered content"
  shows "case find (\<lambda>f. narrow_map (snd f) (ascii ''crc'') = Some (to_string crc)) files of
      None \<Rightarrow> GetPropertyObject num (property_list_text files) crc content = Returns (False, content)
    | Some f \<Rightarrow> \<exists>content'. GetPropertyObject num (property_list_text files) crc content = Returns (True, content')
        \<and> map_of content' = narrow_map (snd f) ++ map_of content"
proof -
  let ?os = "map (narrow_object \<circ> snd) files"
  have s: "c_bytes (write_array ?os) = array_text ?os"
    unfolding write_array_text by (rule c_bytes_id) (rule array_text_no_zero)
  have pad: "SkipWhitespace (replicate n 0x20 @ t) = SkipWhitespace t" for n t
    by (induction n) (simp_all add: SkipWhitespace_def)
  have "0 \<notin> set (property_list_text files)"
    using array_text_no_zero [of ?os] by (simp add: property_list_text_def s Let_def)
  then have "Document_Parse num (property_list_text files) = Reader_Parse num (property_list_text files)"
    by (simp add: Document_Parse_def c_bytes_id)
  also have "\<dots> = Reader_Parse num (array_text ?os @ [0x0D, 0x0A])"
    by (simp add: property_list_text_def s Let_def Reader_Parse_def pad)
  also have "\<dots> = Parsed (ArrayValue (map object_value ?os)) []"
    by (rule Reader_Parse_text) (simp add: SkipWhitespace_def)
  finally have g: "GetPropertyObject num (property_list_text files) crc content = find_object (map object_value ?os) crc content"
    by (simp add: GetPropertyObject_def)
  have n: "map_of (map (\<lambda>(k, v). (c_bytes k, c_bytes v)) (narrow_object c)) = narrow_map c" for c
    by (simp add: narrow_map_def narrow_object_def comp_def case_prod_unfold)
  have "find P (map h xs) = map_option h (find (P \<circ> h) xs)" for P and h :: "wstring \<times> (wstring \<times> wstring) list \<Rightarrow> (bstring \<times> bstring) list" and xs
    by (induction xs) auto
  then show ?thesis
    using find_object_list [OF assms, where crc = crc and os = ?os] unfolding g by (auto simp: n comp_def split: option.splits)
qed

section \<open>Ending\<close>

lemma property_lines_end: "property_lines i lines c \<noteq> None"
proof (induction lines arbitrary: i c)
  case (Cons line lines)
  obtain ps where "SplitString line [0x09, 0x09] = Some ps" by (rule SplitString_result [of "[0x09, 0x09]" line]) simp_all
  then have "property_line i line c \<noteq> None" by (simp add: property_line_def ReplaceString_remove)
  then show ?case using Cons.IH by (auto split: option.splits)
qed simp

lemma collect_files_end: "collect_files ps paths files w \<noteq> None"
proof (induction paths arbitrary: files)
  case (Cons path paths)
  have "property_file path content \<noteq> None" for content
  proof -
    obtain qs where "SplitString content [0x0A] = Some qs" by (rule SplitString_result [of "[0x0A]" content]) simp_all
    then show ?thesis using property_lines_end [of 0 qs "[]"] by (auto simp: property_file_def split: option.splits)
  qed
  then show ?case
    using Cons.IH by (cases "ps_read ps path w") (simp_all split: option.split, metis not_None_eq)
qed simp

section \<open>Properties\<close>

text \<open>
  C25. Looking up a checksum in the file that \<^verbatim>\<open>GeneratePropertyList\<close> has written gives the properties of the first of
  the collected files that has this checksum, whatever characters names and values consist of: the JSON reader undoes
  the writer. Entries the caller has already are kept; when no file has the checksum nothing is found.
\<close>

theorem property_list_lookup:
  assumes "GeneratePropertyList ps dir w = Some (Generated text)" "ordered content"
  shows "\<exists>paths files. ps_walk ps dir w = Some paths \<and> collect_files ps paths [] w = Some (Some files) \<and> files \<noteq> []
    \<and> (case find (\<lambda>f. narrow_map (snd f) (ascii ''crc'') = Some (to_string crc)) files of
         None \<Rightarrow> GetPropertyObject num text crc content = Returns (False, content)
       | Some f \<Rightarrow> \<exists>content'. GetPropertyObject num text crc content = Returns (True, content')
           \<and> map_of content' = narrow_map (snd f) ++ map_of content)"
proof -
  obtain paths files where "ps_walk ps dir w = Some paths" "collect_files ps paths [] w = Some (Some files)" "files \<noteq> []"
    "text = property_list_text files"
    using assms(1) by (auto simp: GeneratePropertyList_def split: if_splits option.splits)
  then show ?thesis using GetPropertyObject_text [OF assms(2), where crc = crc and files = files and num = num] by blast
qed

text \<open>One property file, with a quotation mark, a backslash and a control character in what it says.\<close>

definition sample_properties :: "unit property_system" where
  "sample_properties = \<lparr>ps_exists = \<lambda>_ _. True, ps_file_size = \<lambda>_ _. 1,
     ps_read = \<lambda>_ _. Some (map of_char ''YPRT'' @ [10, 52, 50, 10, 92, 1, 9, 9, 34, 97, 34, 10]),
     ps_read_narrow = \<lambda>_ _. None, ps_walk = \<lambda>_ _. Some [map of_char ''x.txt'', map of_char ''a.prt'']\<rparr>"

theorem property_list_lookup_witness:
  "\<exists>text content. GeneratePropertyList sample_properties [112] () = Some (Generated text)
     \<and> GetPropertyObject (\<lambda>_. Inl kParseErrorValueInvalid) text 42 [] = Returns (True, content) \<and> map_of content [92, 1] = Some [97]"
proof -
  let ?files = "[(map of_char ''a.prt'', [([92, 1], [97]), (map of_char ''crc'', [52, 50]), (map of_char ''filename'', map of_char ''a.prt'')])]
    :: (wstring \<times> (wstring \<times> wstring) list) list"
  have files: "collect_files sample_properties [map of_char ''x.txt'', map of_char ''a.prt''] [] () = Some (Some ?files)"
    by code_simp
  have ex: "ps_exists sample_properties [112] ()" by (simp add: sample_properties_def)
  have walk: "ps_walk sample_properties [112] () = Some [map of_char ''x.txt'', map of_char ''a.prt'']"
    by (simp add: sample_properties_def)
  have gen: "GeneratePropertyList sample_properties [112] () = Some (Generated (property_list_text ?files))"
    unfolding GeneratePropertyList_def walk option.case files using ex by simp
  have m: "narrow_map (snd (?files ! 0)) (ascii ''crc'') = Some (to_string 42)" "narrow_map (snd (?files ! 0)) [92, 1] = Some [97]"
    by (code_simp, code_simp)
  show ?thesis
    using property_list_lookup [OF gen, where content = "[]" and crc = 42 and num = "\<lambda>_. Inl kParseErrorValueInvalid"] files walk gen m by auto
qed

text \<open>
  C27. Generating the property list always returns, and so does reading any text as JSON, whatever prefix of the input
  the number parser takes.
\<close>

theorem property_operations_end:
  assumes "number_ok num"
  shows "GeneratePropertyList ps dir w \<noteq> None \<and> Document_Parse num text \<noteq> OutOfFuel"
proof -
  have "GeneratePropertyList ps dir w \<noteq> None"
    by (simp add: GeneratePropertyList_def collect_files_end split: option.split)
  then show ?thesis using Document_Parse_ends [OF assms] by blast
qed

theorem property_operations_end_witness:
  "GeneratePropertyList sample_properties [112] () \<noteq> None \<and> Document_Parse (\<lambda>s. Inr (tl s)) (ascii ''[[1,{'') \<noteq> OutOfFuel"
  by (rule property_operations_end) (simp add: number_ok_def)

text \<open>
  C26. The JSON reader gives back the strings the writer was given, of any bytes: control characters are written as
  numbers, quotation marks and backslashes with a backslash.
\<close>

theorem JSON_strings_round_trip: "parse_string [] (tl (WriteString s) @ rest) = Parsed s rest"
  by (simp add: WriteString_def parse_string_write)

end
