(* ===== verification/Lz4hc_Theorems.thy ===== *)
theory Lz4hc_Theorems
  imports Lz4hc_Correct
begin

text \<open>
  The compressor of \<^verbatim>\<open>3rd/lz4/lib/lz4hc.c\<close>: its count of common bytes is exact, its prices are the sizes of what it
  encodes, its match finder returns matches only, and what it produces is a block the decoder turns back into
  the source.
\<close>

section \<open>The count of common bytes\<close>

definition common_bytes :: "byte list \<Rightarrow> nat \<Rightarrow> nat \<Rightarrow> nat \<Rightarrow> nat" where
  "common_bytes src p m lim = length (takeWhile (\<lambda>k. src ! (m + k) = src ! (p + k)) [0..<lim - p])"

lemma common_bytesI:
  assumes "agree src m p n" "p + n \<le> lim" "p + n < lim \<Longrightarrow> src ! (m + n) \<noteq> src ! (p + n)"
  shows "common_bytes src p m lim = n"
proof -
  have "takeWhile (\<lambda>k. src ! (m + k) = src ! (p + k)) [0..<lim - p] = take n [0..<lim - p]"
    by (rule takeWhile_eq_take_P_nth) (use assms in \<open>simp_all add: agree_def\<close>)
  then show ?thesis using assms(2) by (simp add: common_bytes_def)
qed

lemma read_agree_iff:
  assumes "m + n \<le> length src" "p + n \<le> length src" "8 * n \<le> LENGTH('a::len)"
  shows "(le_word (slice m n src) :: 'a word) = le_word (slice p n src) \<longleftrightarrow> agree src m p n"
  using read_agree [OF assms] agree_slice [OF assms(1,2)] by auto

lemma NbCommonBytes_stops:
  assumes "x \<noteq> 0"
  shows "LZ4_NbCommonBytes x < 8" "le_bytes 8 x ! LZ4_NbCommonBytes x \<noteq> 0"
proof -
  have "takeWhile (\<lambda>b. b = 0) (le_bytes 8 x) \<noteq> le_bytes 8 x"
  proof
    assume "takeWhile (\<lambda>b. b = 0) (le_bytes 8 x) = le_bytes 8 x"
    then have "\<forall>b\<in>set (le_bytes 8 x). b = 0" by (simp add: takeWhile_eq_all_conv)
    then have "le_bytes 8 x = le_bytes 8 (0 :: u64)" by (auto simp: le_bytes_def)
    then show False using assms le_word_le_bytes [of 8 x] le_word_le_bytes [of 8 "0 :: u64"] by simp
  qed
  then have l: "length (takeWhile (\<lambda>b. b = 0) (le_bytes 8 x)) < length (le_bytes 8 x)"
    by (metis length_takeWhile_le nat_less_le takeWhile_eq_take take_all_iff)
  then show "LZ4_NbCommonBytes x < 8" by (simp add: NbCommonBytes_bytes)
  show "le_bytes 8 x ! LZ4_NbCommonBytes x \<noteq> 0"
    using nth_length_takeWhile [OF l] by (simp add: NbCommonBytes_bytes)
qed

lemma common_stops:
  assumes "m + 8 \<le> length src" "p + 8 \<le> length src"
    and "LZ4_read_ARCH src m XOR LZ4_read_ARCH src p \<noteq> 0" (is "?d \<noteq> 0")
  shows "src ! (m + LZ4_NbCommonBytes ?d) \<noteq> src ! (p + LZ4_NbCommonBytes ?d)"
proof
  let ?k = "LZ4_NbCommonBytes ?d"
  note k = NbCommonBytes_stops [OF assms(3)]
  assume "src ! (m + ?k) = src ! (p + ?k)"
  then have "le_bytes 8 (LZ4_read_ARCH src m) ! ?k = le_bytes 8 (LZ4_read_ARCH src p) ! ?k"
    using assms(1,2) k(1) by (simp add: bytes_read_ARCH)
  then have "le_bytes 8 ?d ! ?k = 0"
    using k(1) by (simp add: nth_le_bytes drop_bit_xor unsigned_xor_eq)
  then show False using k(2) by simp
qed

lemma count_tail_stops:
  assumes "m < p" "lim \<le> length src" "\<not> p + 7 < lim" "count_tail src p m lim < lim"
  shows "src ! (m + (count_tail src p m lim - p)) \<noteq> src ! count_tail src p m lim"
proof -
  define a where "a = (if p + 3 < lim \<and> LZ4_read32 src m = LZ4_read32 src p then 4 else 0 :: nat)"
  define b where "b = (if p + a + 1 < lim \<and> LZ4_read16 src (m + a) = LZ4_read16 src (p + a) then 2 else 0 :: nat)"
  define c where "c = (if p + a + b < lim \<and> src ! (m + a + b) = src ! (p + a + b) then 1 else 0 :: nat)"
  have t: "count_tail src p m lim = p + (a + b + c)"
    unfolding a_def b_def c_def count_tail_def Let_def by (simp split: prod.split)
  have r4: "a = 0 \<Longrightarrow> p + 3 < lim \<Longrightarrow> \<not> agree src m p 4"
    using read_agree_iff [where 'a = 32, of m 4 src p] assms(1,2) by (auto simp: a_def LZ4_read32_def split: if_splits)
  have r2: "p + a + 1 < lim \<Longrightarrow> b = 2 \<longleftrightarrow> agree src (m + a) (p + a) 2"
    using read_agree_iff [where 'a = 16, of "m + a" 2 src "p + a"] assms(1,2) by (auto simp: b_def LZ4_read16_def)
  have four: "agree src m p 4 \<longleftrightarrow> agree src m p 2 \<and> src ! (m + 2) = src ! (p + 2) \<and> src ! (m + 3) = src ! (p + 3)"
    by (auto simp: agree_def eval_nat_numeral less_Suc_eq)
  have two: "agree src (m + a) (p + a) 2 \<longleftrightarrow> src ! (m + a) = src ! (p + a) \<and> src ! (m + a + 1) = src ! (p + a + 1)"
    by (auto simp: agree_def eval_nat_numeral less_Suc_eq)
  have end_: "p + (a + b + c) < lim" using assms(4) t by simp
  have "src ! (m + (a + b + c)) \<noteq> src ! (p + (a + b + c))"
  proof (cases "c = 0")
    case True
    then show ?thesis using end_ by (auto simp: c_def add.assoc split: if_splits)
  next
    case False
    then have c: "c = 1" "src ! (m + a + b) = src ! (p + a + b)" by (auto simp: c_def split: if_splits)
    show ?thesis
    proof (cases "b = 0")
      case True
      then show ?thesis using r2 two c end_ by (simp add: add.assoc)
    next
      case False
      then have b: "b = 2" by (simp add: b_def split: if_splits)
      then have "a = 0" using end_ c(1) assms(3) by (auto simp: a_def split: if_splits)
      then show ?thesis using r4 r2 four b c end_ by (simp add: numeral_eq_Suc)
    qed
  qed
  then show ?thesis by (simp add: t)
qed

lemma count_words_stops:
  assumes "m < p" "lim \<le> length src" "count_words src p m lim < lim"
  shows "src ! (m + (count_words src p m lim - p)) \<noteq> src ! count_words src p m lim"
  using assms
proof (induction src p m lim rule: count_words.induct)
  case (1 src p m lim)
  let ?d = "LZ4_read_ARCH src m XOR LZ4_read_ARCH src p"
  consider (tail) "\<not> p + 7 < lim" | (diff) "p + 7 < lim" "?d \<noteq> 0" | (word) "p + 7 < lim" "?d = 0" by blast
  then show ?case
  proof cases
    case tail
    then show ?thesis using count_tail_stops [of m p lim src] 1(2-4) by (simp add: count_words.simps [of src p])
  next
    case diff
    then show ?thesis using common_stops [of m src p] 1(2-4) by (simp add: count_words.simps [of src p])
  next
    case word
    have e: "count_words src p m lim = count_words src (p + 8) (m + 8) lim"
      using word by (simp add: count_words.simps [of src p])
    have "p + 8 \<le> count_words src (p + 8) (m + 8) lim"
      using count_words_agree [of "m + 8" "p + 8" lim src] 1(2-3) word(1) by simp
    then have "m + 8 + (count_words src p m lim - (p + 8)) = m + (count_words src p m lim - p)" by (simp add: e)
    then show ?thesis using 1(1) [OF word(1) refl word(2)] 1(2-4) by (simp add: e)
  qed
qed

lemma count_common:
  assumes "m < p" "p \<le> lim" "lim \<le> length src"
  shows "LZ4_count src p m lim = common_bytes src p m lim"
proof (rule common_bytesI [symmetric])
  show "agree src m p (LZ4_count src p m lim)" "p + LZ4_count src p m lim \<le> lim" by (rule count_agree [OF assms])+
  show "src ! (m + LZ4_count src p m lim) \<noteq> src ! (p + LZ4_count src p m lim)" if "p + LZ4_count src p m lim < lim"
    using count_words_stops [OF assms(1,3)] that count_words_agree [OF assms] by (simp add: LZ4_count_def)
qed

section \<open>Prices\<close>

text \<open>The prices by which the parser chooses are the sizes of the encodings.\<close>

lemma sequence_price:
  "4 \<le> mlen \<Longrightarrow> LZ4HC_sequencePrice (length lits) mlen = int (length (encode_seq (lits, off, mlen)))"
  by (auto simp: LZ4HC_sequencePrice_def LZ4HC_literalsPrice_def encode_seq_def encode_token_def length_encode_length)

lemma literals_price: "LZ4HC_literalsPrice (length lits) + 1 = int (length (encode_last lits))"
  by (simp add: LZ4HC_literalsPrice_def encode_last_def encode_token_def length_encode_length)

section \<open>A concrete search\<close>

text \<open>At the second of 13 equal bytes, from empty tables.\<close>

definition sample_tables :: LZ4HC_CCtx where
  "sample_tables = LZ4HC_init (LZ4_resetStreamHC_fast 12 (LZ4_resetStreamHC 12 (lm_state sample_lz4)))"

abbreviation "equal_bytes \<equiv> replicate 13 (7 :: byte)"

abbreviation "second_tables \<equiv>
  sample_tables\<lparr>hc_nextToUpdate := 0x10001, hc_hashTable := (\<lambda>_. 0)(LZ4HC_hashPtr equal_bytes 0 := 0x10000)\<rparr>"

lemma sample_tables: "sample_tables = \<lparr>hc_hashTable = \<lambda>_. 0, hc_chainTable = \<lambda>_. 0xFFFF, hc_extent = 0x10000,
    hc_dictLimit = 0x10000, hc_lowLimit = 0x10000, hc_nextToUpdate = 0x10000, hc_compressionLevel = 12,
    hc_favorDecSpeed = False, hc_dirty = False\<rparr>"
  by (simp add: sample_tables_def LZ4HC_init_def LZ4HC_clearTables_def LZ4_resetStreamHC_fast_def LZ4_resetStreamHC_def
      LZ4_setCompressionLevel_def Let_def sample_lz4_def)

lemma insert_second: "LZ4HC_Insert equal_bytes 1 sample_tables = second_tables"
  by (simp add: LZ4HC_Insert_def sample_tables insert_loop.simps insert_position_def index_of_def ptr_of_def Let_def
      fun_upd_idem)

lemma second_hash: "LZ4HC_hashPtr equal_bytes 1 = LZ4HC_hashPtr equal_bytes 0"
  by (simp add: LZ4HC_hashPtr_def LZ4_read32_def slice_def)

lemma second_turn:
  "search_turn equal_bytes second_tables 1 8 False
     \<lparr>se_matchIndex = 0x10000, se_longest = 3, se_matchpos = 0, se_matchChainPos = 0, se_repeat = rep_untested,
      se_srcPatternLength = 0\<rparr>
   = Next_match \<lparr>se_matchIndex = 1, se_longest = 7, se_matchpos = 0x10000, se_matchChainPos = 0,
      se_repeat = rep_untested, se_srcPatternLength = 0\<rparr>"
proof -
  have "LZ4_count equal_bytes 5 4 8 = 3"
    by (simp add: LZ4_count_def count_words.simps count_tail_def LZ4_read32_def LZ4_read16_def slice_def)
  then show ?thesis
    by (simp add: search_turn_def try_match_def index_of_def ptr_of_def sample_tables Let_def go_back_def swap_chain_def
        DELTANEXTU16_def LZ4_read32_def LZ4_read16_def slice_def)
qed

lemma second_match:
  "fst (LZ4HC_FindLongerMatch equal_bytes sample_tables 1 8 3 (Suc (Suc 0)) False) = \<lparr>ma_off = 1, ma_len = 7\<rparr>"
proof -
  have "hc_lowLimit sample_tables = 0x10000" "index_of 1 = 0x10001" "ptr_of 0x10000 = 0"
    by (simp_all add: sample_tables index_of_def ptr_of_def)
  moreover have "\<not> 0x10000 \<le> (1 :: u32)" by (simp add: word_le_nat_alt)
  ultimately show ?thesis
    unfolding LZ4HC_FindLongerMatch_def LZ4HC_InsertAndGetWiderMatch_def insert_second
    by (simp add: second_turn second_hash Let_def del: One_nat_def)
qed

section \<open>Properties\<close>

text \<open>
  C9. The compressor always ends and never writes outside its destination, whatever its memory holds at first. It returns
  nothing only for a source above \<^verbatim>\<open>LZ4_MAX_INPUT_SIZE\<close> or a destination below \<^verbatim>\<open>LZ4_compressBound\<close>; otherwise the
  size of a valid block within the destination, from which \<^verbatim>\<open>LZ4_decompress_fast\<close> gets the source back.
\<close>

theorem LZ4_compress_HC_decompresses:
  assumes "dstCapacity \<le> int (length dst)"
  shows "\<exists>n dst'. LZ4_compress_HC mem src dst dstCapacity = Some (n, dst')
    \<and> (n = 0 \<and> (length src > 0x7E000000 \<or> dstCapacity < sint (LZ4_compressBound (of_nat (length src))))
       \<or> lz4_block (take n dst') src \<and> n \<le> length dst \<and> length dst' = length dst
         \<and> (length src < 2 ^ 31 \<longrightarrow> (\<forall>dest. length dest = length src \<longrightarrow>
              LZ4_decompress_fast (Some dst') dest (int (length src)) = Some (int n, src))))"
proof -
  obtain n dst' where c: "LZ4_compress_HC mem src dst dstCapacity = Some (n, dst')"
    "n = 0 \<and> (length src > 0x7E000000 \<or> dstCapacity < sint (LZ4_compressBound (of_nat (length src))))
     \<or> lz4_block (take n dst') src \<and> n \<le> length dst \<and> length dst' = length dst"
    using compress_HC_block [OF assms] by blast
  have "LZ4_decompress_fast (Some dst') dest (int (length src)) = Some (int n, src)"
    if "lz4_block (take n dst') src" "n \<le> length dst" "length dst' = length dst" "length src < 2 ^ 31" "length dest = length src" for dest
    using decompress_block [OF that(1,4,5), of "drop n dst'"] that(2,3) by simp
  then show ?thesis using c by blast
qed

theorem LZ4_compress_HC_decompresses_witness:
  "\<exists>n dst'. LZ4_compress_HC sample_lz4 (replicate 20 7) (replicate 60 0) 60 = Some (n, dst')
    \<and> LZ4_decompress_fast (Some dst') (replicate 20 0) 20 = Some (int n, replicate 20 7)"
proof -
  have "\<not> 60 < sint (LZ4_compressBound (of_nat (length (replicate 20 (7 :: byte)))))"
    using sint_compressBound [of 20] by simp
  then show ?thesis
    using LZ4_compress_HC_decompresses [of 60 "replicate 60 0" sample_lz4 "replicate 20 7"] by (auto dest!: spec [of _ "replicate 20 0"])
qed

text \<open>
  C19. Whatever the tables hold of the positions that were passed, the match finder, with its chain swapping and
  its short cuts for repeated bytes, returns no match or a real one: at a distance of up to 64 KB before the
  position, of at least four bytes that agree and end before the limit, longer than what was asked for.
\<close>

theorem LZ4HC_FindLongerMatch_matches:
  assumes "tables_at ctx p" "p \<le> ip" "ip + 4 \<le> lim" "lim \<le> length src" "length src < 2 ^ 31"
    and "LZ4HC_FindLongerMatch src ctx ip lim minLen n favor = (m, ctx')"
  shows "tables_at ctx' ip \<and> (ma_len m = 0 \<or>
    1 \<le> ma_off m \<and> ma_off m \<le> min ip 65535 \<and> 4 \<le> ma_len m \<and> ip + ma_len m \<le> lim
    \<and> (favor \<or> minLen < ma_len m) \<and> (\<forall>k<ma_len m. src ! (ip - ma_off m + k) = src ! (ip + k)))"
proof -
  note ok = FindLongerMatch_ok [OF assms]
  have "favor \<or> minLen < ma_len m \<or> ma_len m = 0"
    using assms(6) by (auto simp: LZ4HC_FindLongerMatch_def Let_def split: prod.splits if_splits)
  then show ?thesis using ok by (auto simp: match_found_def agree_def)
qed

theorem LZ4HC_FindLongerMatch_matches_witness:
  "\<exists>ctx. LZ4HC_FindLongerMatch equal_bytes sample_tables 1 8 3 2 False = (\<lparr>ma_off = 1, ma_len = 7\<rparr>, ctx)
    \<and> tables_at ctx 1 \<and> (\<forall>k<7. equal_bytes ! k = equal_bytes ! (1 + k))"
proof -
  obtain ctx where r: "LZ4HC_FindLongerMatch equal_bytes sample_tables 1 8 3 2 False = (\<lparr>ma_off = 1, ma_len = 7\<rparr>, ctx)"
    using second_match unfolding numeral_2_eq_2
    by (cases "LZ4HC_FindLongerMatch equal_bytes sample_tables 1 8 3 (Suc (Suc 0)) False") simp
  have "tables_at sample_tables 0" unfolding sample_tables_def by (rule init_tables)
  from LZ4HC_FindLongerMatch_matches [OF this _ _ _ _ r] show ?thesis using r by simp
qed

text \<open>
  C20. The count of common bytes, by words, by their lowest differing bit and by a tail of four, two and one bytes,
  is the length of the longest common prefix up to the limit.
\<close>

theorem LZ4_count_exact:
  assumes "m < p" "p \<le> lim" "lim \<le> length src"
  shows "LZ4_count src p m lim = length (takeWhile (\<lambda>k. src ! (m + k) = src ! (p + k)) [0..<lim - p])"
  using count_common [OF assms] by (simp add: common_bytes_def)

theorem LZ4_count_exact_witness: "LZ4_count (replicate 20 7 @ [1]) 1 0 21 = 19"
  using LZ4_count_exact [of 0 1 21 "replicate 20 7 @ [1]"] by (simp add: upt_rec nth_append)

end
